(* ===== verification/Prelude.thy ===== *)
theory Prelude
  imports Main "HOL-Library.Word" "HOL-Library.Monad_Syntax"
begin

text \<open>
  Shared vocabulary of the development: the machine integer types of the C++ code, checked
  access to a \<open>std::vector\<close>, and the lemmas on options, lists and words that the
  components share.

  Every operation that indexes memory or runs a loop without a static bound returns an
  \<open>option\<close>. \<open>None\<close> means that the C++ has no defined result: an access outside the
  allocation, or a loop that never ends. A theorem whose conclusion is \<open>Some\<close> is therefore
  a proof of memory safety and of termination as well.
\<close>

unbundle bit_operations_syntax

named_theorems access_simps \<open>checked vector accesses that succeed\<close>

type_synonym u8 = "8 word"
type_synonym u16 = "16 word"
type_synonym u32 = "32 word"
type_synonym u64 = "64 word"
type_synonym size_t = "64 word"
type_synonym bytes = "u8 list"

section \<open>Checked vector access\<close>

definition vget :: "'a list \<Rightarrow> nat \<Rightarrow> 'a option" where
  "vget xs i = (if i < length xs then Some (xs ! i) else None)"

definition vset :: "'a list \<Rightarrow> nat \<Rightarrow> 'a \<Rightarrow> 'a list option" where
  "vset xs i x = (if i < length xs then Some (xs[i := x]) else None)"

lemma vget_in [simp, access_simps]: "i < length xs \<Longrightarrow> vget xs i = Some (xs ! i)"
  by (simp add: vget_def)

lemma vset_in [simp, access_simps]: "i < length xs \<Longrightarrow> vset xs i x = Some (xs[i := x])"
  by (simp add: vset_def)

lemma vget_out [simp]: "length xs \<le> i \<Longrightarrow> vget xs i = None"
  by (simp add: vget_def)

lemma vget_Some: "vget xs i = Some x \<longleftrightarrow> i < length xs \<and> x = xs ! i"
  by (auto simp: vget_def)

lemma vset_Some: "vset xs i x = Some ys \<longleftrightarrow> i < length xs \<and> ys = xs[i := x]"
  by (auto simp: vset_def)

lemma vget_length_append [simp]: "vget (xs @ y # ys) (length xs) = Some y"
  by (simp add: vget_def)

section \<open>The option monad\<close>

text \<open>A loop over a list whose body may be undefined.\<close>

fun foldM :: "('a \<Rightarrow> 's \<Rightarrow> 's option) \<Rightarrow> 'a list \<Rightarrow> 's \<Rightarrow> 's option" where
  "foldM f [] s = Some s"
| "foldM f (x # xs) s = do { s' \<leftarrow> f x s; foldM f xs s' }"

lemma foldM_append: "foldM f (xs @ ys) s = do { s' \<leftarrow> foldM f xs s; foldM f ys s' }"
  by (induction xs arbitrary: s) (auto split: Option.bind_split)

lemma bind_Some_right [simp]: "Option.bind x Some = x"
  by (cases x) simp_all

lemma foldM_Nil_eq [simp]: "foldM f [] = Some"
  by (simp add: fun_eq_iff)

lemma foldM_snoc: "foldM f (xs @ [x]) s = do { s' \<leftarrow> foldM f xs s; f x s' }"
  by (simp add: foldM_append)

lemma bind_SomeE:
  assumes "Option.bind x f = Some z"
  obtains y where "x = Some y" and "f y = Some z"
  using assms by (cases x) auto

text \<open>An invariant indexed by the part of the list already processed.\<close>

lemma foldM_invariant:
  assumes "I [] s"
    and "\<And>ys x zs s. xs = ys @ x # zs \<Longrightarrow> I ys s \<Longrightarrow> \<exists>s'. f x s = Some s' \<and> I (ys @ [x]) s'"
  shows "\<exists>s'. foldM f xs s = Some s' \<and> I xs s'"
  using assms
proof (induction xs rule: rev_induct)
  case Nil
  then show ?case by simp
next
  case (snoc x xs)
  have "\<exists>s'. foldM f xs s = Some s' \<and> I xs s'"
    by (rule snoc.IH [OF snoc.prems(1)]) (auto intro: snoc.prems(2))
  then obtain s1 where s1: "foldM f xs s = Some s1" "I xs s1" by blast
  from snoc.prems(2) [of xs x "[]" s1] s1(2) obtain s2
    where "f x s1 = Some s2" "I (xs @ [x]) s2" by auto
  with s1 show ?case by (auto simp: foldM_append)
qed

text \<open>
  A loop whose body implements a specification step by step. The invariant counts the steps taken,
  and the body is good for fewer than \<open>limit\<close> of them.
\<close>

locale counted_steps =
  fixes step :: "'m \<Rightarrow> 's \<Rightarrow> 's option" and inv :: "nat \<Rightarrow> 's \<Rightarrow> bool" and view :: "'s \<Rightarrow> 'v"
    and spec :: "'m \<Rightarrow> 'v \<Rightarrow> 'v" and ok :: "'m \<Rightarrow> bool" and limit :: nat
  assumes step_refines: "inv n s \<Longrightarrow> n + 1 < limit \<Longrightarrow> ok m \<Longrightarrow>
    \<exists>s'. step m s = Some s' \<and> inv (n + 1) s' \<and> view s' = spec m (view s)"
begin

lemma fold_refines:
  assumes "inv n s" and "n + length ms < limit" and "\<forall>m \<in> set ms. ok m"
  obtains s' where "foldM step ms s = Some s'" and "inv (n + length ms) s'" and "view s' = fold spec ms (view s)"
proof -
  have "\<exists>s'. foldM step ms s = Some s' \<and> inv (n + length ms) s' \<and> view s' = fold spec ms (view s)"
    using assms
  proof (induction ms arbitrary: n s)
    case (Cons m ms)
    have "n + 1 < limit" "ok m" using Cons.prems(2,3) by simp_all
    from step_refines [OF Cons.prems(1) this] obtain s1
      where s1: "step m s = Some s1" "inv (n + 1) s1" "view s1 = spec m (view s)" by blast
    have "n + 1 + length ms < limit" "\<forall>m \<in> set ms. ok m" using Cons.prems(2,3) by simp_all
    from Cons.IH [OF s1(2) this] show ?case using s1(1,3) by simp
  qed simp
  then show thesis using that by blast
qed

end

section \<open>Words\<close>

lemma unat_and_mask:
  fixes w :: "'a::len word"
  shows "unat (w AND mask k) = unat w mod 2 ^ k"
  by (metis take_bit_eq_mask take_bit_eq_mod unsigned_take_bit_eq)

lemma unat_lt_16: "unat (w :: u16) < 65536"
  using unsigned_less [of w, where ?'a = nat] by simp

lemma unat_lt_32: "unat (w :: u32) < 4294967296"
  using unsigned_less [of w, where ?'a = nat] by simp

lemma unat_lt_64: "unat (w :: u64) < 18446744073709551616"
  using unsigned_less [of w, where ?'a = nat] by simp

lemma unat_of_nat_64: "n < 2 ^ 64 \<Longrightarrow> unat (word_of_nat n :: u64) = n"
  by (simp add: unat_of_nat take_bit_eq_mod)

lemma unat_of_nat_32: "n < 2 ^ 32 \<Longrightarrow> unat (word_of_nat n :: u32) = n"
  by (simp add: unat_of_nat take_bit_eq_mod)

lemma of_nat_u32_eq_0:
  assumes "n < 2 ^ 32"
  shows "(word_of_nat n :: u32) = 0 \<longleftrightarrow> n = 0"
proof
  assume "(word_of_nat n :: u32) = 0"
  then have "unat (word_of_nat n :: u32) = 0" by (simp only: unat_0)
  then show "n = 0" by (simp only: unat_of_nat_32 [OF assms])
qed simp

end
