(* ===== verification/Bitmap.thy ===== *)
theory Bitmap
  imports Prelude
begin

text \<open>
  Occupancy bitmaps: a vector of 64 bit words read as a set of cell numbers, with the scans
  of \<open>PriceLevels\<close> (\<open>src/book/price_levels.cc\<close>) for the first and last set bit, and the
  word loops that visit the set bits in ascending or descending order.
\<close>

section \<open>Counting zeros, as in the header \<open>bit\<close>\<close>

definition countr_zero :: "u64 \<Rightarrow> nat" where
  "countr_zero w = length (takeWhile (\<lambda>i. \<not> bit w i) [0..<64])"

definition countl_zero :: "u64 \<Rightarrow> nat" where
  "countl_zero w = length (takeWhile (\<lambda>i. \<not> bit w i) (rev [0..<64]))"

definition word_bits :: "u64 \<Rightarrow> nat set" where
  "word_bits w = {i. bit w i}"

lemma word_bits_lt: "i \<in> word_bits w \<Longrightarrow> i < 64"
  using bit_imp_le_length [of w i] by (simp add: word_bits_def)

lemma finite_word_bits [simp]: "finite (word_bits w)"
  by (rule finite_subset [of _ "{..<64}"]) (auto dest: word_bits_lt)

lemma word_bits_0 [simp]: "word_bits 0 = {}"
  by (simp add: word_bits_def)

lemma word_bits_empty_iff: "word_bits w = {} \<longleftrightarrow> w = 0"
  by (auto simp: word_bits_def intro: bit_word_eqI)

lemma length_takeWhile_first:
  assumes "k < length xs" and "\<not> P (xs ! k)" and "\<And>j. j < k \<Longrightarrow> P (xs ! j)"
  shows "length (takeWhile P xs) = k"
proof -
  have "takeWhile P xs = take k xs"
    by (rule takeWhile_eq_take_P_nth) (use assms in auto)
  then show ?thesis using assms(1) by simp
qed

lemma first_in_upt:
  assumes "k < n" and "\<not> P k" and "\<And>j. j < k \<Longrightarrow> P j"
  shows "length (takeWhile P [0..<n]) = k"
  using assms by (intro length_takeWhile_first) auto

lemma last_in_upt:
  assumes "k < n" and "\<not> P k" and "\<And>j. k < j \<Longrightarrow> P j"
  shows "length (takeWhile P (rev [0..<n])) = n - 1 - k"
  using assms by (intro length_takeWhile_first) (auto simp: rev_nth)

lemma Min_bit_le: "bit w j \<Longrightarrow> Min (word_bits w) \<le> j"
  by (rule Min_le) (simp, simp add: word_bits_def)

lemma Max_bit_ge: "bit w j \<Longrightarrow> j \<le> Max (word_bits w)"
  by (rule Max_ge) (simp, simp add: word_bits_def)

lemma countr_zero_Min:
  assumes "w \<noteq> 0"
  shows "countr_zero w = Min (word_bits w)"
proof -
  have m: "Min (word_bits w) \<in> word_bits w" using assms by (simp add: word_bits_empty_iff)
  have low: "\<not> bit w j" if "j < Min (word_bits w)" for j
    using that Min_bit_le [of w j] by linarith
  show ?thesis
    unfolding countr_zero_def
    by (rule first_in_upt [OF word_bits_lt [OF m] _ low]) (use m word_bits_def in blast)
qed

lemma countl_zero_Max:
  assumes "w \<noteq> 0"
  shows "63 - countl_zero w = Max (word_bits w)" and "countl_zero w \<le> 63"
proof -
  have m: "Max (word_bits w) \<in> word_bits w" using assms by (simp add: word_bits_empty_iff)
  have high: "\<not> bit w j" if "Max (word_bits w) < j" for j
    using that Max_bit_ge [of w j] by linarith
  have "countl_zero w = 64 - 1 - Max (word_bits w)"
    unfolding countl_zero_def
    by (rule last_in_upt [OF word_bits_lt [OF m] _ high]) (use m word_bits_def in blast)
  then show "63 - countl_zero w = Max (word_bits w)" "countl_zero w \<le> 63"
    using word_bits_lt [OF m] by auto
qed

section \<open>Clearing one bit of a word\<close>

definition one_bit :: "nat \<Rightarrow> u64" where
  "one_bit i = push_bit i 1"

lemma bit_one_bit [bit_simps]: "bit (one_bit i) j \<longleftrightarrow> j = i \<and> i < 64"
  by (auto simp: one_bit_def bit_simps)

lemma word_bits_clear_bit: "word_bits (w AND NOT (one_bit i)) = word_bits w - {i}"
  by (auto simp: word_bits_def bit_simps dest: bit_imp_le_length)

lemma and_minus_one_less: "(w :: u64) \<noteq> 0 \<Longrightarrow> unat (w AND (w - 1)) < unat w"
proof -
  assume "w \<noteq> 0"
  then have "unat (w - 1) < unat w" by (metis unat_1 unat_minus_one word_neq_0_conv unat_gt_0 diff_less zero_less_one)
  moreover have "w AND (w - 1) \<le> w - 1" by (rule word_and_le1)
  ultimately show ?thesis by (simp add: word_le_nat_alt)
qed

text \<open>\<open>word &= word - 1\<close> clears the lowest set bit.\<close>

lemma word_bits_clear_lowest:
  assumes "w \<noteq> 0"
  shows "word_bits (w AND (w - 1)) = word_bits w - {Min (word_bits w)}"
proof -
  let ?m = "Min (word_bits w)"
  let ?v = "w AND NOT (one_bit ?m)"
  have ne: "word_bits w \<noteq> {}" using assms by (simp add: word_bits_empty_iff)
  have m: "bit w ?m" "?m < 64" using Min_in [OF _ ne] word_bits_lt by (auto simp: word_bits_def)
  have low: "\<not> bit w j" if "j < ?m" for j
    using that Min_bit_le [of w j] by auto
  have "?v + one_bit ?m = ?v OR one_bit ?m"
    by (intro disjunctive_add) (auto simp: bit_simps)
  also have "\<dots> = w"
    by (rule bit_word_eqI) (use m in \<open>auto simp: bit_simps\<close>)
  finally have w: "w = ?v + one_bit ?m" by simp
  have "w - 1 = ?v + mask ?m"
    by (subst w) (simp add: one_bit_def mask_eq_exp_minus_1 push_bit_eq_mult algebra_simps)
  also have "\<dots> = ?v OR mask ?m"
    by (intro disjunctive_add) (use low in \<open>auto simp: bit_simps\<close>)
  finally have w1: "w - 1 = ?v OR mask ?m" .
  have "bit (w AND (w - 1)) i \<longleftrightarrow> bit w i \<and> i \<noteq> ?m" for i
    unfolding w1 using low m by (auto simp: bit_simps dest: bit_imp_le_length)
  then show ?thesis by (auto simp: word_bits_def)
qed

lemma clear_highest_less:
  assumes "(w :: u64) \<noteq> 0"
  shows "unat (w AND NOT (one_bit (63 - countl_zero w))) < unat w"
proof -
  let ?m = "Max (word_bits w)"
  have ne: "word_bits w \<noteq> {}" using assms by (simp add: word_bits_empty_iff)
  have "bit w ?m" using Max_in [OF _ ne] by (auto simp: word_bits_def)
  then have "w AND NOT (one_bit ?m) \<noteq> w"
    by (metis word_bits_clear_bit word_bits_def mem_Collect_eq insertI1 Diff_iff)
  then have "w AND NOT (one_bit ?m) < w"
    using word_and_le2 [of w] by (simp add: order_less_le)
  then show ?thesis using countl_zero_Max [OF assms] by (simp add: word_less_nat_alt)
qed

section \<open>Visiting the set bits\<close>

text \<open>
  The bit numbers produced by \<open>while (word != 0)\<close> loops: lowest first with
  \<open>word &= word - 1\<close>, highest first with \<open>word &= ~(1 << bit)\<close>.
\<close>

function bits_up :: "u64 \<Rightarrow> nat list" where
  "bits_up w = (if w = 0 then [] else countr_zero w # bits_up (w AND (w - 1)))"
  by pat_completeness auto
termination by (relation "measure unat") (auto intro: and_minus_one_less)

function bits_down :: "u64 \<Rightarrow> nat list" where
  "bits_down w =
     (if w = 0 then []
      else (63 - countl_zero w) # bits_down (w AND NOT (one_bit (63 - countl_zero w))))"
  by pat_completeness auto
termination
  by (relation "measure unat") (simp, simp only: in_measure, rule clear_highest_less)

declare bits_up.simps [simp del] bits_down.simps [simp del]

lemma bits_up_sorted: "bits_up w = sorted_list_of_set (word_bits w)"
proof (induction w rule: bits_up.induct)
  case (1 w)
  show ?case
  proof (cases "w = 0")
    case False
    then have "word_bits w \<noteq> {}" by (simp add: word_bits_empty_iff)
    then show ?thesis
      using False 1 by (simp add: bits_up.simps [of w] countr_zero_Min word_bits_clear_lowest sorted_list_of_set_nonempty)
  qed (simp add: bits_up.simps)
qed

lemma bits_down_spec: "set (bits_down w) = word_bits w \<and> sorted_wrt (>) (bits_down w)"
proof (induction w rule: bits_down.induct)
  case (1 w)
  show ?case
  proof (cases "w = 0")
    case False
    let ?m = "Max (word_bits w)"
    let ?v = "w AND NOT (one_bit ?m)"
    have m: "63 - countl_zero w = ?m" using countl_zero_Max [OF False] by simp
    have IH: "set (bits_down ?v) = word_bits w - {?m}" "sorted_wrt (>) (bits_down ?v)"
      using 1 [OF False] m word_bits_clear_bit by simp_all
    have "?m \<in> word_bits w" using False by (simp add: word_bits_empty_iff)
    then show ?thesis
      using IH False m Max_ge [of "word_bits w"]
      by (subst (1 2) bits_down.simps) (auto simp: order_less_le)
  qed (simp add: bits_down.simps)
qed

section \<open>Vectors of words\<close>

definition bits_set :: "u64 list \<Rightarrow> nat set" where
  "bits_set bits = {i. i < 64 * length bits \<and> bit (bits ! (i div 64)) (i mod 64)}"

lemma finite_bits_set [simp]: "finite (bits_set bits)"
  by (rule finite_subset [of _ "{..<64 * length bits}"]) (auto simp: bits_set_def)

lemma bits_set_Nil [simp]: "bits_set [] = {}"
  by (simp add: bits_set_def)

lemma bits_set_replicate_0 [simp]: "bits_set (replicate n 0) = {}"
proof -
  have "i div 64 < n" if "i < 64 * n" for i :: nat using that by (simp add: less_mult_imp_div_less mult.commute)
  then show ?thesis by (auto simp: bits_set_def)
qed

lemma bits_set_member:
  assumes "w < length bits" and "b < 64"
  shows "w * 64 + b \<in> bits_set bits \<longleftrightarrow> b \<in> word_bits (bits ! w)"
  using assms by (auto simp: bits_set_def word_bits_def div_mult_self3)

lemma bits_setE:
  assumes "i \<in> bits_set bits"
  obtains w b where "i = w * 64 + b" and "w < length bits" and "b \<in> word_bits (bits ! w)"
  using assms that [of "i div 64" "i mod 64"]
  by (auto simp: bits_set_def word_bits_def less_mult_imp_div_less mult.commute)

lemma bits_set_or:
  assumes "i < 64 * length bits"
  shows "bits_set (bits[i div 64 := bits ! (i div 64) OR one_bit (i mod 64)]) = insert i (bits_set bits)"
proof -
  have "i div 64 < length bits" using assms by (simp add: less_mult_imp_div_less mult.commute)
  moreover have "j = i" if "j div 64 = i div 64" "j mod 64 = i mod 64" for j
    using that by (metis div_mult_mod_eq)
  ultimately show ?thesis
    using assms by (auto simp: bits_set_def nth_list_update bit_simps)
qed

lemma bits_set_andnot:
  assumes "i < 64 * length bits"
  shows "bits_set (bits[i div 64 := bits ! (i div 64) AND NOT (one_bit (i mod 64))]) = bits_set bits - {i}"
proof -
  have "i div 64 < length bits" using assms by (simp add: less_mult_imp_div_less mult.commute)
  moreover have "j = i" if "j div 64 = i div 64" "j mod 64 = i mod 64" for j
    using that by (metis div_mult_mod_eq)
  ultimately show ?thesis
    using assms by (auto simp: bits_set_def nth_list_update bit_simps dest: bit_imp_le_length split: if_splits)
qed

text \<open>Cell numbers in the order in which the nested loops over words and bits visit them.\<close>

definition cells_up :: "u64 list \<Rightarrow> nat list" where
  "cells_up bits = concat (map (\<lambda>w. map (\<lambda>b. w * 64 + b) (bits_up (bits ! w))) [0..<length bits])"

definition cells_down :: "u64 list \<Rightarrow> nat list" where
  "cells_down bits = concat (map (\<lambda>w. map (\<lambda>b. w * 64 + b) (bits_down (bits ! w))) (rev [0..<length bits]))"

lemma set_cells_up: "set (cells_up bits) = bits_set bits"
  by (auto simp: cells_up_def bits_up_sorted elim!: bits_setE intro: bits_set_member [THEN iffD2] word_bits_lt)

lemma set_cells_down: "set (cells_down bits) = bits_set bits"
  by (auto simp: cells_down_def bits_down_spec elim!: bits_setE intro: bits_set_member [THEN iffD2] word_bits_lt)

lemma sorted_wrt_concat:
  assumes "sorted_wrt R ws" and "\<And>w. w \<in> set ws \<Longrightarrow> sorted_wrt Q (f w)"
    and "\<And>v w x y. v \<in> set ws \<Longrightarrow> w \<in> set ws \<Longrightarrow> R v w \<Longrightarrow> x \<in> set (f v) \<Longrightarrow> y \<in> set (f w) \<Longrightarrow> Q x y"
  shows "sorted_wrt Q (concat (map f ws))"
  using assms
proof (induction ws)
  case (Cons w ws)
  have "sorted_wrt Q (concat (map f ws))"
  proof (rule Cons.IH)
    show "sorted_wrt R ws" using Cons.prems(1) by simp
    show "sorted_wrt Q (f v)" if "v \<in> set ws" for v using Cons.prems(2) that by simp
    show "Q x y" if "u \<in> set ws" "v \<in> set ws" "R u v" "x \<in> set (f u)" "y \<in> set (f v)" for u v x y
      by (rule Cons.prems(3) [of u v]) (use that in simp_all)
  qed
  moreover have "Q x y" if "x \<in> set (f w)" "v \<in> set ws" "y \<in> set (f v)" for x y v
    using Cons.prems(3) [of w v x y] Cons.prems(1) that by simp
  ultimately show ?case using Cons.prems(2) by (auto simp: sorted_wrt_append)
qed simp

lemma sorted_cells_up: "sorted_wrt (<) (cells_up bits)"
  unfolding cells_up_def
proof (rule sorted_wrt_concat [where R = "(<)"])
  show "sorted_wrt (<) (map (\<lambda>b. w * 64 + b) (bits_up (bits ! w)))" for w
    by (simp add: sorted_wrt_map bits_up_sorted)
  show "x < y" if "v < w" "x \<in> set (map (\<lambda>b. v * 64 + b) (bits_up (bits ! v)))"
    "y \<in> set (map (\<lambda>b. w * 64 + b) (bits_up (bits ! w)))" for v w x y
    using that by (auto simp: bits_up_sorted dest!: word_bits_lt)
qed simp

lemma sorted_cells_down: "sorted_wrt (>) (cells_down bits)"
  unfolding cells_down_def
proof (rule sorted_wrt_concat [where R = "(>)"])
  show "sorted_wrt (>) (map (\<lambda>b. w * 64 + b) (bits_down (bits ! w)))" for w
    by (simp add: sorted_wrt_map bits_down_spec)
  show "x > y" if "v > w" "x \<in> set (map (\<lambda>b. v * 64 + b) (bits_down (bits ! v)))"
    "y \<in> set (map (\<lambda>b. w * 64 + b) (bits_down (bits ! w)))" for v w x y
    using that by (auto simp: bits_down_spec dest!: word_bits_lt)
  show "sorted_wrt (>) (rev [0..<length bits])" by (simp add: sorted_wrt_rev)
qed

section \<open>Scans\<close>

fun scan_up :: "u64 list \<Rightarrow> nat \<Rightarrow> int" where
  "scan_up [] w = -1"
| "scan_up (b # bs) w = (if b \<noteq> 0 then int (w * 64 + countr_zero b) else scan_up bs (w + 1))"

fun scan_down :: "u64 list \<Rightarrow> nat \<Rightarrow> int" where
  "scan_down bits 0 = -1"
| "scan_down bits (Suc w) =
     (if bits ! w \<noteq> 0 then int (w * 64 + 63 - countl_zero (bits ! w)) else scan_down bits w)"

lemma bits_set_Cons:
  "bits_set (b # bs) = word_bits b \<union> (+) 64 ` bits_set bs"
proof (intro set_eqI iffI)
  fix i assume i: "i \<in> bits_set (b # bs)"
  show "i \<in> word_bits b \<union> (+) 64 ` bits_set bs"
  proof (cases "i < 64")
    case True
    then show ?thesis using i by (simp add: bits_set_def word_bits_def)
  next
    case False
    then obtain j where j: "i = 64 + j" by (metis le_add_diff_inverse not_less)
    then show ?thesis using i by (auto simp: bits_set_def div_add_self1)
  qed
next
  fix i assume "i \<in> word_bits b \<union> (+) 64 ` bits_set bs"
  then show "i \<in> bits_set (b # bs)"
  proof
    assume "i \<in> word_bits b"
    then show ?thesis using word_bits_lt [of i b] by (simp add: bits_set_def word_bits_def)
  qed (auto simp: bits_set_def div_add_self1)
qed

lemma scan_up_Min:
  "scan_up bits w = (if bits_set bits = {} then -1 else int (w * 64 + Min (bits_set bits)))"
proof (induction bits arbitrary: w)
  case (Cons b bs)
  show ?case
  proof (cases "b = 0")
    case True
    then have "bits_set (b # bs) = (+) 64 ` bits_set bs" by (simp add: bits_set_Cons)
    moreover have "Min ((+) 64 ` bits_set bs) = 64 + Min (bits_set bs)" if "bits_set bs \<noteq> {}"
      using that by (intro mono_Min_commute [symmetric]) (auto simp: mono_def)
    ultimately show ?thesis using True Cons.IH [of "w + 1"] by simp
  next
    case False
    then have ne: "word_bits b \<noteq> {}" by (simp add: word_bits_empty_iff)
    have m: "Min (word_bits b) < 64" using Min_in [OF finite_word_bits ne] by (rule word_bits_lt)
    have "Min (bits_set (b # bs)) = Min (word_bits b)"
    proof (rule Min_eqI)
      show "Min (word_bits b) \<in> bits_set (b # bs)" using Min_in [OF finite_word_bits ne] by (simp add: bits_set_Cons)
      show "Min (word_bits b) \<le> y" if "y \<in> bits_set (b # bs)" for y
        using that m Min_le [OF finite_word_bits] by (auto simp: bits_set_Cons)
    qed simp
    then show ?thesis using False ne by (simp add: countr_zero_Min bits_set_Cons)
  qed
qed simp

lemma scan_down_Max:
  assumes "w \<le> length bits"
  shows "scan_down bits w =
    (if bits_set bits \<inter> {..<w * 64} = {} then -1 else int (Max (bits_set bits \<inter> {..<w * 64})))"
  using assms
proof (induction w)
  case (Suc w)
  let ?S = "bits_set bits \<inter> {..<w * 64}" and ?W = "(\<lambda>b. w * 64 + b) ` word_bits (bits ! w)"
  have split: "bits_set bits \<inter> {..<Suc w * 64} = ?S \<union> ?W"
  proof (intro set_eqI iffI)
    fix i assume i: "i \<in> bits_set bits \<inter> {..<Suc w * 64}"
    then obtain v b where v: "i = v * 64 + b" "v < length bits" "b \<in> word_bits (bits ! v)"
      by (blast elim: bits_setE)
    then have "v = w \<or> v * 64 + b < w * 64"
      using i word_bits_lt [OF v(3)] by (auto simp: not_less)
    then show "i \<in> ?S \<union> ?W" using i v by auto
  next
    fix i assume "i \<in> ?S \<union> ?W"
    then show "i \<in> bits_set bits \<inter> {..<Suc w * 64}"
      using bits_set_member [of w bits] Suc.prems word_bits_lt by auto
  qed
  show ?case
  proof (cases "bits ! w = 0")
    case True
    then show ?thesis using Suc split by simp
  next
    case False
    let ?m = "Max (word_bits (bits ! w))"
    have ne: "word_bits (bits ! w) \<noteq> {}" using False by (simp add: word_bits_empty_iff)
    have m: "?m \<in> word_bits (bits ! w)" using ne by simp
    have "Max (?S \<union> ?W) = w * 64 + ?m"
    proof (rule Max_eqI)
      show "y \<le> w * 64 + ?m" if "y \<in> ?S \<union> ?W" for y
        using that Max_ge [OF finite_word_bits] by auto
      show "w * 64 + ?m \<in> ?S \<union> ?W" using m by auto
    qed auto
    moreover have "w * 64 + 63 - countl_zero (bits ! w) = w * 64 + ?m"
      using countl_zero_Max [OF False] by linarith
    ultimately show ?thesis unfolding split using False ne by simp
  qed
qed simp

lemma scan_down_all:
  "scan_down bits (length bits) = (if bits_set bits = {} then -1 else int (Max (bits_set bits)))"
proof -
  have "bits_set bits \<inter> {..<length bits * 64} = bits_set bits"
    by (auto simp: bits_set_def)
  then show ?thesis by (simp add: scan_down_Max)
qed

end
