(* ===== verification/Ordered_Map.thy ===== *)
theory Ordered_Map
  imports Prelude
begin

text \<open>
  \<open>std::map\<close> as the price levels use it: an association list kept in strictly ascending key
  order. \<open>begin\<close> and \<open>rbegin\<close> are its ends and iteration follows the list. The locale
  \<open>std_map\<close> states what the client relies on, and is interpreted on this model.
\<close>

type_synonym 'v omap = "(u32 \<times> 'v) list"

definition omap_inv :: "'v omap \<Rightarrow> bool" where
  "omap_inv m \<longleftrightarrow> sorted_wrt (<) (map fst m)"

definition omap_find :: "'v omap \<Rightarrow> u32 \<Rightarrow> 'v option" where
  "omap_find m k = map_of m k"

fun omap_set :: "'v omap \<Rightarrow> u32 \<Rightarrow> 'v \<Rightarrow> 'v omap" where
  "omap_set [] k v = [(k, v)]"
| "omap_set ((a, b) # m) k v =
     (if k < a then (k, v) # (a, b) # m
      else if k = a then (k, v) # m
      else (a, b) # omap_set m k v)"

definition omap_erase :: "'v omap \<Rightarrow> u32 \<Rightarrow> 'v omap" where
  "omap_erase m k = filter (\<lambda>(a, b). a \<noteq> k) m"

definition omap_first :: "'v omap \<Rightarrow> (u32 \<times> 'v) option" where
  "omap_first m = (case m of [] \<Rightarrow> None | e # _ \<Rightarrow> Some e)"

definition omap_last :: "'v omap \<Rightarrow> (u32 \<times> 'v) option" where
  "omap_last m = (if m = [] then None else Some (last m))"

lemma omap_find_set: "omap_find (omap_set m k v) = (omap_find m)(k \<mapsto> v)"
  unfolding omap_find_def by (induction m k v rule: omap_set.induct) (auto simp: fun_eq_iff)

lemma set_omap_set_keys: "fst ` set (omap_set m k v) = insert k (fst ` set m)"
  by (induction m k v rule: omap_set.induct) auto

lemma omap_inv_Cons: "omap_inv ((a, b) # m) \<longleftrightarrow> (\<forall>k \<in> fst ` set m. a < k) \<and> omap_inv m"
  by (auto simp: omap_inv_def)

lemma omap_inv_set: "omap_inv m \<Longrightarrow> omap_inv (omap_set m k v)"
  by (induction m k v rule: omap_set.induct)
    (auto simp: omap_inv_Cons omap_inv_def [of "[_]"] set_omap_set_keys)

lemma omap_find_erase: "omap_find (omap_erase m k) = (omap_find m)(k := None)"
  unfolding omap_find_def omap_erase_def by (induction m) (auto simp: fun_eq_iff)

lemma omap_inv_erase: "omap_inv m \<Longrightarrow> omap_inv (omap_erase m k)"
  unfolding omap_erase_def by (induction m) (auto simp: omap_inv_Cons)

lemma omap_find_iff: "omap_inv m \<Longrightarrow> omap_find m k = Some v \<longleftrightarrow> (k, v) \<in> set m"
  unfolding omap_find_def omap_inv_def by (simp add: strict_sorted_iff)

lemma omap_first_spec:
  assumes "omap_inv m"
  shows "omap_first m = (if m = [] then None
    else Some (Min (fst ` set m), the (omap_find m (Min (fst ` set m)))))"
proof (cases m)
  case (Cons e m')
  obtain a b where e: "e = (a, b)" by (cases e)
  then have "Min (fst ` set m) = a"
    using assms Cons by (intro Min_eqI) (auto simp: omap_inv_Cons less_imp_le)
  then show ?thesis using Cons e by (simp add: omap_first_def omap_find_def)
qed (simp add: omap_first_def)

lemma omap_last_spec:
  assumes "omap_inv m"
  shows "omap_last m = (if m = [] then None
    else Some (Max (fst ` set m), the (omap_find m (Max (fst ` set m)))))"
proof (cases m rule: rev_cases)
  case (snoc m' e)
  obtain a b where e: "e = (a, b)" by (cases e)
  then have lt: "\<forall>k \<in> fst ` set m'. k < a"
    using assms snoc by (auto simp: omap_inv_def sorted_wrt_append)
  then have "Max (fst ` set m) = a"
    using snoc e by (intro Max_eqI) (auto simp: less_imp_le)
  moreover have "omap_find m a = Some b"
    unfolding omap_find_iff [OF assms] using snoc e by simp
  ultimately show ?thesis using snoc e by (simp add: omap_last_def)
qed (simp add: omap_last_def)

section \<open>The interface\<close>

locale std_map =
  fixes inv :: "'m \<Rightarrow> bool" and find :: "'m \<Rightarrow> u32 \<Rightarrow> 'v option"
    and entries :: "'m \<Rightarrow> (u32 \<times> 'v) list"
    and put :: "'m \<Rightarrow> u32 \<Rightarrow> 'v \<Rightarrow> 'm" and erase :: "'m \<Rightarrow> u32 \<Rightarrow> 'm"
  assumes find_put: "inv m \<Longrightarrow> find (put m k v) = (find m)(k \<mapsto> v)"
    and find_erase: "inv m \<Longrightarrow> find (erase m k) = (find m)(k := None)"
    and inv_put: "inv m \<Longrightarrow> inv (put m k v)"
    and inv_erase: "inv m \<Longrightarrow> inv (erase m k)"
    and sorted_entries: "inv m \<Longrightarrow> sorted_wrt (<) (map fst (entries m))"
    and find_entries: "inv m \<Longrightarrow> find m = map_of (entries m)"
begin

lemma distinct_keys: "inv m \<Longrightarrow> distinct (map fst (entries m))"
  using sorted_entries by (simp add: strict_sorted_iff)

lemma find_Some_iff: "inv m \<Longrightarrow> find m k = Some v \<longleftrightarrow> (k, v) \<in> set (entries m)"
  using distinct_keys by (simp add: find_entries)

lemma dom_find: "inv m \<Longrightarrow> dom (find m) = fst ` set (entries m)"
  by (simp add: find_entries dom_map_of_conv_image_fst)

lemma find_modify:
  assumes "inv m"
  shows "find (put m k (f (find m k))) j = (if j = k then Some (f (find m k)) else find m j)"
  using assms by (simp add: find_put)

lemma all_entries_iff:
  "inv m \<Longrightarrow> (\<forall>(k, v) \<in> set (entries m). P k v) \<longleftrightarrow> (\<forall>k v. find m k = Some v \<longrightarrow> P k v)"
  by (auto simp: find_Some_iff)

lemma all_put:
  assumes "inv m" and "\<And>k v. find m k = Some v \<Longrightarrow> P k v" and "P k v"
  shows "\<forall>(k, v) \<in> set (entries (put m k v)). P k v"
  using assms by (auto simp: all_entries_iff inv_put find_put)

lemma all_erase:
  assumes "inv m" and "\<And>k v. find m k = Some v \<Longrightarrow> P k v"
  shows "\<forall>(k, v) \<in> set (entries (erase m k)). P k v"
  using assms by (auto simp: all_entries_iff inv_erase find_erase split: if_splits)

end

interpretation om: std_map omap_inv omap_find "\<lambda>m. m" omap_set omap_erase
  by unfold_locales
    (simp_all add: omap_find_set omap_find_erase omap_inv_set omap_inv_erase,
     simp_all add: omap_inv_def omap_find_def fun_eq_iff)

end
