(* ===== verification/Price_Levels.thy ===== *)
theory Price_Levels
  imports Bitmap Ordered_Map
begin

text \<open>
  One side of a book: \<open>src/book/level.h\<close>, \<open>price_levels.h\<close> and \<open>price_levels.cc\<close>. A window of
  one cent cells around a base price, with an occupancy bitmap and a cached best cell, and a
  sorted map for the prices outside it. Each definition follows the member function of the
  same name.
\<close>

section \<open>Data\<close>

datatype side = Buy | Sell

record level =
  lv_price :: u32
  lv_shares :: u64
  lv_orders :: u32

record price_levels =
  pl_side :: side
  pl_span :: u32
  pl_base :: u32
  pl_cells :: "level list"
  pl_bits :: "u64 list"
  pl_count :: size_t
  pl_best :: int
  pl_far :: "level omap"
  pl_rebases :: size_t

definition empty_level :: level where
  "empty_level = \<lparr>lv_price = 0, lv_shares = 0, lv_orders = 0\<rparr>"

definition kTick :: u32 where
  "kTick = 100"

definition whole_cent :: "u32 \<Rightarrow> bool" where
  "whole_cent price \<longleftrightarrow> price mod kTick = 0"

definition kNoBase :: u32 where
  "kNoBase = 0xFFFFFFFF"

definition kDefaultSpan :: u32 where
  "kDefaultSpan = 1024"

definition window_base :: "u32 \<Rightarrow> u32 \<Rightarrow> u32" where
  "window_base span centre = (if centre > span div 2 then centre - span div 2 else 0)"

definition new_price_levels :: "side \<Rightarrow> u32 \<Rightarrow> u32 \<Rightarrow> price_levels" where
  "new_price_levels side reference_price tick_span =
     \<lparr>pl_side = side, pl_span = tick_span,
      pl_base = (if reference_price \<noteq> 0 \<and> whole_cent reference_price
                 then window_base tick_span (reference_price div kTick) else kNoBase),
      pl_cells = [], pl_bits = [], pl_count = 0, pl_best = -1, pl_far = [], pl_rebases = 0\<rparr>"

section \<open>Helpers\<close>

definition better :: "side \<Rightarrow> u32 \<Rightarrow> u32 \<Rightarrow> bool" where
  "better side a b = (if side = Buy then a > b else a < b)"

definition cell_in :: "u32 \<Rightarrow> u32 \<Rightarrow> u32 \<Rightarrow> int" where
  "cell_in base span price =
     (if base = kNoBase \<or> \<not> whole_cent price then -1
      else let cents = price div kTick
           in if cents < base \<or> cents - base \<ge> span then -1 else uint (cents - base))"

definition cell_of :: "price_levels \<Rightarrow> u32 \<Rightarrow> int" where
  "cell_of pl price = cell_in (pl_base pl) (pl_span pl) price"

definition far_best :: "price_levels \<Rightarrow> (u32 \<times> level) option" where
  "far_best pl = (if pl_side pl = Buy then omap_last (pl_far pl) else omap_first (pl_far pl))"

definition set_bit :: "nat \<Rightarrow> price_levels \<Rightarrow> price_levels option" where
  "set_bit i pl =
     do { w \<leftarrow> vget (pl_bits pl) (i div 64);
          bits \<leftarrow> vset (pl_bits pl) (i div 64) (w OR one_bit (i mod 64));
          Some (pl\<lparr>pl_bits := bits\<rparr>) }"

definition clear_bit :: "nat \<Rightarrow> price_levels \<Rightarrow> price_levels option" where
  "clear_bit i pl =
     do { w \<leftarrow> vget (pl_bits pl) (i div 64);
          bits \<leftarrow> vset (pl_bits pl) (i div 64) (w AND NOT (one_bit (i mod 64)));
          Some (pl\<lparr>pl_bits := bits\<rparr>) }"

definition scan_best :: "price_levels \<Rightarrow> int" where
  "scan_best pl =
     (if pl_side pl = Buy then scan_down (pl_bits pl) (length (pl_bits pl)) else scan_up (pl_bits pl) 0)"

text \<open>\<open>best_cell_ < 0 || better(price, cells_[best_cell_].price)\<close>\<close>

definition beats_best :: "price_levels \<Rightarrow> u32 \<Rightarrow> bool option" where
  "beats_best pl price =
     (if pl_best pl < 0 then Some True
      else do { b \<leftarrow> vget (pl_cells pl) (nat (pl_best pl));
                Some (better (pl_side pl) price (lv_price b)) })"

definition ensure_cells :: "price_levels \<Rightarrow> price_levels" where
  "ensure_cells pl =
     (if pl_cells pl = []
      then pl\<lparr>pl_cells := replicate (unat (pl_span pl)) empty_level,
              pl_bits := replicate (unat (pl_span pl div 64)) 0\<rparr>
      else pl)"

definition reserve :: "price_levels \<Rightarrow> price_levels" where
  "reserve pl = ensure_cells pl"

section \<open>Placing and moving levels\<close>

definition place :: "level \<Rightarrow> price_levels \<Rightarrow> price_levels option" where
  "place l pl =
     (let c = cell_of pl (lv_price l)
      in if c < 0 then Some (pl\<lparr>pl_far := omap_set (pl_far pl) (lv_price l) l\<rparr>)
         else do {
           let i = nat c;
           cells \<leftarrow> vset (pl_cells pl) i l;
           pl \<leftarrow> set_bit i (pl\<lparr>pl_cells := cells\<rparr>);
           let pl = pl\<lparr>pl_count := pl_count pl + 1\<rparr>;
           b \<leftarrow> beats_best pl (lv_price l);
           Some (if b then pl\<lparr>pl_best := c\<rparr> else pl) })"

text \<open>One gathered cell: its level is appended and the cell is blanked.\<close>

definition gather_cell :: "nat \<Rightarrow> level list \<times> level list \<Rightarrow> (level list \<times> level list) option" where
  "gather_cell i = (\<lambda>(cells, all).
     do { l \<leftarrow> vget cells i;
          cells' \<leftarrow> vset cells i empty_level;
          Some (cells', all @ [l]) })"

definition rebase :: "u32 \<Rightarrow> price_levels \<Rightarrow> price_levels option" where
  "rebase centre_price pl =
     do { (cells, all) \<leftarrow> (if pl_cells pl = [] then Some (pl_cells pl, [])
                           else foldM gather_cell (cells_up (pl_bits pl)) (pl_cells pl, []));
          let all = all @ map snd (pl_far pl);
          let pl = ensure_cells (pl\<lparr>pl_cells := cells, pl_far := []\<rparr>);
          let pl = pl\<lparr>pl_bits := replicate (unat (pl_span pl div 64)) 0, pl_count := 0, pl_best := -1,
                      pl_base := window_base (pl_span pl) (centre_price div kTick),
                      pl_rebases := pl_rebases pl + 1\<rparr>;
          foldM place all pl }"

section \<open>The public operations\<close>

definition pl_add :: "u32 \<Rightarrow> u32 \<Rightarrow> price_levels \<Rightarrow> price_levels option" where
  "pl_add price shares pl =
     (let pl = (if pl_base pl = kNoBase \<and> whole_cent price
                then pl\<lparr>pl_base := window_base (pl_span pl) (price div kTick)\<rparr> else pl);
          c = cell_of pl price
      in if c \<ge> 0 then do {
           let pl = ensure_cells pl;
           let i = nat c;
           l \<leftarrow> vget (pl_cells pl) i;
           pl \<leftarrow> (if lv_orders l = 0 then do {
                     cells \<leftarrow> vset (pl_cells pl) i (l\<lparr>lv_price := price\<rparr>);
                     pl \<leftarrow> set_bit i (pl\<lparr>pl_cells := cells\<rparr>);
                     let pl = pl\<lparr>pl_count := pl_count pl + 1\<rparr>;
                     b \<leftarrow> beats_best pl price;
                     Some (if b then pl\<lparr>pl_best := c\<rparr> else pl) }
                   else Some pl);
           l \<leftarrow> vget (pl_cells pl) i;
           cells \<leftarrow> vset (pl_cells pl) i
                     (l\<lparr>lv_shares := lv_shares l + ucast shares, lv_orders := lv_orders l + 1\<rparr>);
           Some (pl\<lparr>pl_cells := cells\<rparr>) }
         else do {
           let l = (case omap_find (pl_far pl) price of None \<Rightarrow> empty_level | Some l \<Rightarrow> l);
           let pl = pl\<lparr>pl_far := omap_set (pl_far pl) price
                        (l\<lparr>lv_price := price, lv_shares := lv_shares l + ucast shares,
                          lv_orders := lv_orders l + 1\<rparr>)\<rparr>;
           if whole_cent price then do {
             b \<leftarrow> beats_best pl price;
             if b then rebase price pl else Some pl }
           else Some pl })"

definition pl_reduce :: "u32 \<Rightarrow> u32 \<Rightarrow> price_levels \<Rightarrow> price_levels option" where
  "pl_reduce price shares pl =
     (let c = cell_of pl price
      in if c \<ge> 0 then do {
           l \<leftarrow> vget (pl_cells pl) (nat c);
           cells \<leftarrow> vset (pl_cells pl) (nat c) (l\<lparr>lv_shares := lv_shares l - ucast shares\<rparr>);
           Some (pl\<lparr>pl_cells := cells\<rparr>) }
         else case omap_find (pl_far pl) price of
           None \<Rightarrow> Some pl
         | Some l \<Rightarrow> Some (pl\<lparr>pl_far := omap_set (pl_far pl) price
                               (l\<lparr>lv_shares := lv_shares l - ucast shares\<rparr>)\<rparr>))"

text \<open>The tail of \<open>remove\<close> when the best cell was emptied.\<close>

definition after_best_removed :: "price_levels \<Rightarrow> price_levels option" where
  "after_best_removed pl =
     (let pl = pl\<lparr>pl_best := scan_best pl\<rparr>
      in case far_best pl of
           None \<Rightarrow> Some pl
         | Some (fb, _) \<Rightarrow>
             if whole_cent fb then do {
               b \<leftarrow> beats_best pl fb;
               if b then rebase fb pl else Some pl }
             else Some pl)"

definition pl_remove :: "u32 \<Rightarrow> u32 \<Rightarrow> price_levels \<Rightarrow> price_levels option" where
  "pl_remove price shares pl =
     (let c = cell_of pl price
      in if c \<ge> 0 then do {
           let i = nat c;
           l \<leftarrow> vget (pl_cells pl) i;
           let l = l\<lparr>lv_shares := lv_shares l - ucast shares, lv_orders := lv_orders l - 1\<rparr>;
           if lv_orders l = 0 then do {
             cells \<leftarrow> vset (pl_cells pl) i (l\<lparr>lv_shares := 0\<rparr>);
             pl \<leftarrow> clear_bit i (pl\<lparr>pl_cells := cells\<rparr>);
             let pl = pl\<lparr>pl_count := pl_count pl - 1\<rparr>;
             if pl_best pl = c then after_best_removed pl else Some pl }
           else do {
             cells \<leftarrow> vset (pl_cells pl) i l;
             Some (pl\<lparr>pl_cells := cells\<rparr>) } }
         else case omap_find (pl_far pl) price of
           None \<Rightarrow> Some pl
         | Some l \<Rightarrow>
             (let l = l\<lparr>lv_shares := lv_shares l - ucast shares, lv_orders := lv_orders l - 1\<rparr>
              in Some (pl\<lparr>pl_far := (if lv_orders l = 0 then omap_erase (pl_far pl) price
                                     else omap_set (pl_far pl) price l)\<rparr>)))"

definition pl_best_level :: "price_levels \<Rightarrow> level option option" where
  "pl_best_level pl =
     (if pl_best pl \<ge> 0 then do {
        a \<leftarrow> vget (pl_cells pl) (nat (pl_best pl));
        Some (Some (case far_best pl of
                      Some (fb, l) \<Rightarrow> if better (pl_side pl) fb (lv_price a) then l else a
                    | None \<Rightarrow> a)) }
      else Some (map_option snd (far_best pl)))"

definition pl_size :: "price_levels \<Rightarrow> size_t" where
  "pl_size pl = pl_count pl + word_of_nat (length (pl_far pl))"

definition rebases :: "price_levels \<Rightarrow> size_t" where
  "rebases pl = pl_rebases pl"

definition far_levels :: "price_levels \<Rightarrow> size_t" where
  "far_levels pl = word_of_nat (length (pl_far pl))"

lemmas side_reads [simp] = rebases_def far_levels_def

fun merge_levels :: "side \<Rightarrow> level list \<Rightarrow> level list \<Rightarrow> level list" where
  "merge_levels side (a # arr) (f # far) =
     (if better side (lv_price a) (lv_price f) then a # merge_levels side arr (f # far)
      else f # merge_levels side (a # arr) far)"
| "merge_levels side arr [] = arr"
| "merge_levels side [] far = far"

definition pl_levels :: "price_levels \<Rightarrow> level list option" where
  "pl_levels pl =
     do { arr \<leftarrow> (if pl_cells pl = [] then Some []
                   else foldM (\<lambda>i arr. map_option (\<lambda>l. arr @ [l]) (vget (pl_cells pl) i))
                          (if pl_side pl = Buy then cells_down (pl_bits pl) else cells_up (pl_bits pl)) []);
          let far = map snd (if pl_side pl = Buy then rev (pl_far pl) else pl_far pl);
          Some (merge_levels (pl_side pl) arr far) }"

text \<open>
  The runtime self check. The loop state is the running count, or \<open>None\<close> once the loop has
  returned false.
\<close>

definition check_cell :: "price_levels \<Rightarrow> nat \<Rightarrow> size_t option \<Rightarrow> size_t option option" where
  "check_cell pl i r =
     (case r of None \<Rightarrow> Some None
      | Some counted \<Rightarrow> do {
          w \<leftarrow> vget (pl_bits pl) (i div 64);
          l \<leftarrow> vget (pl_cells pl) i;
          let occ = (lv_orders l \<noteq> 0);
          Some (if bit w (i mod 64) \<noteq> occ then None
                else if \<not> occ then Some counted
                else if lv_shares l = 0 then None
                else if cell_of pl (lv_price l) \<noteq> int i then None
                else Some (counted + 1)) })"

definition pl_check_invariants :: "price_levels \<Rightarrow> bool option" where
  "pl_check_invariants pl =
     do { r \<leftarrow> foldM (check_cell pl) [0..<length (pl_cells pl)] (Some 0);
          Some (case r of None \<Rightarrow> False
                | Some counted \<Rightarrow>
                    counted = pl_count pl \<and> scan_best pl = pl_best pl \<and>
                    list_all (\<lambda>(price, l). lv_orders l \<noteq> 0 \<and> lv_shares l \<noteq> 0 \<and> lv_price l = price \<and>
                                           \<not> cell_of pl price \<ge> 0) (pl_far pl)) }"

end
