(* ===== verification/Price_Laws.thy ===== *)
theory Price_Laws
  imports Price_Levels
begin

text \<open>
  The invariant of one side of a book and its meaning, a finite map from prices to levels
  (\<open>pl_lv\<close>). The lemmas here cover the single updates the operations are made of: filling,
  changing and emptying a cell, changing the far map, and moving the window.
\<close>

section \<open>Cells and prices\<close>

lemma whole_cent_unat: "whole_cent p \<longleftrightarrow> unat p mod 100 = 0"
  by (simp add: whole_cent_def kTick_def word_unat_eq_iff unat_mod)

lemma unat_cents: "unat (p div kTick) = unat p div 100"
  by (simp add: kTick_def unat_div)

lemma cell_in_alt:
  "cell_in base span p =
     (if base = kNoBase \<or> \<not> whole_cent p \<or> unat p div 100 < unat base \<or>
         unat span \<le> unat p div 100 - unat base then -1
      else int (unat p div 100 - unat base))"
proof (cases "p div kTick < base")
  case True
  then have "unat p div 100 < unat base" by (simp add: word_less_nat_alt unat_cents)
  then show ?thesis using True by (simp add: cell_in_def Let_def)
next
  case False
  then have *: "unat (p div kTick - base) = unat p div 100 - unat base" "\<not> unat p div 100 < unat base"
    by (simp_all add: unat_sub unat_cents not_less word_le_nat_alt)
  have "uint (p div kTick - base) = int (unat p div 100 - unat base)"
    using *(1) by (metis uint_nat)
  moreover have "p div kTick - base \<ge> span \<longleftrightarrow> unat span \<le> unat p div 100 - unat base"
    unfolding word_le_nat_alt * ..
  ultimately show ?thesis using False *(2) by (simp add: cell_in_def Let_def)
qed

lemma cell_in_eq:
  "cell_in base span p = int i \<longleftrightarrow>
     base \<noteq> kNoBase \<and> whole_cent p \<and> unat p div 100 = unat base + i \<and> i < unat span"
  by (auto simp: cell_in_alt simp del: of_nat_diff)

lemma cell_in_cases: "cell_in base span p = -1 \<or> (\<exists>i. cell_in base span p = int i \<and> i < unat span)"
  by (auto simp: cell_in_alt simp del: of_nat_diff)

lemma cell_of_neg: "cell_of pl p < 0 \<longleftrightarrow> cell_of pl p = -1"
  using cell_in_cases [of "pl_base pl" "pl_span pl" p] by (auto simp: cell_of_def)

lemma cell_of_nonneg:
  assumes "0 \<le> cell_of pl p"
  obtains i where "cell_of pl p = int i" and "i < unat (pl_span pl)"
  using assms cell_in_cases [of "pl_base pl" "pl_span pl" p] that by (auto simp: cell_of_def)

lemma cell_of_inj:
  assumes "cell_of pl p = int i" and "cell_of pl q = int i"
  shows "p = q"
  using assms unfolding cell_of_def cell_in_eq whole_cent_unat
  by (metis div_mult_mod_eq word_unat_eq_iff)

lemma cell_of_mono:
  assumes "cell_of pl p = int i" and "cell_of pl q = int j"
  shows "p < q \<longleftrightarrow> i < j"
proof -
  have "unat p = (unat (pl_base pl) + i) * 100" "unat q = (unat (pl_base pl) + j) * 100"
    using assms unfolding cell_of_def cell_in_eq whole_cent_unat
    by (metis add.right_neutral div_mult_mod_eq)+
  then show ?thesis by (simp add: word_less_nat_alt)
qed

lemma cell_of_cong:
  "pl_base pl' = pl_base pl \<Longrightarrow> pl_span pl' = pl_span pl \<Longrightarrow> cell_of pl' = cell_of pl"
  by (simp add: cell_of_def fun_eq_iff)

lemma unat_lt2p_32: "unat (p :: u32) < 4294967296"
  using unsigned_less [of p] by simp

lemma unat_half: "unat (span div 2 :: u32) = unat span div 2"
  by (simp add: unat_div)

lemma window_base_bound: "unat (window_base span (p div kTick)) \<le> 42949672"
proof -
  have "unat (p div kTick) \<le> 42949672"
    using unat_lt2p_32 [of p] by (simp add: unat_cents)
  then show ?thesis
    by (auto simp: window_base_def word_less_nat_alt unat_sub order_less_imp_le)
qed

lemma window_base_noBase: "window_base span (p div kTick) \<noteq> kNoBase"
  using window_base_bound [of span p] by (auto simp: kNoBase_def)

text \<open>A window centred on a whole cent price contains that price.\<close>

lemma window_contains_centre:
  assumes "whole_cent p" and "64 \<le> unat span"
  shows "0 \<le> cell_in (window_base span (p div kTick)) span p"
proof (cases "p div kTick > span div 2")
  case True
  then have "unat (window_base span (p div kTick)) = unat p div 100 - unat span div 2"
    "unat span div 2 < unat p div 100"
    by (simp_all add: window_base_def unat_sub order_less_imp_le unat_half unat_cents word_less_nat_alt)
  moreover have "unat span div 2 < unat span" using assms(2) by simp
  ultimately have "\<not> unat p div 100 < unat (window_base span (p div kTick))"
    "\<not> unat span \<le> unat p div 100 - unat (window_base span (p div kTick))" by linarith+
  then show ?thesis
    using assms(1) window_base_noBase by (simp add: cell_in_alt del: of_nat_diff)
next
  case False
  then have "unat p div 100 \<le> unat span div 2"
    by (simp add: not_less unat_half unat_cents word_le_nat_alt)
  moreover have "window_base span (p div kTick) = 0" using False by (simp add: window_base_def)
  ultimately show ?thesis
    using assms window_base_noBase [of span p] by (simp add: cell_in_alt)
qed

section \<open>The best cell of a set\<close>

definition best_of :: "side \<Rightarrow> nat set \<Rightarrow> int" where
  "best_of side S = (if S = {} then -1 else int (if side = Buy then Max S else Min S))"

definition ibetter :: "side \<Rightarrow> nat \<Rightarrow> nat \<Rightarrow> bool" where
  "ibetter side i j = (if side = Buy then i > j else i < j)"

lemma best_of_empty [simp]: "best_of side {} = -1"
  by (simp add: best_of_def)

lemma best_of_neg_iff: "best_of side S < 0 \<longleftrightarrow> S = {}"
  by (simp add: best_of_def)

lemma best_of_memb:
  assumes "finite S" and "S \<noteq> {}"
  obtains b where "best_of side S = int b" and "b \<in> S" and "\<And>i. i \<in> S \<Longrightarrow> \<not> ibetter side i b"
proof -
  let ?b = "if side = Buy then Max S else Min S"
  have "\<not> ibetter side i ?b" if "i \<in> S" for i
    using that assms Max_ge [OF assms(1) that] Min_le [OF assms(1) that]
    by (auto simp: ibetter_def not_less)
  then show thesis using assms by (intro that [of ?b]) (auto simp: best_of_def)
qed

lemma best_ofI:
  assumes "finite S" and "b \<in> S" and "\<And>i. i \<in> S \<Longrightarrow> \<not> ibetter side i b"
  shows "best_of side S = int b"
proof -
  have "(if side = Buy then Max S else Min S) = b"
    using assms by (auto simp: ibetter_def not_less intro!: Max_eqI Min_eqI)
  then show ?thesis using assms(2) by (auto simp: best_of_def)
qed

lemma best_of_insert:
  assumes "finite S" and "i \<notin> S"
  shows "best_of side (insert i S) =
     (if S = {} \<or> ibetter side i (nat (best_of side S)) then int i else best_of side S)"
proof (cases "S = {}")
  case True
  then show ?thesis by (simp add: best_of_def)
next
  case False
  then obtain b where b: "best_of side S = int b" "b \<in> S" "\<And>j. j \<in> S \<Longrightarrow> \<not> ibetter side j b"
    using best_of_memb [OF assms(1)] by metis
  show ?thesis
  proof (cases "ibetter side i b")
    case True
    then have "best_of side (insert i S) = int i"
      using assms b by (intro best_ofI) (force simp: ibetter_def split: if_splits)+
    then show ?thesis using True b by simp
  next
    case not_better: False
    then have "best_of side (insert i S) = int b"
      using assms b by (intro best_ofI) auto
    then show ?thesis using not_better b False by simp
  qed
qed

lemma best_of_remove:
  assumes "finite S" and "i \<in> S" and "best_of side S \<noteq> int i"
  shows "best_of side (S - {i}) = best_of side S"
proof -
  obtain b where b: "best_of side S = int b" "b \<in> S" "\<And>j. j \<in> S \<Longrightarrow> \<not> ibetter side j b"
    using best_of_memb [OF assms(1)] assms(2) by (metis empty_iff)
  then have "best_of side (S - {i}) = int b" using assms by (intro best_ofI) auto
  then show ?thesis using b by simp
qed

lemma scan_best_bits: "scan_best pl = best_of (pl_side pl) (bits_set (pl_bits pl))"
  by (simp add: scan_best_def best_of_def scan_down_all scan_up_Min)

section \<open>Invariant and abstraction\<close>

definition occ :: "level list \<Rightarrow> nat set" where
  "occ cells = {i. i < length cells \<and> lv_orders (cells ! i) \<noteq> 0}"

definition sized :: "price_levels \<Rightarrow> bool" where
  "sized pl \<longleftrightarrow>
     64 \<le> unat (pl_span pl) \<and> 64 dvd unat (pl_span pl) \<and>
     (pl_cells pl = [] \<and> pl_bits pl = [] \<or>
      length (pl_cells pl) = unat (pl_span pl) \<and> length (pl_bits pl) = unat (pl_span pl) div 64)"

definition cells_ok :: "price_levels \<Rightarrow> bool" where
  "cells_ok pl \<longleftrightarrow>
     (\<forall>i \<in> occ (pl_cells pl). cell_of pl (lv_price (pl_cells pl ! i)) = int i) \<and>
     (\<forall>l \<in> set (pl_cells pl). lv_orders l = 0 \<longrightarrow> lv_shares l = 0)"

definition far_ok :: "price_levels \<Rightarrow> bool" where
  "far_ok pl \<longleftrightarrow>
     omap_inv (pl_far pl) \<and>
     (\<forall>(p, l) \<in> set (pl_far pl). lv_price l = p \<and> lv_orders l \<noteq> 0 \<and> cell_of pl p < 0 \<and>
        (pl_base pl = kNoBase \<longrightarrow> \<not> whole_cent p))"

definition pl_inv :: "price_levels \<Rightarrow> bool" where
  "pl_inv pl \<longleftrightarrow>
     sized pl \<and> cells_ok pl \<and> far_ok pl \<and>
     bits_set (pl_bits pl) = occ (pl_cells pl) \<and>
     pl_count pl = word_of_nat (card (occ (pl_cells pl))) \<and>
     pl_best pl = best_of (pl_side pl) (occ (pl_cells pl))"

definition pl_lv :: "price_levels \<Rightarrow> u32 \<rightharpoonup> level" where
  "pl_lv pl p =
     (if cell_of pl p < 0 then omap_find (pl_far pl) p
      else if nat (cell_of pl p) \<in> occ (pl_cells pl) then Some (pl_cells pl ! nat (cell_of pl p))
      else None)"

lemma finite_occ [simp]: "finite (occ cells)"
  by (rule finite_subset [of _ "{..<length cells}"]) (auto simp: occ_def)

lemma occ_less: "i \<in> occ cells \<Longrightarrow> i < length cells"
  by (simp add: occ_def)

lemma occ_Nil [simp]: "occ [] = {}"
  by (simp add: occ_def)

lemma occ_replicate_empty [simp]: "occ (replicate n empty_level) = {}"
  by (auto simp: occ_def empty_level_def)

lemma occ_update:
  "i < length cells \<Longrightarrow>
     occ (cells[i := l]) = (if lv_orders l = 0 then occ cells - {i} else insert i (occ cells))"
  by (auto simp: occ_def nth_list_update)

lemma pl_lv_cell: "cell_of pl p = int i \<Longrightarrow>
    pl_lv pl p = (if i \<in> occ (pl_cells pl) then Some (pl_cells pl ! i) else None)"
  by (simp add: pl_lv_def)

lemma pl_lv_far: "cell_of pl p < 0 \<Longrightarrow> pl_lv pl p = omap_find (pl_far pl) p"
  by (simp add: pl_lv_def)

lemma cells_ok_price:
  "cells_ok pl \<Longrightarrow> i \<in> occ (pl_cells pl) \<Longrightarrow> cell_of pl (lv_price (pl_cells pl ! i)) = int i"
  by (simp add: cells_ok_def)

lemma far_ok_find:
  assumes "far_ok pl" and "omap_find (pl_far pl) p = Some l"
  shows "lv_price l = p" and "lv_orders l \<noteq> 0" and "cell_of pl p < 0"
    and "pl_base pl = kNoBase \<Longrightarrow> \<not> whole_cent p"
  using assms om.find_Some_iff [of "pl_far pl" p l] by (auto simp: far_ok_def)

lemma pl_lv_SomeD:
  assumes "cells_ok pl" and "far_ok pl" and lv: "pl_lv pl p = Some l"
  shows "lv_price l = p \<and> lv_orders l \<noteq> 0"
proof (cases "cell_of pl p < 0")
  case True
  then show ?thesis using assms far_ok_find by (auto simp: pl_lv_def)
next
  case False
  then obtain i where i: "cell_of pl p = int i" by (metis cell_of_nonneg not_less)
  then have "i \<in> occ (pl_cells pl)" "l = pl_cells pl ! i"
    using lv by (auto simp: pl_lv_cell split: if_splits)
  then have "cell_of pl (lv_price l) = int i" using cells_ok_price [OF assms(1)] by simp
  then have "lv_price l = p" using i by (rule cell_of_inj)
  then show ?thesis using \<open>i \<in> occ (pl_cells pl)\<close> \<open>l = _\<close> by (simp add: occ_def)
qed

lemma pl_lv_iff:
  assumes "cells_ok pl" and "far_ok pl"
  shows "pl_lv pl p = Some l \<longleftrightarrow>
     (\<exists>i \<in> occ (pl_cells pl). l = pl_cells pl ! i \<and> lv_price l = p) \<or> (p, l) \<in> set (pl_far pl)"
proof -
  have inv: "omap_inv (pl_far pl)" using assms(2) by (simp add: far_ok_def)
  show ?thesis
  proof (cases "cell_of pl p < 0")
    case True
    then have "\<not> (\<exists>i \<in> occ (pl_cells pl). l = pl_cells pl ! i \<and> lv_price l = p)"
      using cells_ok_price [OF assms(1)] by force
    then show ?thesis using True om.find_Some_iff [OF inv] by (auto simp: pl_lv_far)
  next
    case False
    then obtain i where i: "cell_of pl p = int i" by (metis cell_of_nonneg not_less)
    have "(p, l) \<notin> set (pl_far pl)" using False assms(2) by (auto simp: far_ok_def)
    moreover have "(\<exists>j \<in> occ (pl_cells pl). l = pl_cells pl ! j \<and> lv_price l = p) \<longleftrightarrow>
        i \<in> occ (pl_cells pl) \<and> l = pl_cells pl ! i"
      using i cells_ok_price [OF assms(1)] cell_of_inj by (metis of_nat_eq_iff)
    ultimately show ?thesis using i by (auto simp: pl_lv_cell)
  qed
qed

lemma finite_pl_lv [simp]: "finite (dom (pl_lv pl))"
  by (rule finite_subset [of _ UNIV]) simp_all

section \<open>Changing the far map\<close>

lemma far_ok_put:
  assumes "far_ok pl" and "lv_price l = p" and "lv_orders l \<noteq> 0" and "cell_of pl p < 0"
    and "pl_base pl = kNoBase \<Longrightarrow> \<not> whole_cent p"
  shows "far_ok (pl\<lparr>pl_far := omap_set (pl_far pl) p l\<rparr>)"
proof -
  have inv: "omap_inv (pl_far pl)" using assms(1) by (simp add: far_ok_def)
  have c: "cell_of (pl\<lparr>pl_far := omap_set (pl_far pl) p l\<rparr>) = cell_of pl"
    by (rule cell_of_cong) simp_all
  have "\<forall>(k, v) \<in> set (omap_set (pl_far pl) p l). lv_price v = k \<and> lv_orders v \<noteq> 0 \<and> cell_of pl k < 0 \<and>
      (pl_base pl = kNoBase \<longrightarrow> \<not> whole_cent k)"
    by (rule om.all_put [OF inv]) (use assms far_ok_find [OF assms(1)] in blast)+
  then show ?thesis using inv c by (simp add: far_ok_def omap_inv_set)
qed

lemma far_ok_erase:
  assumes "far_ok pl"
  shows "far_ok (pl\<lparr>pl_far := omap_erase (pl_far pl) p\<rparr>)"
proof -
  have inv: "omap_inv (pl_far pl)" using assms by (simp add: far_ok_def)
  have c: "cell_of (pl\<lparr>pl_far := omap_erase (pl_far pl) p\<rparr>) = cell_of pl"
    by (rule cell_of_cong) simp_all
  have "\<forall>(k, v) \<in> set (omap_erase (pl_far pl) p). lv_price v = k \<and> lv_orders v \<noteq> 0 \<and> cell_of pl k < 0 \<and>
      (pl_base pl = kNoBase \<longrightarrow> \<not> whole_cent k)"
    by (rule om.all_erase [OF inv]) (use far_ok_find [OF assms] in blast)
  then show ?thesis using inv c by (simp add: far_ok_def omap_inv_erase)
qed

text \<open>The parts of the invariant that do not look at the far map.\<close>

lemma pl_inv_far_update:
  assumes "pl_inv pl" and "far_ok (pl\<lparr>pl_far := m\<rparr>)"
  shows "pl_inv (pl\<lparr>pl_far := m\<rparr>)"
proof -
  have "cell_of (pl\<lparr>pl_far := m\<rparr>) = cell_of pl" by (rule cell_of_cong) simp_all
  then show ?thesis using assms by (simp add: pl_inv_def sized_def cells_ok_def)
qed

lemma pl_lv_far_update:
  assumes "cell_of pl p < 0" and "\<And>q. q \<noteq> p \<Longrightarrow> omap_find m q = omap_find (pl_far pl) q"
  shows "pl_lv (pl\<lparr>pl_far := m\<rparr>) = (\<lambda>q. if q = p then omap_find m p else pl_lv pl q)"
proof
  fix q
  have "cell_of (pl\<lparr>pl_far := m\<rparr>) = cell_of pl" by (rule cell_of_cong) simp_all
  then show "pl_lv (pl\<lparr>pl_far := m\<rparr>) q = (if q = p then omap_find m p else pl_lv pl q)"
    using assms by (simp add: pl_lv_def)
qed

lemma far_put_correct:
  assumes inv: "pl_inv pl" and l: "lv_price l = p" "lv_orders l \<noteq> 0" "cell_of pl p < 0"
    and "pl_base pl = kNoBase \<Longrightarrow> \<not> whole_cent p"
  shows "pl_inv (pl\<lparr>pl_far := omap_set (pl_far pl) p l\<rparr>)"
    and "pl_lv (pl\<lparr>pl_far := omap_set (pl_far pl) p l\<rparr>) = (pl_lv pl)(p \<mapsto> l)"
proof -
  have far: "far_ok pl" using inv by (simp add: pl_inv_def)
  show "pl_inv (pl\<lparr>pl_far := omap_set (pl_far pl) p l\<rparr>)"
    by (rule pl_inv_far_update [OF inv far_ok_put [OF far l assms(5)]])
  show "pl_lv (pl\<lparr>pl_far := omap_set (pl_far pl) p l\<rparr>) = (pl_lv pl)(p \<mapsto> l)"
    using l by (subst pl_lv_far_update) (auto simp: omap_find_set)
qed

lemma far_erase_correct:
  assumes inv: "pl_inv pl" and "cell_of pl p < 0"
  shows "pl_inv (pl\<lparr>pl_far := omap_erase (pl_far pl) p\<rparr>)"
    and "pl_lv (pl\<lparr>pl_far := omap_erase (pl_far pl) p\<rparr>) = (pl_lv pl)(p := None)"
proof -
  have far: "far_ok pl" using inv by (simp add: pl_inv_def)
  show "pl_inv (pl\<lparr>pl_far := omap_erase (pl_far pl) p\<rparr>)"
    by (rule pl_inv_far_update [OF inv far_ok_erase [OF far]])
  show "pl_lv (pl\<lparr>pl_far := omap_erase (pl_far pl) p\<rparr>) = (pl_lv pl)(p := None)"
    using assms(2) by (subst pl_lv_far_update) (auto simp: omap_find_erase)
qed

section \<open>Changing a cell\<close>

text \<open>
  The three ways a cell changes: the level of an occupied cell is replaced, an empty cell is
  filled, an occupied cell is emptied.
\<close>

lemma sized_cells_update:
  "sized pl \<Longrightarrow> pl_cells pl \<noteq> [] \<Longrightarrow> length cells = length (pl_cells pl) \<Longrightarrow> length bits = length (pl_bits pl) \<Longrightarrow>
     sized (pl\<lparr>pl_cells := cells, pl_bits := bits, pl_count := n, pl_best := b\<rparr>)"
  by (auto simp: sized_def)

lemma pl_lv_cell_update:
  assumes "cell_of pl p = int i" and "i < length (pl_cells pl)"
    and "pl_base pl' = pl_base pl" and "pl_span pl' = pl_span pl" and "pl_far pl' = pl_far pl"
    and "pl_cells pl' = (pl_cells pl)[i := l]"
  shows "pl_lv pl' = (pl_lv pl)(p := if lv_orders l = 0 then None else Some l)"
proof
  fix q
  have c: "cell_of pl' = cell_of pl" by (rule cell_of_cong) (use assms in simp_all)
  show "pl_lv pl' q = ((pl_lv pl)(p := if lv_orders l = 0 then None else Some l)) q"
  proof (cases "cell_of pl q < 0")
    case True
    then show ?thesis using assms c by (auto simp: pl_lv_def)
  next
    case False
    then obtain j where j: "cell_of pl q = int j" by (metis cell_of_nonneg not_less)
    then have "q = p \<longleftrightarrow> j = i" using assms(1) cell_of_inj by auto
    then show ?thesis
      using assms c j by (auto simp: pl_lv_cell [of pl'] pl_lv_cell [of pl] occ_update)
  qed
qed

lemma cells_ok_update:
  assumes "cells_ok pl" and "i < length (pl_cells pl)"
    and "lv_orders l = 0 \<Longrightarrow> lv_shares l = 0"
    and "lv_orders l \<noteq> 0 \<Longrightarrow> cell_of pl (lv_price l) = int i"
    and "pl_base pl' = pl_base pl" and "pl_span pl' = pl_span pl" and "pl_cells pl' = (pl_cells pl)[i := l]"
  shows "cells_ok pl'"
proof -
  have c: "cell_of pl' = cell_of pl" by (rule cell_of_cong) (use assms in simp_all)
  have "\<forall>m \<in> set (pl_cells pl'). lv_orders m = 0 \<longrightarrow> lv_shares m = 0"
    using assms(1,3,7) set_update_subset_insert [of "pl_cells pl" i l] by (auto simp: cells_ok_def)
  moreover have "cell_of pl (lv_price (pl_cells pl' ! j)) = int j" if "j \<in> occ (pl_cells pl')" for j
  proof (cases "j = i")
    case True
    then show ?thesis using that assms(2,4,7) by (simp add: occ_def)
  next
    case False
    then show ?thesis
      using that assms(2,7) cells_ok_price [OF assms(1), of j] by (simp add: occ_def)
  qed
  ultimately show ?thesis using c by (simp add: cells_ok_def)
qed

lemma cell_replace_correct:
  assumes inv: "pl_inv pl" and p: "cell_of pl p = int i" and i: "i \<in> occ (pl_cells pl)"
    and l: "lv_price l = p" "lv_orders l \<noteq> 0"
  shows "pl_inv (pl\<lparr>pl_cells := (pl_cells pl)[i := l]\<rparr>)"
    and "pl_lv (pl\<lparr>pl_cells := (pl_cells pl)[i := l]\<rparr>) = (pl_lv pl)(p \<mapsto> l)"
proof -
  let ?pl = "pl\<lparr>pl_cells := (pl_cells pl)[i := l]\<rparr>"
  have il: "i < length (pl_cells pl)" using i by (rule occ_less)
  have "occ (pl_cells ?pl) = occ (pl_cells pl)" using il i l by (auto simp: occ_update)
  moreover have "cells_ok ?pl"
    by (rule cells_ok_update [of pl i l]) (use inv il l p in \<open>auto simp: pl_inv_def\<close>)
  moreover have "sized ?pl" using inv by (auto simp: pl_inv_def sized_def)
  moreover have "far_ok ?pl" using inv by (simp add: pl_inv_def far_ok_def cell_of_def)
  ultimately show "pl_inv ?pl" using inv by (simp add: pl_inv_def)
  show "pl_lv ?pl = (pl_lv pl)(p \<mapsto> l)"
    by (subst pl_lv_cell_update [OF p il, where l = l]) (simp_all add: l)
qed

text \<open>The cached best after a cell is filled.\<close>

lemma beats_best_eq:
  assumes "pl_best pl = best_of (pl_side pl) S" and "finite S"
    and S: "\<And>b. b \<in> S \<Longrightarrow> b < length (pl_cells pl) \<and> cell_of pl (lv_price (pl_cells pl ! b)) = int b"
    and p: "cell_of pl p = int i"
  shows "beats_best pl p = Some (S = {} \<or> ibetter (pl_side pl) i (nat (best_of (pl_side pl) S)))"
proof (cases "S = {}")
  case True
  then show ?thesis using assms(1) by (simp add: beats_best_def)
next
  case False
  then obtain b where b: "best_of (pl_side pl) S = int b" "b \<in> S"
    using best_of_memb assms(2) by metis
  then have "cell_of pl (lv_price (pl_cells pl ! b)) = int b" "b < length (pl_cells pl)" using S by auto
  then have "better (pl_side pl) p (lv_price (pl_cells pl ! b)) \<longleftrightarrow> ibetter (pl_side pl) i b"
    using cell_of_mono [OF p] cell_of_mono [OF _ p] by (simp add: better_def ibetter_def)
  then show ?thesis
    using False b assms(1) \<open>b < _\<close> by (simp add: beats_best_def)
qed

lemma cell_fill_correct:
  assumes inv: "pl_inv pl" and p: "cell_of pl p = int i" and i: "i < length (pl_cells pl)" "i \<notin> occ (pl_cells pl)"
    and l: "lv_price l = p" "lv_orders l \<noteq> 0"
    and pl': "pl' = pl\<lparr>pl_cells := (pl_cells pl)[i := l],
                pl_bits := (pl_bits pl)[i div 64 := pl_bits pl ! (i div 64) OR one_bit (i mod 64)],
                pl_count := pl_count pl + 1,
                pl_best := (if occ (pl_cells pl) = {} \<or> ibetter (pl_side pl) i (nat (pl_best pl)) then int i
                            else pl_best pl)\<rparr>"
  shows "pl_inv pl'" and "pl_lv pl' = (pl_lv pl)(p \<mapsto> l)"
proof -
  let ?S = "occ (pl_cells pl)"
  have ne: "pl_cells pl \<noteq> []" using i by auto
  have S': "occ (pl_cells pl') = insert i ?S" using i l pl' by (simp add: occ_update)
  have "64 * length (pl_bits pl) = length (pl_cells pl)"
    using inv ne by (auto simp: pl_inv_def sized_def)
  then have "bits_set (pl_bits pl') = insert i ?S"
    using inv i pl' by (simp add: bits_set_or pl_inv_def)
  moreover have "pl_count pl' = word_of_nat (card (insert i ?S))"
    using inv i pl' by (simp add: pl_inv_def add.commute)
  moreover have "pl_best pl' = best_of (pl_side pl') (insert i ?S)"
    using inv pl' best_of_insert [OF finite_occ i(2)] by (simp add: pl_inv_def)
  moreover have "cells_ok pl'"
    by (rule cells_ok_update [of pl i l]) (use inv i l p pl' in \<open>auto simp: pl_inv_def\<close>)
  moreover have "sized pl'"
    unfolding pl' by (rule sized_cells_update) (use inv ne in \<open>auto simp: pl_inv_def\<close>)
  moreover have "far_ok pl'" using inv pl' by (simp add: pl_inv_def far_ok_def cell_of_def)
  ultimately show "pl_inv pl'" using S' by (simp add: pl_inv_def)
  show "pl_lv pl' = (pl_lv pl)(p \<mapsto> l)"
    by (subst pl_lv_cell_update [OF p i(1), where l = l]) (simp_all add: l pl')
qed

lemma cell_empty_correct:
  assumes inv: "pl_inv pl" and p: "cell_of pl p = int i" and i: "i \<in> occ (pl_cells pl)"
    and l: "lv_orders l = 0" "lv_shares l = 0"
    and pl': "pl' = pl\<lparr>pl_cells := (pl_cells pl)[i := l],
                pl_bits := (pl_bits pl)[i div 64 := pl_bits pl ! (i div 64) AND NOT (one_bit (i mod 64))],
                pl_count := pl_count pl - 1, pl_best := b\<rparr>"
    and b: "b = best_of (pl_side pl) (occ (pl_cells pl) - {i})"
  shows "pl_inv pl'" and "pl_lv pl' = (pl_lv pl)(p := None)"
proof -
  let ?S = "occ (pl_cells pl)"
  have il: "i < length (pl_cells pl)" using i by (rule occ_less)
  then have ne: "pl_cells pl \<noteq> []" by auto
  have S': "occ (pl_cells pl') = ?S - {i}" using il l pl' by (simp add: occ_update)
  have "64 * length (pl_bits pl) = length (pl_cells pl)"
    using inv ne by (auto simp: pl_inv_def sized_def)
  then have "bits_set (pl_bits pl') = ?S - {i}"
    using inv il pl' by (simp add: bits_set_andnot pl_inv_def)
  moreover have "0 < card ?S" using i by (auto simp: card_gt_0_iff)
  then have "pl_count pl' = word_of_nat (card (?S - {i}))"
    using inv i pl' by (simp add: pl_inv_def)
  moreover have "cells_ok pl'"
    by (rule cells_ok_update [of pl i l]) (use inv il l pl' in \<open>auto simp: pl_inv_def\<close>)
  moreover have "sized pl'"
    unfolding pl' by (rule sized_cells_update) (use inv ne in \<open>auto simp: pl_inv_def\<close>)
  moreover have "far_ok pl'" using inv pl' by (simp add: pl_inv_def far_ok_def cell_of_def)
  ultimately show "pl_inv pl'" using S' b pl' by (simp add: pl_inv_def)
  show "pl_lv pl' = (pl_lv pl)(p := None)"
    by (subst pl_lv_cell_update [OF p il, where l = l]) (simp_all add: l pl')
qed

end
