(* ===== verification/Price_Rebase.thy ===== *)
theory Price_Rebase
  imports Price_Laws
begin

text \<open>
  Moving the window. Gathering blanks exactly the occupied cells and collects their levels,
  placing puts each level back where the new window wants it, and together they leave the
  map from prices to levels unchanged.
\<close>

section \<open>Placing a level\<close>

definition same_frame :: "price_levels \<Rightarrow> price_levels \<Rightarrow> bool" where
  "same_frame pl pl' \<longleftrightarrow> pl_side pl' = pl_side pl \<and> pl_span pl' = pl_span pl"

lemma same_frame_refl [simp]: "same_frame pl pl"
  by (simp add: same_frame_def)

lemma same_frame_trans: "same_frame a b \<Longrightarrow> same_frame b c \<Longrightarrow> same_frame a c"
  by (simp add: same_frame_def)

lemma pl_inv_parts:
  assumes "pl_inv pl"
  shows "sized pl" and "cells_ok pl" and "far_ok pl" and "bits_set (pl_bits pl) = occ (pl_cells pl)"
    and "pl_best pl = best_of (pl_side pl) (occ (pl_cells pl))"
    and "pl_count pl = word_of_nat (card (occ (pl_cells pl)))"
  using assms by (simp_all add: pl_inv_def)

lemma sized_lengths:
  assumes "sized pl" and "pl_cells pl \<noteq> []"
  shows "length (pl_cells pl) = unat (pl_span pl)" and "64 * length (pl_bits pl) = length (pl_cells pl)"
    and "i < length (pl_cells pl) \<Longrightarrow> i div 64 < length (pl_bits pl)"
  using assms by (auto simp: sized_def less_mult_imp_div_less)

lemma place_correct:
  assumes inv: "pl_inv pl" and alloc: "pl_cells pl \<noteq> []" "pl_base pl \<noteq> kNoBase"
    and l: "lv_orders l \<noteq> 0" "pl_lv pl (lv_price l) = None"
  shows "\<exists>pl'. place l pl = Some pl' \<and> pl_inv pl' \<and> pl_lv pl' = (pl_lv pl)(lv_price l \<mapsto> l) \<and>
      pl_cells pl' \<noteq> [] \<and> pl_base pl' = pl_base pl \<and> pl_rebases pl' = pl_rebases pl \<and> same_frame pl pl'"
proof (cases "cell_of pl (lv_price l) < 0")
  case True
  let ?pl = "pl\<lparr>pl_far := omap_set (pl_far pl) (lv_price l) l\<rparr>"
  have "place l pl = Some ?pl" using True by (simp add: place_def Let_def)
  then show ?thesis
    using far_put_correct [OF inv refl l(1) True] alloc by (simp add: same_frame_def)
next
  case False
  then obtain i where i: "cell_of pl (lv_price l) = int i" "i < unat (pl_span pl)"
    by (metis cell_of_nonneg not_less)
  note parts = pl_inv_parts [OF inv]
  note len = sized_lengths [OF parts(1) alloc(1)]
  have il: "i < length (pl_cells pl)" using i(2) len(1) by simp
  have free: "i \<notin> occ (pl_cells pl)" using l(2) i(1) by (auto simp: pl_lv_cell split: if_splits)
  let ?S = "occ (pl_cells pl)"
  let ?bits = "(pl_bits pl)[i div 64 := pl_bits pl ! (i div 64) OR one_bit (i mod 64)]"
  let ?pl1 = "pl\<lparr>pl_cells := (pl_cells pl)[i := l], pl_bits := ?bits, pl_count := pl_count pl + 1\<rparr>"
  have c1: "cell_of ?pl1 = cell_of pl" by (rule cell_of_cong) simp_all
  have kept: "b < length (pl_cells ?pl1) \<and> cell_of ?pl1 (lv_price (pl_cells ?pl1 ! b)) = int b"
    if "b \<in> ?S" for b
  proof -
    have "b \<noteq> i" using that free by auto
    then show ?thesis using that c1 cells_ok_price [OF parts(2) that] occ_less [OF that] by simp
  qed
  have "pl_best ?pl1 = best_of (pl_side ?pl1) ?S" "cell_of ?pl1 (lv_price l) = int i"
    using parts(5) c1 i(1) by simp_all
  from beats_best_eq [OF this(1) finite_occ kept this(2)]
  have beats: "beats_best ?pl1 (lv_price l) = Some (?S = {} \<or> ibetter (pl_side pl) i (nat (pl_best pl)))"
    using parts(5) by simp
  let ?pl' = "?pl1\<lparr>pl_best := (if ?S = {} \<or> ibetter (pl_side pl) i (nat (pl_best pl)) then int i else pl_best pl)\<rparr>"
  have "place l pl = Some ?pl'"
    using i(1) il len(3) [OF il] beats by (auto simp: place_def set_bit_def Let_def)
  moreover have "pl_inv ?pl'" "pl_lv ?pl' = (pl_lv pl)(lv_price l \<mapsto> l)"
    using cell_fill_correct [OF inv i(1) il free refl l(1), of ?pl'] by simp_all
  ultimately show ?thesis using alloc by (simp add: same_frame_def)
qed

lemma foldM_place:
  assumes inv: "pl_inv pl" and alloc: "pl_cells pl \<noteq> []" "pl_base pl \<noteq> kNoBase"
    and start: "pl_lv pl = Map.empty" and ls: "\<forall>l \<in> set ls. lv_orders l \<noteq> 0" "distinct (map lv_price ls)"
  shows "\<exists>pl'. foldM place ls pl = Some pl' \<and> pl_inv pl' \<and>
      pl_base pl' = pl_base pl \<and> pl_rebases pl' = pl_rebases pl \<and> same_frame pl pl' \<and> pl_cells pl' \<noteq> [] \<and>
      (\<forall>p l. pl_lv pl' p = Some l \<longleftrightarrow> l \<in> set ls \<and> lv_price l = p)"
proof -
  define I where "I ys q \<longleftrightarrow> pl_inv q \<and> pl_cells q \<noteq> [] \<and> pl_base q = pl_base pl \<and> pl_rebases q = pl_rebases pl \<and>
      same_frame pl q \<and> (\<forall>p l. pl_lv q p = Some l \<longleftrightarrow> l \<in> set ys \<and> lv_price l = p)" for ys q
  have "\<exists>pl'. foldM place ls pl = Some pl' \<and> I ls pl'"
  proof (rule foldM_invariant)
    show "I [] pl" using assms by (simp add: I_def)
  next
    fix ys l zs q assume split: "ls = ys @ l # zs" and I: "I ys q"
    have fresh: "pl_lv q (lv_price l) = None"
    proof (rule ccontr)
      assume "\<not> ?thesis"
      then obtain l' where "l' \<in> set ys" "lv_price l' = lv_price l" using I by (auto simp: I_def)
      then have "lv_price l \<in> set (map lv_price ys)" by (metis image_eqI set_map)
      then show False using ls(2) split by simp
    qed
    have q: "pl_inv q" "pl_cells q \<noteq> []" "pl_base q = pl_base pl" "pl_rebases q = pl_rebases pl" "same_frame pl q"
      and Iq: "\<And>p m. pl_lv q p = Some m \<longleftrightarrow> m \<in> set ys \<and> lv_price m = p"
      using I by (simp_all add: I_def)
    have "pl_base q \<noteq> kNoBase" "lv_orders l \<noteq> 0" using alloc(2) q(3) ls(1) split by simp_all
    from place_correct [OF q(1,2) this fresh] obtain q'
      where q': "place l q = Some q'" "pl_inv q'" "pl_lv q' = (pl_lv q)(lv_price l \<mapsto> l)"
      "pl_cells q' \<noteq> []" "pl_base q' = pl_base q" "pl_rebases q' = pl_rebases q" "same_frame q q'"
      by blast
    have "pl_lv q' p = Some m \<longleftrightarrow> m \<in> set (ys @ [l]) \<and> lv_price m = p" for p m
    proof (cases "p = lv_price l")
      case True
      then have "\<not> (m \<in> set ys \<and> lv_price m = p)" using fresh Iq by (metis option.distinct(1))
      then show ?thesis using True q'(3) by auto
    next
      case False
      then show ?thesis using q'(3) Iq by auto
    qed
    moreover have "same_frame pl q'" using q(5) q'(7) by (rule same_frame_trans)
    ultimately have "I (ys @ [l]) q'" using q q' by (simp add: I_def)
    then show "\<exists>s'. place l q = Some s' \<and> I (ys @ [l]) s'" using q'(1) by blast
  qed
  then show ?thesis by (auto simp: I_def)
qed

section \<open>Gathering\<close>

lemma foldM_gather:
  assumes "distinct js" and "\<forall>i \<in> set js. i < length cells"
  shows "\<exists>cells'. foldM gather_cell js (cells, all) = Some (cells', all @ map ((!) cells) js) \<and>
      length cells' = length cells \<and>
      (\<forall>i < length cells. cells' ! i = (if i \<in> set js then empty_level else cells ! i))"
  using assms
proof (induction js arbitrary: cells all)
  case (Cons i js)
  let ?cells = "cells[i := empty_level]"
  obtain cells' where c: "foldM gather_cell js (?cells, all @ [cells ! i]) =
      Some (cells', (all @ [cells ! i]) @ map ((!) ?cells) js)" "length cells' = length ?cells"
    "\<forall>j < length ?cells. cells' ! j = (if j \<in> set js then empty_level else ?cells ! j)"
    using Cons.IH [of ?cells "all @ [cells ! i]"] Cons.prems by auto
  have "map ((!) ?cells) js = map ((!) cells) js"
  proof (rule map_cong [OF refl])
    fix x assume "x \<in> set js"
    then have "x \<noteq> i" using Cons.prems(1) by auto
    then show "?cells ! x = cells ! x" by simp
  qed
  moreover have "gather_cell i (cells, all) = Some (?cells, all @ [cells ! i])"
    using Cons.prems by (simp add: gather_cell_def)
  ultimately have "foldM gather_cell (i # js) (cells, all) =
      Some (cells', all @ map ((!) cells) (i # js))" using c(1) by simp
  moreover have "\<forall>j < length cells. cells' ! j = (if j \<in> set (i # js) then empty_level else cells ! j)"
    using c(3) Cons.prems by (simp add: nth_list_update)
  ultimately show ?case using c(2) by auto
qed simp

lemma gather_all:
  assumes inv: "pl_inv pl"
  obtains cells where "(if pl_cells pl = [] then Some (pl_cells pl, [])
       else foldM gather_cell (cells_up (pl_bits pl)) (pl_cells pl, [])) =
     Some (cells, map ((!) (pl_cells pl)) (cells_up (pl_bits pl)))"
    and "length cells = length (pl_cells pl)" and "\<forall>l \<in> set cells. lv_orders l = 0 \<and> lv_shares l = 0"
proof (cases "pl_cells pl = []")
  case True
  then have "bits_set (pl_bits pl) = {}" using pl_inv_parts(4) [OF inv] by simp
  then have "cells_up (pl_bits pl) = []" using set_cells_up by (metis set_empty)
  then show thesis using that [of "[]"] True by simp
next
  case False
  note parts = pl_inv_parts [OF inv]
  have set: "set (cells_up (pl_bits pl)) = occ (pl_cells pl)" using parts(4) set_cells_up by simp
  have dist: "distinct (cells_up (pl_bits pl))"
    using sorted_cells_up [of "pl_bits pl"] by (simp add: strict_sorted_iff)
  obtain cells where c: "foldM gather_cell (cells_up (pl_bits pl)) (pl_cells pl, []) =
      Some (cells, [] @ map ((!) (pl_cells pl)) (cells_up (pl_bits pl)))"
    "length cells = length (pl_cells pl)"
    "\<forall>i < length (pl_cells pl). cells ! i = (if i \<in> occ (pl_cells pl) then empty_level else pl_cells pl ! i)"
    using foldM_gather [OF dist, of "pl_cells pl" "[]"] set occ_less by auto
  have "lv_orders l = 0 \<and> lv_shares l = 0" if l: "l \<in> set cells" for l
  proof -
    obtain i where i: "i < length (pl_cells pl)" "l = cells ! i" using l c(2) by (metis in_set_conv_nth)
    have "lv_orders (pl_cells pl ! i) = 0 \<and> lv_shares (pl_cells pl ! i) = 0" if "i \<notin> occ (pl_cells pl)"
      using that i(1) parts(2) by (auto simp: occ_def cells_ok_def)
    then show ?thesis using i c(3) by (auto simp: empty_level_def)
  qed
  then show thesis using that [of cells] c False by simp
qed

text \<open>The gathered levels are exactly the levels of the map, each price once.\<close>

lemma gathered_levels:
  assumes inv: "pl_inv pl"
  defines "all \<equiv> map ((!) (pl_cells pl)) (cells_up (pl_bits pl)) @ map snd (pl_far pl)"
  shows "distinct (map lv_price all)" and "\<forall>l \<in> set all. lv_orders l \<noteq> 0"
    and "l \<in> set all \<and> lv_price l = p \<longleftrightarrow> pl_lv pl p = Some l"
proof -
  note parts = pl_inv_parts [OF inv]
  have set: "set (cells_up (pl_bits pl)) = occ (pl_cells pl)" using parts(4) set_cells_up by simp
  have farp: "map (\<lambda>e. lv_price (snd e)) (pl_far pl) = map fst (pl_far pl)"
    using parts(3) by (auto simp: far_ok_def)
  have "inj_on (\<lambda>i. lv_price (pl_cells pl ! i)) (occ (pl_cells pl))"
    using cells_ok_price [OF parts(2)] by (metis (no_types, lifting) inj_onI of_nat_eq_iff)
  moreover have "distinct (cells_up (pl_bits pl))"
    using sorted_cells_up [of "pl_bits pl"] by (simp add: strict_sorted_iff)
  ultimately have "distinct (map (\<lambda>i. lv_price (pl_cells pl ! i)) (cells_up (pl_bits pl)))"
    using set by (simp add: distinct_map)
  moreover have "distinct (map (\<lambda>e. lv_price (snd e)) (pl_far pl))"
    unfolding farp using parts(3) om.distinct_keys by (auto simp: far_ok_def)
  moreover have "lv_price (pl_cells pl ! i) \<noteq> p" if "i \<in> occ (pl_cells pl)" "p \<in> set (map (\<lambda>e. lv_price (snd e)) (pl_far pl))" for i p
    using that(2) cells_ok_price [OF parts(2) that(1)] parts(3) unfolding farp by (force simp: far_ok_def)
  ultimately have "distinct (map (\<lambda>i. lv_price (pl_cells pl ! i)) (cells_up (pl_bits pl)) @
      map (\<lambda>e. lv_price (snd e)) (pl_far pl))"
    using set unfolding distinct_append by (metis (no_types, lifting) disjoint_iff imageE set_map)
  then show "distinct (map lv_price all)" by (simp add: all_def comp_def)
  show "\<forall>l \<in> set all. lv_orders l \<noteq> 0"
    using set parts(3) by (auto simp: all_def occ_def far_ok_def)
  show "l \<in> set all \<and> lv_price l = p \<longleftrightarrow> pl_lv pl p = Some l"
    unfolding pl_lv_iff [OF parts(2,3)] using set parts(3)
    by (force simp: all_def far_ok_def image_iff)
qed

section \<open>The rebase\<close>

lemma blank_window:
  fixes b :: u32 and n :: size_t
  assumes inv: "pl_inv pl" and cells: "length cells = length (pl_cells pl)"
    "\<forall>l \<in> set cells. lv_orders l = 0 \<and> lv_shares l = 0"
  defines "pl1 \<equiv> (ensure_cells (pl\<lparr>pl_cells := cells, pl_far := []\<rparr>))
     \<lparr>pl_bits := replicate (unat (pl_span pl div 64)) 0, pl_count := 0, pl_best := -1,
      pl_base := b, pl_rebases := n\<rparr>"
  shows "pl_inv pl1" and "pl_cells pl1 \<noteq> []" and "pl_lv pl1 = Map.empty" and "same_frame pl pl1"
    and "pl_base pl1 = b" and "pl_rebases pl1 = n"
proof -
  have sz: "64 \<le> unat (pl_span pl)" "64 dvd unat (pl_span pl)"
    using inv by (auto simp: pl_inv_def sized_def)
  have len: "length (pl_cells pl1) = unat (pl_span pl)"
    using inv cells(1) by (auto simp: pl1_def ensure_cells_def pl_inv_def sized_def)
  then show ne: "pl_cells pl1 \<noteq> []" using sz by auto
  have zero: "\<forall>l \<in> set (pl_cells pl1). lv_orders l = 0 \<and> lv_shares l = 0"
    using cells(2) by (auto simp: pl1_def ensure_cells_def empty_level_def)
  then have occ: "occ (pl_cells pl1) = {}" by (auto simp: occ_def)
  show frame: "same_frame pl pl1" by (simp add: same_frame_def pl1_def ensure_cells_def)
  have "sized pl1" using sz len by (auto simp: sized_def pl1_def ensure_cells_def unat_div)
  moreover have "cells_ok pl1" using zero occ by (simp add: cells_ok_def)
  moreover have "far_ok pl1" by (simp add: far_ok_def pl1_def ensure_cells_def omap_inv_def)
  ultimately show "pl_inv pl1"
    using occ by (simp add: pl_inv_def) (simp add: pl1_def ensure_cells_def)
  show "pl_lv pl1 = Map.empty"
    using occ by (auto simp: pl_lv_def fun_eq_iff) (simp add: pl1_def ensure_cells_def omap_find_def)
  show "pl_base pl1 = b" "pl_rebases pl1 = n" by (simp_all add: pl1_def)
qed

lemma rebase_correct:
  assumes inv: "pl_inv pl"
  shows "\<exists>pl'. rebase (p :: u32) pl = Some pl' \<and> pl_inv pl' \<and> pl_lv pl' = pl_lv pl \<and> same_frame pl pl' \<and>
      pl_base pl' = window_base (pl_span pl) (p div kTick) \<and> pl_rebases pl' = pl_rebases pl + 1 \<and>
      pl_cells pl' \<noteq> []"
proof -
  let ?all = "map ((!) (pl_cells pl)) (cells_up (pl_bits pl)) @ map snd (pl_far pl)"
  obtain cells where g: "(if pl_cells pl = [] then Some (pl_cells pl, [])
       else foldM gather_cell (cells_up (pl_bits pl)) (pl_cells pl, [])) =
     Some (cells, map ((!) (pl_cells pl)) (cells_up (pl_bits pl)))"
    "length cells = length (pl_cells pl)" "\<forall>l \<in> set cells. lv_orders l = 0 \<and> lv_shares l = 0"
    by (rule gather_all [OF inv])
  define pl1 where "pl1 = (ensure_cells (pl\<lparr>pl_cells := cells, pl_far := []\<rparr>))
     \<lparr>pl_bits := replicate (unat (pl_span pl div 64)) 0, pl_count := 0, pl_best := -1,
      pl_base := window_base (pl_span pl) (p div kTick), pl_rebases := pl_rebases pl + 1\<rparr>"
  note blank = blank_window [OF inv g(2,3), where b = "window_base (pl_span pl) (p div kTick)"
      and n = "pl_rebases pl + 1", folded pl1_def]
  have eq: "rebase p pl = foldM place ?all pl1"
    unfolding rebase_def g(1) by (simp add: Let_def pl1_def ensure_cells_def)
  have "pl_base pl1 \<noteq> kNoBase" unfolding blank(5) by (rule window_base_noBase)
  from foldM_place [OF blank(1,2) this blank(3) gathered_levels(2,1) [OF inv]]
  obtain pl' where pl': "foldM place ?all pl1 = Some pl'" "pl_inv pl'" "pl_base pl' = pl_base pl1"
    "pl_rebases pl' = pl_rebases pl1" "same_frame pl1 pl'" "pl_cells pl' \<noteq> []"
    "\<forall>q l. pl_lv pl' q = Some l \<longleftrightarrow> l \<in> set ?all \<and> lv_price l = q"
    by (elim exE conjE)
  have "pl_lv pl' q = pl_lv pl q" for q
    using pl'(7) gathered_levels(3) [OF inv, of _ q] by (metis not_None_eq)
  then show ?thesis
    using pl' eq blank(4-6) same_frame_trans by auto
qed

end
