(* ===== verification/Price_Ops.thy ===== *)
theory Price_Ops
  imports Price_Rebase
begin

text \<open>
  The public operations of one side as operations on its map from prices to levels: adding an
  order, reducing and removing one, the best level, the sorted list of levels and the runtime
  self check.
\<close>

section \<open>The abstract side\<close>

definition add_level :: "u32 \<Rightarrow> u32 \<Rightarrow> level option \<Rightarrow> level" where
  "add_level price shares l =
     (let l = (case l of None \<Rightarrow> empty_level | Some l \<Rightarrow> l)
      in l\<lparr>lv_price := price, lv_shares := lv_shares l + ucast shares, lv_orders := lv_orders l + 1\<rparr>)"

definition reduce_level :: "u32 \<Rightarrow> level \<Rightarrow> level" where
  "reduce_level shares l = l\<lparr>lv_shares := lv_shares l - ucast shares\<rparr>"

definition remove_level :: "u32 \<Rightarrow> level \<Rightarrow> level option" where
  "remove_level shares l =
     (if lv_orders l = 1 then None
      else Some (l\<lparr>lv_shares := lv_shares l - ucast shares, lv_orders := lv_orders l - 1\<rparr>))"

lemma add_level_Some:
  "lv_price l = p \<Longrightarrow>
     add_level p s (Some l) = l\<lparr>lv_shares := lv_shares l + ucast s, lv_orders := lv_orders l + 1\<rparr>"
  by (cases l) (simp add: add_level_def)

lemma add_level_orders: "lv_orders (add_level p s l) = (case l of None \<Rightarrow> 1 | Some l \<Rightarrow> lv_orders l + 1)"
  by (simp add: add_level_def Let_def empty_level_def split: option.split)

lemma add_level_price [simp]: "lv_price (add_level p s l) = p"
  by (simp add: add_level_def Let_def)

lemma pl_lv_price: "pl_inv pl \<Longrightarrow> pl_lv pl p = Some l \<Longrightarrow> lv_price l = p"
  using pl_lv_SomeD by (auto simp: pl_inv_def)

lemma pl_lv_orders: "pl_inv pl \<Longrightarrow> pl_lv pl p = Some l \<Longrightarrow> lv_orders l \<noteq> 0"
  using pl_lv_SomeD by (auto simp: pl_inv_def)

lemma beats_best_defined:
  assumes "pl_inv pl"
  obtains b where "beats_best pl p = Some b"
proof (cases "pl_best pl < 0")
  case True
  then show thesis using that by (simp add: beats_best_def)
next
  case False
  then have "occ (pl_cells pl) \<noteq> {}" using pl_inv_parts(5) [OF assms] by auto
  then obtain b where "pl_best pl = int b" "b < length (pl_cells pl)"
    using best_of_memb [OF finite_occ] pl_inv_parts(5) [OF assms] occ_less by metis
  then show thesis using that by (simp add: beats_best_def)
qed

section \<open>Construction\<close>

lemma new_price_levels_correct:
  assumes "64 \<le> unat span" and "64 dvd unat span"
  shows "pl_inv (new_price_levels side reference span)"
    and "pl_lv (new_price_levels side reference span) = Map.empty"
  using assms
  by (auto simp: new_price_levels_def pl_inv_def sized_def cells_ok_def far_ok_def omap_inv_def
      pl_lv_def omap_find_def fun_eq_iff)

lemma ensure_cells_correct:
  assumes inv: "pl_inv pl"
  shows "pl_inv (ensure_cells pl)" and "pl_lv (ensure_cells pl) = pl_lv pl"
    and "pl_cells (ensure_cells pl) \<noteq> []" and "same_frame pl (ensure_cells pl)"
    and "cell_of (ensure_cells pl) = cell_of pl"
proof -
  show c: "cell_of (ensure_cells pl) = cell_of pl"
    by (rule cell_of_cong) (simp_all add: ensure_cells_def)
  have sz: "64 \<le> unat (pl_span pl)" "64 dvd unat (pl_span pl)"
    using inv by (auto simp: pl_inv_def sized_def)
  show "pl_cells (ensure_cells pl) \<noteq> []" using sz by (auto simp: ensure_cells_def)
  show "same_frame pl (ensure_cells pl)" by (simp add: same_frame_def ensure_cells_def)
  have occ: "occ (pl_cells (ensure_cells pl)) = occ (pl_cells pl)" by (simp add: ensure_cells_def)
  show "pl_lv (ensure_cells pl) = pl_lv pl"
    unfolding pl_lv_def c occ by (auto simp: ensure_cells_def fun_eq_iff)
  have "sized (ensure_cells pl)" using inv by (auto simp: pl_inv_def sized_def ensure_cells_def unat_div)
  moreover have "cells_ok (ensure_cells pl)"
    using inv occ c by (auto simp: pl_inv_def cells_ok_def ensure_cells_def empty_level_def)
  moreover have "far_ok (ensure_cells pl)"
    using inv c by (simp add: pl_inv_def far_ok_def) (simp add: ensure_cells_def)
  moreover have "bits_set (pl_bits (ensure_cells pl)) = bits_set (pl_bits pl)"
    using inv by (auto simp: ensure_cells_def pl_inv_def sized_def)
  ultimately show "pl_inv (ensure_cells pl)"
    using inv occ by (simp add: pl_inv_def) (simp add: ensure_cells_def)
qed

text \<open>The first whole cent price of a side without a window chooses the window.\<close>

lemma first_base_correct:
  assumes inv: "pl_inv pl" and base: "pl_base pl = kNoBase"
  shows "pl_inv (pl\<lparr>pl_base := b\<rparr>)" and "pl_lv (pl\<lparr>pl_base := b\<rparr>) = pl_lv pl"
proof -
  have neg: "cell_of pl p = -1" for p using base by (simp add: cell_of_def cell_in_def)
  have occ: "occ (pl_cells pl) = {}"
    using cells_ok_price [OF pl_inv_parts(2) [OF inv]] neg by fastforce
  have far: "cell_of (pl\<lparr>pl_base := b\<rparr>) p = -1" if "\<not> whole_cent p" for p
    using that by (simp add: cell_of_def cell_in_def)
  have odd: "\<not> whole_cent p" if "(p, l) \<in> set (pl_far pl)" for p l
    using that base pl_inv_parts(3) [OF inv] by (auto simp: far_ok_def)
  have "far_ok (pl\<lparr>pl_base := b\<rparr>)"
    using pl_inv_parts(3) [OF inv] odd far by (auto simp: far_ok_def)
  moreover have "cells_ok (pl\<lparr>pl_base := b\<rparr>)" using inv occ by (simp add: pl_inv_def cells_ok_def)
  moreover have "sized (pl\<lparr>pl_base := b\<rparr>)" using inv by (simp add: pl_inv_def sized_def)
  ultimately show "pl_inv (pl\<lparr>pl_base := b\<rparr>)" using inv by (simp add: pl_inv_def)
  show "pl_lv (pl\<lparr>pl_base := b\<rparr>) = pl_lv pl"
  proof
    fix p
    show "pl_lv (pl\<lparr>pl_base := b\<rparr>) p = pl_lv pl p"
    proof (cases "cell_of (pl\<lparr>pl_base := b\<rparr>) p < 0")
      case True
      then show ?thesis by (simp add: pl_lv_def neg)
    next
      case False
      then have "whole_cent p" using far by force
      then have "omap_find (pl_far pl) p = None"
        using odd om.find_Some_iff [of "pl_far pl" p] pl_inv_parts(3) [OF inv]
        by (auto simp: far_ok_def) (metis not_None_eq)
      then show ?thesis using False by (simp add: pl_lv_def neg occ)
    qed
  qed
qed

section \<open>Adding an order\<close>

lemma omap_set_far_lv: "cell_of pl p < 0 \<Longrightarrow> omap_find (pl_far pl) p = pl_lv pl p"
  by (simp add: pl_lv_def)

text \<open>The part of \<open>add\<close> after the window has been chosen.\<close>

definition add_cell :: "u32 \<Rightarrow> u32 \<Rightarrow> nat \<Rightarrow> price_levels \<Rightarrow> price_levels option" where
  "add_cell price shares i pl =
     do { l \<leftarrow> vget (pl_cells pl) i;
          pl \<leftarrow> (if lv_orders l = 0 then do {
                    cells \<leftarrow> vset (pl_cells pl) i (l\<lparr>lv_price := price\<rparr>);
                    pl \<leftarrow> set_bit i (pl\<lparr>pl_cells := cells\<rparr>);
                    let pl = pl\<lparr>pl_count := pl_count pl + 1\<rparr>;
                    b \<leftarrow> beats_best pl price;
                    Some (if b then pl\<lparr>pl_best := int i\<rparr> else pl) }
                  else Some pl);
          l \<leftarrow> vget (pl_cells pl) i;
          cells \<leftarrow> vset (pl_cells pl) i
                    (l\<lparr>lv_shares := lv_shares l + ucast shares, lv_orders := lv_orders l + 1\<rparr>);
          Some (pl\<lparr>pl_cells := cells\<rparr>) }"

lemma add_cell_correct:
  assumes inv: "pl_inv pl" and ne: "pl_cells pl \<noteq> []" and p: "cell_of pl p = int i" "i < unat (pl_span pl)"
    and room: "\<And>l. pl_lv pl p = Some l \<Longrightarrow> lv_orders l + 1 \<noteq> 0"
  shows "\<exists>pl'. add_cell p s i pl = Some pl' \<and> pl_inv pl' \<and>
           pl_lv pl' = (pl_lv pl)(p \<mapsto> add_level p s (pl_lv pl p)) \<and> same_frame pl pl'"
proof -
  note parts = pl_inv_parts [OF inv]
  note len = sized_lengths [OF parts(1) ne]
  have il: "i < length (pl_cells pl)" using p(2) len(1) by simp
  let ?S = "occ (pl_cells pl)"
  let ?l = "pl_cells pl ! i"
  show ?thesis
  proof (cases "i \<in> ?S")
    case True
    let ?l' = "?l\<lparr>lv_shares := lv_shares ?l + ucast s, lv_orders := lv_orders ?l + 1\<rparr>"
    have lv: "pl_lv pl p = Some ?l" using True p by (simp add: pl_lv_cell)
    have price: "lv_price ?l = p" using pl_lv_price [OF inv lv] .
    have "add_cell p s i pl = Some (pl\<lparr>pl_cells := (pl_cells pl)[i := ?l']\<rparr>)"
      using True il by (simp add: add_cell_def occ_def)
    moreover have "add_level p s (pl_lv pl p) = ?l'"
      unfolding lv by (rule add_level_Some [OF price])
    moreover have "lv_orders ?l' \<noteq> 0" using room [OF lv] by simp
    ultimately show ?thesis
      using cell_replace_correct [OF inv p(1) True, of ?l'] price by (simp add: same_frame_def)
  next
    case False
    then have l0: "lv_orders ?l = 0" "lv_shares ?l = 0"
      using il parts(2) by (auto simp: occ_def cells_ok_def)
    let ?l' = "?l\<lparr>lv_price := p, lv_shares := ucast s, lv_orders := 1\<rparr>"
    let ?bits = "(pl_bits pl)[i div 64 := pl_bits pl ! (i div 64) OR one_bit (i mod 64)]"
    let ?pl1 = "pl\<lparr>pl_cells := (pl_cells pl)[i := ?l\<lparr>lv_price := p\<rparr>], pl_bits := ?bits,
        pl_count := pl_count pl + 1\<rparr>"
    have c1: "cell_of ?pl1 = cell_of pl" by (rule cell_of_cong) simp_all
    have kept: "b < length (pl_cells ?pl1) \<and> cell_of ?pl1 (lv_price (pl_cells ?pl1 ! b)) = int b"
      if "b \<in> ?S" for b
    proof -
      have "b \<noteq> i" using that False by auto
      then show ?thesis using that c1 cells_ok_price [OF parts(2) that] occ_less [OF that] by simp
    qed
    have "pl_best ?pl1 = best_of (pl_side ?pl1) ?S" "cell_of ?pl1 p = int i"
      using parts(5) c1 p(1) by simp_all
    from beats_best_eq [OF this(1) finite_occ kept this(2)]
    have beats: "beats_best ?pl1 p = Some (?S = {} \<or> ibetter (pl_side pl) i (nat (pl_best pl)))"
      using parts(5) by simp
    let ?pl' = "pl\<lparr>pl_cells := (pl_cells pl)[i := ?l'], pl_bits := ?bits, pl_count := pl_count pl + 1,
        pl_best := (if ?S = {} \<or> ibetter (pl_side pl) i (nat (pl_best pl)) then int i else pl_best pl)\<rparr>"
    have "add_cell p s i pl = Some ?pl'"
      using il l0 len(3) [OF il] beats by (auto simp: add_cell_def set_bit_def Let_def)
    moreover have "pl_lv pl p = None" using False p by (simp add: pl_lv_cell)
    moreover have "add_level p s None = ?l'"
      using l0 by (simp add: add_level_def empty_level_def)
    ultimately show ?thesis
      using cell_fill_correct [OF inv p(1) il False, of ?l' ?pl'] by (simp add: same_frame_def)
  qed
qed

lemma add_far_correct:
  fixes s :: u32
  assumes inv: "pl_inv pl" and far: "cell_of pl p < 0" "pl_base pl = kNoBase \<Longrightarrow> \<not> whole_cent p"
    and room: "\<And>l. pl_lv pl p = Some l \<Longrightarrow> lv_orders l + 1 \<noteq> 0"
  defines "pl1 \<equiv> pl\<lparr>pl_far := omap_set (pl_far pl) p (add_level p s (omap_find (pl_far pl) p))\<rparr>"
  shows "\<exists>pl'. (if whole_cent p then do { b \<leftarrow> beats_best pl1 p; if b then rebase p pl1 else Some pl1 }
              else Some pl1) = Some pl' \<and>
           pl_inv pl' \<and> pl_lv pl' = (pl_lv pl)(p \<mapsto> add_level p s (pl_lv pl p)) \<and> same_frame pl pl'"
proof -
  have "lv_orders (add_level p s (omap_find (pl_far pl) p)) \<noteq> 0"
    using room by (auto simp: add_level_orders omap_set_far_lv [OF far(1)] split: option.split)
  from far_put_correct [OF inv add_level_price this far]
  have pl1: "pl_inv pl1" "pl_lv pl1 = (pl_lv pl)(p \<mapsto> add_level p s (pl_lv pl p))"
    by (simp_all add: pl1_def omap_set_far_lv [OF far(1)])
  have frame: "same_frame pl pl1" by (simp add: pl1_def same_frame_def)
  obtain b where b: "beats_best pl1 p = Some b" using beats_best_defined [OF pl1(1)] .
  obtain pl' where pl': "rebase p pl1 = Some pl'" "pl_inv pl'" "pl_lv pl' = pl_lv pl1" "same_frame pl1 pl'"
    using rebase_correct [OF pl1(1)] by blast
  show ?thesis
  proof (cases "whole_cent p \<and> b")
    case True
    then show ?thesis using pl1 b pl' same_frame_trans [OF frame] by auto
  next
    case False
    then show ?thesis using pl1 b frame by auto
  qed
qed

lemma pl_add_correct:
  assumes inv: "pl_inv pl" and room: "\<And>l. pl_lv pl p = Some l \<Longrightarrow> lv_orders l + 1 \<noteq> 0"
  shows "\<exists>pl'. pl_add p s pl = Some pl' \<and> pl_inv pl' \<and>
           pl_lv pl' = (pl_lv pl)(p \<mapsto> add_level p s (pl_lv pl p)) \<and> same_frame pl pl'"
proof -
  define pl0 where "pl0 = (if pl_base pl = kNoBase \<and> whole_cent p
      then pl\<lparr>pl_base := window_base (pl_span pl) (p div kTick)\<rparr> else pl)"
  have pl0: "pl_inv pl0" "pl_lv pl0 = pl_lv pl" "same_frame pl pl0"
    using first_base_correct [OF inv] inv by (simp_all add: pl0_def same_frame_def)
  have based: "pl_base pl0 = kNoBase \<Longrightarrow> \<not> whole_cent p"
    using window_base_noBase by (auto simp: pl0_def split: if_splits)
  have room0: "\<And>l. pl_lv pl0 p = Some l \<Longrightarrow> lv_orders l + 1 \<noteq> 0" using room pl0(2) by simp
  show ?thesis
  proof (cases "cell_of pl0 p < 0")
    case True
    let ?pl1 = "pl0\<lparr>pl_far := omap_set (pl_far pl0) p (add_level p s (omap_find (pl_far pl0) p))\<rparr>"
    have "pl_add p s pl = (if whole_cent p then do { b \<leftarrow> beats_best ?pl1 p; if b then rebase p ?pl1 else Some ?pl1 }
        else Some ?pl1)"
      using True unfolding pl_add_def pl0_def [symmetric] add_level_def Let_def by simp
    then show ?thesis
      using add_far_correct [OF pl0(1) True based room0, of s] pl0 same_frame_trans by fastforce
  next
    case False
    then obtain i where i: "cell_of pl0 p = int i" "i < unat (pl_span pl0)"
      by (metis cell_of_nonneg not_less)
    note e = ensure_cells_correct [OF pl0(1)]
    have run: "pl_add p s pl = add_cell p s i (ensure_cells pl0)"
      unfolding pl_add_def pl0_def [symmetric] Let_def i(1) nat_int add_cell_def by simp
    have c: "cell_of (ensure_cells pl0) p = int i" "i < unat (pl_span (ensure_cells pl0))"
      using e(4,5) i by (simp_all add: same_frame_def)
    have frame: "same_frame pl (ensure_cells pl0)" using pl0(3) e(4) by (rule same_frame_trans)
    obtain pl' where "add_cell p s i (ensure_cells pl0) = Some pl'" "pl_inv pl'"
      "pl_lv pl' = (pl_lv pl)(p \<mapsto> add_level p s (pl_lv pl p))" "same_frame (ensure_cells pl0) pl'"
      using add_cell_correct [OF e(1,3) c, of s] room unfolding e(2) pl0(2) by blast
    then show ?thesis using run same_frame_trans [OF frame] by simp
  qed
qed

section \<open>Reducing and removing an order\<close>

lemma pl_reduce_correct:
  assumes inv: "pl_inv pl" and lv: "pl_lv pl p = Some l"
  shows "\<exists>pl'. pl_reduce p s pl = Some pl' \<and> pl_inv pl' \<and>
           pl_lv pl' = (pl_lv pl)(p \<mapsto> reduce_level s l) \<and> same_frame pl pl'"
proof -
  have l: "lv_price (reduce_level s l) = p" "lv_orders (reduce_level s l) \<noteq> 0"
    using pl_lv_price [OF inv lv] pl_lv_orders [OF inv lv] by (simp_all add: reduce_level_def)
  show ?thesis
  proof (cases "cell_of pl p < 0")
    case True
    then have "pl_reduce p s pl = Some (pl\<lparr>pl_far := omap_set (pl_far pl) p (reduce_level s l)\<rparr>)"
      using lv by (simp add: pl_reduce_def pl_lv_far reduce_level_def)
    moreover have "pl_base pl = kNoBase \<Longrightarrow> \<not> whole_cent p"
      using far_ok_find [OF pl_inv_parts(3) [OF inv], of p l] lv True by (simp add: pl_lv_far)
    ultimately show ?thesis
      using far_put_correct [OF inv l True] by (simp add: same_frame_def)
  next
    case False
    then obtain i where i: "cell_of pl p = int i" by (metis cell_of_nonneg not_less)
    then have occ: "i \<in> occ (pl_cells pl)" "l = pl_cells pl ! i"
      using lv by (auto simp: pl_lv_cell split: if_splits)
    then have "pl_reduce p s pl = Some (pl\<lparr>pl_cells := (pl_cells pl)[i := reduce_level s l]\<rparr>)"
      using i occ_less by (simp add: pl_reduce_def reduce_level_def)
    then show ?thesis using cell_replace_correct [OF inv i occ(1) l] by (simp add: same_frame_def)
  qed
qed

lemma after_best_removed_correct:
  assumes inv: "pl_inv (pl\<lparr>pl_best := scan_best pl\<rparr>)"
  shows "\<exists>pl'. after_best_removed pl = Some pl' \<and> pl_inv pl' \<and>
           pl_lv pl' = pl_lv (pl\<lparr>pl_best := scan_best pl\<rparr>) \<and> same_frame pl pl'"
proof -
  let ?pl = "pl\<lparr>pl_best := scan_best pl\<rparr>"
  have frame: "same_frame pl ?pl" by (simp add: same_frame_def)
  show ?thesis
  proof (cases "far_best ?pl")
    case None
    then show ?thesis using inv frame by (simp add: after_best_removed_def)
  next
    case (Some fb)
    obtain f l where fb: "fb = (f, l)" by (cases fb)
    obtain b where b: "beats_best ?pl f = Some b" using beats_best_defined [OF inv] .
    obtain pl' where "rebase f ?pl = Some pl'" "pl_inv pl'" "pl_lv pl' = pl_lv ?pl" "same_frame ?pl pl'"
      using rebase_correct [OF inv] by blast
    then show ?thesis
      using Some fb b inv frame same_frame_trans [OF frame] by (auto simp: after_best_removed_def Let_def)
  qed
qed

lemma remove_cell_correct:
  assumes inv: "pl_inv pl" and i: "cell_of pl p = int i" "i \<in> occ (pl_cells pl)"
    and last: "lv_orders (pl_cells pl ! i) = 1"
  shows "\<exists>pl'. pl_remove p s pl = Some pl' \<and> pl_inv pl' \<and> pl_lv pl' = (pl_lv pl)(p := None) \<and> same_frame pl pl'"
proof -
  note parts = pl_inv_parts [OF inv]
  let ?S = "occ (pl_cells pl)"
  let ?l = "(pl_cells pl ! i)\<lparr>lv_orders := 0, lv_shares := 0\<rparr>"
  let ?bits = "(pl_bits pl)[i div 64 := pl_bits pl ! (i div 64) AND NOT (one_bit (i mod 64))]"
  let ?pl1 = "pl\<lparr>pl_cells := (pl_cells pl)[i := ?l], pl_bits := ?bits, pl_count := pl_count pl - 1\<rparr>"
  have il: "i < length (pl_cells pl)" using i(2) by (rule occ_less)
  then have ne: "pl_cells pl \<noteq> []" by auto
  note len = sized_lengths [OF parts(1) ne]
  have run: "pl_remove p s pl = (if pl_best pl = int i then after_best_removed ?pl1 else Some ?pl1)"
    using i(1) il len(3) [OF il] last by (simp add: pl_remove_def clear_bit_def Let_def)
  have frame: "same_frame pl ?pl1" by (simp add: same_frame_def)
  show ?thesis
  proof (cases "pl_best pl = int i")
    case True
    have "bits_set ?bits = ?S - {i}" using il len(2) parts(4) by (simp add: bits_set_andnot)
    then have "scan_best ?pl1 = best_of (pl_side pl) (?S - {i})" by (simp add: scan_best_bits)
    from cell_empty_correct [OF inv i _ _ _ this, of ?l "?pl1\<lparr>pl_best := scan_best ?pl1\<rparr>"]
    have pl2: "pl_inv (?pl1\<lparr>pl_best := scan_best ?pl1\<rparr>)"
      "pl_lv (?pl1\<lparr>pl_best := scan_best ?pl1\<rparr>) = (pl_lv pl)(p := None)" by simp_all
    show ?thesis
      using after_best_removed_correct [OF pl2(1)] run True same_frame_trans [OF frame]
      by (auto simp: pl2(2))
  next
    case False
    have "pl_best pl = best_of (pl_side pl) (?S - {i})"
      using best_of_remove [OF finite_occ i(2)] False parts(5) by simp
    from cell_empty_correct [OF inv i _ _ _ this, of ?l ?pl1]
    show ?thesis using run False frame by simp
  qed
qed

lemma pl_remove_correct:
  assumes inv: "pl_inv pl" and lv: "pl_lv pl p = Some l"
  shows "\<exists>pl'. pl_remove p s pl = Some pl' \<and> pl_inv pl' \<and>
           pl_lv pl' = (pl_lv pl)(p := remove_level s l) \<and> same_frame pl pl'"
proof -
  let ?l = "l\<lparr>lv_shares := lv_shares l - ucast s, lv_orders := lv_orders l - 1\<rparr>"
  have one: "lv_orders l - 1 = 0 \<longleftrightarrow> lv_orders l = 1" by simp
  have price: "lv_price ?l = p" using pl_lv_price [OF inv lv] by simp
  show ?thesis
  proof (cases "cell_of pl p < 0")
    case True
    have f: "omap_find (pl_far pl) p = Some l" using lv True by (simp add: pl_lv_far)
    have base: "pl_base pl = kNoBase \<Longrightarrow> \<not> whole_cent p"
      using far_ok_find [OF pl_inv_parts(3) [OF inv] f] by simp
    show ?thesis
    proof (cases "lv_orders l = 1")
      case last: True
      then have "pl_remove p s pl = Some (pl\<lparr>pl_far := omap_erase (pl_far pl) p\<rparr>)"
        using True f by (simp add: pl_remove_def Let_def)
      then show ?thesis
        using far_erase_correct [OF inv True] last by (simp add: same_frame_def remove_level_def)
    next
      case more: False
      then have "pl_remove p s pl = Some (pl\<lparr>pl_far := omap_set (pl_far pl) p ?l\<rparr>)"
        using True f by (simp add: pl_remove_def Let_def)
      then show ?thesis
        using far_put_correct [OF inv price _ True base] more by (simp add: same_frame_def remove_level_def)
    qed
  next
    case False
    then obtain i where i: "cell_of pl p = int i" by (metis cell_of_nonneg not_less)
    then have occ: "i \<in> occ (pl_cells pl)" "l = pl_cells pl ! i"
      using lv by (auto simp: pl_lv_cell split: if_splits)
    show ?thesis
    proof (cases "lv_orders l = 1")
      case True
      then show ?thesis
        using remove_cell_correct [OF inv i occ(1), of s] occ(2) by (simp add: remove_level_def)
    next
      case more: False
      then have "pl_remove p s pl = Some (pl\<lparr>pl_cells := (pl_cells pl)[i := ?l]\<rparr>)"
        using i occ occ_less by (simp add: pl_remove_def Let_def)
      then show ?thesis
        using cell_replace_correct [OF inv i occ(1) price] more by (simp add: same_frame_def remove_level_def)
    qed
  qed
qed

end
