(* ===== verification/Price_View.thy ===== *)
theory Price_View
  imports Price_Ops
begin

text \<open>
  What a side shows: its best level is the level at the best price of the map, its level list
  is the whole map from the best price to the worst, and its self check accepts exactly the
  sides whose every level has shares.
\<close>

section \<open>The best level\<close>

definition side_best :: "side \<Rightarrow> (u32 \<rightharpoonup> level) \<Rightarrow> level option" where
  "side_best side m = (if m = Map.empty then None else m (if side = Buy then Max (dom m) else Min (dom m)))"

lemma side_bestI:
  fixes m :: "u32 \<rightharpoonup> level"
  assumes "m p = Some l" and "\<And>q k. m q = Some k \<Longrightarrow> \<not> better side q p"
  shows "side_best side m = Some l"
proof -
  have "finite (dom m)" by (rule finite_subset [of _ UNIV]) simp_all
  then have "(if side = Buy then Max (dom m) else Min (dom m)) = p"
    using assms by (auto simp: better_def not_less intro!: Max_eqI Min_eqI)
  then show ?thesis using assms(1) by (auto simp: side_best_def)
qed

lemma side_best_SomeD:
  fixes m :: "u32 \<rightharpoonup> level"
  assumes "side_best side m = Some l"
  shows "\<exists>p. m p = Some l \<and> (\<forall>q \<in> dom m. \<not> better side q p)"
proof -
  have fin: "finite (dom m)" by (rule finite_subset [of _ UNIV]) simp_all
  have ne: "m \<noteq> Map.empty" using assms by (auto simp: side_best_def)
  let ?p = "if side = Buy then Max (dom m) else Min (dom m)"
  have "\<forall>q \<in> dom m. \<not> better side q ?p"
    using Max_ge [OF fin] Min_le [OF fin] by (auto simp: better_def not_less)
  moreover have "m ?p = Some l" using assms ne by (simp add: side_best_def)
  ultimately show ?thesis by blast
qed

lemma side_best_None: "side_best side m = None \<longleftrightarrow> m = Map.empty"
proof
  assume none: "side_best side m = None"
  have fin: "finite (dom m)" by (rule finite_subset [of _ UNIV]) simp_all
  show "m = Map.empty"
  proof (rule ccontr)
    assume "m \<noteq> Map.empty"
    moreover from this have "dom m \<noteq> {}" by simp
    then have "Max (dom m) \<in> dom m" "Min (dom m) \<in> dom m" using fin by simp_all
    ultimately show False using none by (simp add: side_best_def domIff split: if_splits)
  qed
qed (simp add: side_best_def)

lemma far_best_spec:
  assumes inv: "omap_inv (pl_far pl)"
  shows "far_best pl = None \<longleftrightarrow> pl_far pl = []"
    and "far_best pl = Some (f, l) \<Longrightarrow> omap_find (pl_far pl) f = Some l"
    and "far_best pl = Some (f, l) \<Longrightarrow> omap_find (pl_far pl) q = Some k \<Longrightarrow> \<not> better (pl_side pl) q f"
proof -
  show "far_best pl = None \<longleftrightarrow> pl_far pl = []"
    by (simp add: far_best_def omap_first_def omap_last_def split: list.split)
  assume fl: "far_best pl = Some (f, l)"
  then have ne: "pl_far pl \<noteq> []"
    by (auto simp: far_best_def omap_first_def omap_last_def split: if_splits)
  then have memb: "(f, l) \<in> set (pl_far pl)"
    using fl last_in_set [OF ne] by (cases "pl_far pl")
      (auto simp: far_best_def omap_first_def omap_last_def simp del: last_in_set split: if_splits)
  then show "omap_find (pl_far pl) f = Some l" by (simp add: omap_find_iff [OF inv])
  have f: "f = (if pl_side pl = Buy then Max (fst ` set (pl_far pl)) else Min (fst ` set (pl_far pl)))"
    using fl ne omap_first_spec [OF inv] omap_last_spec [OF inv] by (auto simp: far_best_def)
  assume "omap_find (pl_far pl) q = Some k"
  then have "q \<in> fst ` set (pl_far pl)" using omap_find_iff [OF inv] by force
  then show "\<not> better (pl_side pl) q f" unfolding f by (simp add: better_def not_less)
qed

lemma better_trans: "better s a b \<Longrightarrow> better s b c \<Longrightarrow> better s a c"
  by (auto simp: better_def split: if_splits)

lemma better_total: "\<not> better s a b \<Longrightarrow> a \<noteq> b \<Longrightarrow> better s b a"
  by (auto simp: better_def split: if_splits)

lemma better_ibetter:
  "cell_of pl p = int i \<Longrightarrow> cell_of pl q = int j \<Longrightarrow> better side p q \<longleftrightarrow> ibetter side i j"
  using cell_of_mono [of pl p i q j] cell_of_mono [of pl q j p i] by (simp add: better_def ibetter_def)

text \<open>The best of a window with at least one level.\<close>

lemma window_best:
  assumes inv: "pl_inv pl" and "0 \<le> pl_best pl"
  obtains b a where "pl_best pl = int b" and "b < length (pl_cells pl)" and "a = pl_cells pl ! b"
    and "pl_lv pl (lv_price a) = Some a" and "cell_of pl (lv_price a) = int b"
    and "\<And>q k. pl_lv pl q = Some k \<Longrightarrow> 0 \<le> cell_of pl q \<Longrightarrow> \<not> better (pl_side pl) q (lv_price a)"
proof -
  note parts = pl_inv_parts [OF inv]
  have "occ (pl_cells pl) \<noteq> {}" using assms(2) parts(5) by auto
  then obtain b where b: "pl_best pl = int b" "b \<in> occ (pl_cells pl)"
    "\<And>i. i \<in> occ (pl_cells pl) \<Longrightarrow> \<not> ibetter (pl_side pl) i b"
    using best_of_memb [OF finite_occ] parts(5) by metis
  let ?a = "pl_cells pl ! b"
  have c: "cell_of pl (lv_price ?a) = int b" using cells_ok_price [OF parts(2) b(2)] .
  have "\<not> better (pl_side pl) q (lv_price ?a)" if q: "pl_lv pl q = Some k" "0 \<le> cell_of pl q" for q k
  proof -
    obtain i where i: "cell_of pl q = int i" using q(2) by (metis cell_of_nonneg)
    then have "i \<in> occ (pl_cells pl)" using q(1) by (simp add: pl_lv_cell split: if_splits)
    then show ?thesis using b(3) better_ibetter [OF i c] by simp
  qed
  then show thesis using that [of b ?a] b(1,2) c occ_less by (simp add: pl_lv_cell)
qed

lemma far_level: "pl_inv pl \<Longrightarrow> omap_find (pl_far pl) q = Some k \<Longrightarrow> pl_lv pl q = Some k"
  using far_ok_find [of pl q k] pl_inv_parts(3) by (simp add: pl_lv_far)

text \<open>With nothing in the window the best level is the first of the far ones.\<close>

lemma best_level_outside:
  assumes inv: "pl_inv pl" and empty: "pl_best pl < 0"
  shows "pl_best_level pl = Some (side_best (pl_side pl) (pl_lv pl))"
proof -
  note parts = pl_inv_parts [OF inv]
  have om: "omap_inv (pl_far pl)" using parts(3) by (simp add: far_ok_def)
  note far = far_best_spec [OF om]
  have "occ (pl_cells pl) = {}" using parts(5) empty by (metis best_of_neg_iff)
  then have only: "cell_of pl q < 0 \<and> omap_find (pl_far pl) q = Some k" if "pl_lv pl q = Some k" for q k
    using that by (auto simp: pl_lv_def split: if_splits)
  show ?thesis
  proof (cases "far_best pl")
    case None
    then have "pl_lv pl = Map.empty"
      using only far(1) by (metis map_of.simps(1) not_None_eq omap_find_def option.distinct(1))
    then show ?thesis using None empty by (simp add: pl_best_level_def side_best_def)
  next
    case (Some fl)
    obtain f l where fl: "far_best pl = Some (f, l)" using Some by (cases fl) simp
    have "side_best (pl_side pl) (pl_lv pl) = Some l"
      by (rule side_bestI [where m = "pl_lv pl", OF far_level [OF inv far(2) [OF fl]]]) (use only far(3) [OF fl] in blast)
    then show ?thesis using fl empty by (simp add: pl_best_level_def)
  qed
qed

text \<open>With a best cell in the window it is the better of that and the first far level.\<close>

lemma best_level_inside:
  assumes inv: "pl_inv pl" and inside: "0 \<le> pl_best pl"
  shows "pl_best_level pl = Some (side_best (pl_side pl) (pl_lv pl))"
proof -
  note parts = pl_inv_parts [OF inv]
  have om: "omap_inv (pl_far pl)" using parts(3) by (simp add: far_ok_def)
  note far = far_best_spec [OF om]
  from window_best [OF inv inside] obtain b a
    where a: "pl_best pl = int b" "b < length (pl_cells pl)" "a = pl_cells pl ! b"
    "pl_lv pl (lv_price a) = Some a" "cell_of pl (lv_price a) = int b"
    and best: "\<And>q k. pl_lv pl q = Some k \<Longrightarrow> 0 \<le> cell_of pl q \<Longrightarrow> \<not> better (pl_side pl) q (lv_price a)"
    by metis
  show ?thesis
  proof (cases "far_best pl")
    case None
    then have "\<not> cell_of pl q < 0" if "pl_lv pl q = Some k" for q k
      using that far(1) by (auto simp: pl_lv_far omap_find_def)
    then have "side_best (pl_side pl) (pl_lv pl) = Some a"
      by (intro side_bestI [where m = "pl_lv pl", OF a(4)]) (use best in \<open>auto simp: not_less\<close>)
    then show ?thesis using None a by (simp add: pl_best_level_def)
  next
    case (Some fl)
    obtain f l where fl: "far_best pl = Some (f, l)" using Some by (cases fl) simp
    have fbest: "\<not> better (pl_side pl) q f" if "pl_lv pl q = Some k" "cell_of pl q < 0" for q k
      using that far(3) [OF fl] by (simp add: pl_lv_far)
    have "side_best (pl_side pl) (pl_lv pl) = Some (if better (pl_side pl) f (lv_price a) then l else a)"
    proof (cases "better (pl_side pl) f (lv_price a)")
      case True
      have "\<not> better (pl_side pl) q f" if q: "pl_lv pl q = Some k" for q k
        using q best [OF q] fbest [OF q] True better_trans not_less by metis
      then show ?thesis
        using True side_bestI [where m = "pl_lv pl", OF far_level [OF inv far(2) [OF fl]]] by simp
    next
      case False
      have ne: "f \<noteq> lv_price a"
        using far_ok_find(3) [OF parts(3) far(2) [OF fl]] a(5) by auto
      then have "better (pl_side pl) (lv_price a) f" using better_total [OF False] by simp
      then have "\<not> better (pl_side pl) q (lv_price a)" if q: "pl_lv pl q = Some k" for q k
        using q best [OF q] fbest [OF q] better_trans not_less by metis
      then show ?thesis using False side_bestI [where m = "pl_lv pl", OF a(4)] by simp
    qed
    then show ?thesis using fl a by (simp add: pl_best_level_def)
  qed
qed

lemma pl_best_level_correct: "pl_inv pl \<Longrightarrow> pl_best_level pl = Some (side_best (pl_side pl) (pl_lv pl))"
  using best_level_outside best_level_inside by (cases "0 \<le> pl_best pl") simp_all

section \<open>The list of levels\<close>

definition best_first :: "side \<Rightarrow> level list \<Rightarrow> bool" where
  "best_first side = sorted_wrt (\<lambda>a b. better side (lv_price a) (lv_price b))"

lemma set_merge_levels: "set (merge_levels side arr far) = set arr \<union> set far"
  by (induction side arr far rule: merge_levels.induct) auto

lemma merge_levels_best_first:
  assumes "best_first side arr" and "best_first side far"
    and "\<And>a f. a \<in> set arr \<Longrightarrow> f \<in> set far \<Longrightarrow> lv_price a \<noteq> lv_price f"
  shows "best_first side (merge_levels side arr far)"
  using assms
proof (induction side arr far rule: merge_levels.induct)
  case (1 side a arr f far)
  show ?case
  proof (cases "better side (lv_price a) (lv_price f)")
    case True
    have "better side (lv_price a) (lv_price x)" if "x \<in> set arr \<union> set (f # far)" for x
      using that True 1(3,4) better_trans [OF True] by (auto simp: best_first_def)
    moreover have "best_first side (merge_levels side arr (f # far))"
      using 1(1) [OF True] 1(3-5) by (simp add: best_first_def)
    ultimately show ?thesis using True by (simp add: best_first_def set_merge_levels)
  next
    case False
    then have fa: "better side (lv_price f) (lv_price a)" using better_total 1(5) by simp
    have "better side (lv_price f) (lv_price x)" if "x \<in> set (a # arr) \<union> set far" for x
      using that 1(3,4) better_trans [OF fa] fa by (auto simp: best_first_def)
    moreover have "best_first side (merge_levels side (a # arr) far)"
      using 1(2) [OF False] 1(3-5) by (simp add: best_first_def)
    ultimately show ?thesis using False by (simp add: best_first_def set_merge_levels)
  qed
qed simp_all

lemma foldM_collect:
  assumes "\<forall>i \<in> set js. i < length cells"
  shows "foldM (\<lambda>i arr. map_option (\<lambda>l. arr @ [l]) (vget cells i)) js arr = Some (arr @ map ((!) cells) js)"
  using assms by (induction js arbitrary: arr) simp_all

lemma window_levels:
  assumes inv: "pl_inv pl"
  obtains js where
    "(if pl_cells pl = [] then Some []
      else foldM (\<lambda>i arr. map_option (\<lambda>l. arr @ [l]) (vget (pl_cells pl) i))
             (if pl_side pl = Buy then cells_down (pl_bits pl) else cells_up (pl_bits pl)) []) =
     Some (map ((!) (pl_cells pl)) js)"
    and "set js = occ (pl_cells pl)" and "sorted_wrt (ibetter (pl_side pl)) js"
proof -
  note parts = pl_inv_parts [OF inv]
  let ?js = "if pl_side pl = Buy then cells_down (pl_bits pl) else cells_up (pl_bits pl)"
  have set: "set ?js = occ (pl_cells pl)" using parts(4) set_cells_up set_cells_down by simp
  have "sorted_wrt (ibetter (pl_side pl)) ?js"
    using sorted_cells_up sorted_cells_down by (simp add: ibetter_def [abs_def])
  moreover have "?js = []" if "pl_cells pl = []" using that set by simp
  moreover have "foldM (\<lambda>i arr. map_option (\<lambda>l. arr @ [l]) (vget (pl_cells pl) i)) ?js [] =
      Some (map ((!) (pl_cells pl)) ?js)"
    using foldM_collect [of ?js "pl_cells pl" "[]"] set occ_less by simp
  ultimately show thesis using that [of ?js] set by (cases "pl_cells pl = []") simp_all
qed

lemma pl_levels_correct:
  assumes inv: "pl_inv pl"
  shows "\<exists>ls. pl_levels pl = Some ls \<and> best_first (pl_side pl) ls \<and> set ls = ran (pl_lv pl)"
proof -
  note parts = pl_inv_parts [OF inv]
  have om: "omap_inv (pl_far pl)" using parts(3) by (simp add: far_ok_def)
  obtain js where js: "(if pl_cells pl = [] then Some []
      else foldM (\<lambda>i arr. map_option (\<lambda>l. arr @ [l]) (vget (pl_cells pl) i))
             (if pl_side pl = Buy then cells_down (pl_bits pl) else cells_up (pl_bits pl)) []) =
     Some (map ((!) (pl_cells pl)) js)"
    "set js = occ (pl_cells pl)" "sorted_wrt (ibetter (pl_side pl)) js"
    by (rule window_levels [OF inv])
  let ?arr = "map ((!) (pl_cells pl)) js"
  let ?far = "map snd (if pl_side pl = Buy then rev (pl_far pl) else pl_far pl)"
  have arr: "best_first (pl_side pl) ?arr"
    unfolding best_first_def sorted_wrt_map
    by (rule sorted_wrt_mono_rel [OF _ js(3)])
      (use better_ibetter cells_ok_price [OF parts(2)] js(2) in blast)
  have price: "map lv_price (map snd (pl_far pl)) = map fst (pl_far pl)"
    using parts(3) by (auto simp: far_ok_def)
  have "sorted_wrt (<) (map lv_price (map snd (pl_far pl)))" unfolding price using om by (simp add: omap_inv_def)
  then have far: "best_first (pl_side pl) ?far"
    by (simp add: best_first_def better_def sorted_wrt_map sorted_wrt_rev rev_map)
  have "lv_price a \<noteq> lv_price f" if "a \<in> set ?arr" "f \<in> set ?far" for a f
  proof -
    have "a \<in> (!) (pl_cells pl) ` occ (pl_cells pl)" using that(1) js(2) by simp
    then obtain i where "i \<in> occ (pl_cells pl)" "a = pl_cells pl ! i" by (elim imageE)
    then have "0 \<le> cell_of pl (lv_price a)" using cells_ok_price [OF parts(2)] by simp
    moreover have "cell_of pl (lv_price f) < 0"
      using that(2) parts(3) by (auto simp: far_ok_def split: if_splits)
    ultimately show ?thesis by auto
  qed
  then have "best_first (pl_side pl) (merge_levels (pl_side pl) ?arr ?far)"
    using merge_levels_best_first [OF arr far] by blast
  moreover have "set (merge_levels (pl_side pl) ?arr ?far) = ran (pl_lv pl)"
    unfolding set_merge_levels ran_def pl_lv_iff [OF parts(2,3)]
    using js(2) parts(3) by (auto simp: far_ok_def image_iff) force+
  ultimately show ?thesis using js(1) by (simp add: pl_levels_def)
qed

section \<open>Size and self check\<close>

lemma pl_size_correct:
  assumes inv: "pl_inv pl"
  shows "pl_size pl = word_of_nat (card (dom (pl_lv pl)))"
proof -
  note parts = pl_inv_parts [OF inv]
  let ?price = "\<lambda>i. lv_price (pl_cells pl ! i)"
  have dom: "dom (pl_lv pl) = ?price ` occ (pl_cells pl) \<union> fst ` set (pl_far pl)"
    unfolding dom_def not_None_eq pl_lv_iff [OF parts(2,3)] by force
  have "inj_on ?price (occ (pl_cells pl))"
    using cells_ok_price [OF parts(2)] by (metis (no_types, lifting) inj_onI of_nat_eq_iff)
  moreover have "?price ` occ (pl_cells pl) \<inter> fst ` set (pl_far pl) = {}"
    using cells_ok_price [OF parts(2)] parts(3) by (force simp: far_ok_def)
  moreover have "card (fst ` set (pl_far pl)) = length (pl_far pl)"
    using parts(3) om.distinct_keys by (metis distinct_card far_ok_def length_map set_map)
  ultimately have "card (dom (pl_lv pl)) = card (occ (pl_cells pl)) + length (pl_far pl)"
    unfolding dom by (simp add: card_Un_disjoint card_image)
  then show ?thesis using parts(6) by (simp add: pl_size_def)
qed

lemma bit_occ:
  assumes inv: "pl_inv pl" and i: "i < length (pl_cells pl)"
  shows "i div 64 < length (pl_bits pl)" and "bit (pl_bits pl ! (i div 64)) (i mod 64) \<longleftrightarrow> i \<in> occ (pl_cells pl)"
proof -
  have "pl_cells pl \<noteq> []" using i by auto
  note len = sized_lengths [OF pl_inv_parts(1) [OF inv] this]
  show "i div 64 < length (pl_bits pl)" using i by (rule len(3))
  show "bit (pl_bits pl ! (i div 64)) (i mod 64) \<longleftrightarrow> i \<in> occ (pl_cells pl)"
    unfolding pl_inv_parts(4) [OF inv, symmetric] using i len(2) by (simp add: bits_set_def)
qed

lemma check_cell_step:
  assumes inv: "pl_inv pl" and i: "i < length (pl_cells pl)"
  shows "check_cell pl i (Some n) =
     Some (if i \<notin> occ (pl_cells pl) then Some n
           else if lv_shares (pl_cells pl ! i) = 0 then None else Some (n + 1))"
proof -
  have "lv_orders (pl_cells pl ! i) \<noteq> 0 \<longleftrightarrow> i \<in> occ (pl_cells pl)" using i by (simp add: occ_def)
  then show ?thesis
    using bit_occ [OF inv i] i cells_ok_price [OF pl_inv_parts(2) [OF inv], of i]
    by (cases "i \<in> occ (pl_cells pl)") (simp_all add: check_cell_def)
qed

lemma foldM_check_cell:
  assumes inv: "pl_inv pl" and n: "n \<le> length (pl_cells pl)"
  shows "foldM (check_cell pl) [0..<n] (Some 0) =
     Some (if \<exists>i \<in> occ (pl_cells pl). i < n \<and> lv_shares (pl_cells pl ! i) = 0 then None
           else Some (word_of_nat (card (occ (pl_cells pl) \<inter> {..<n}))))"
  using n
proof (induction n)
  case (Suc n)
  let ?S = "occ (pl_cells pl)"
  let ?bad = "\<lambda>n. \<exists>i \<in> ?S. i < n \<and> lv_shares (pl_cells pl ! i) = 0"
  have n: "n < length (pl_cells pl)" using Suc.prems by simp
  have IH: "foldM (check_cell pl) [0..<n] (Some 0) =
     Some (if ?bad n then None else Some (word_of_nat (card (?S \<inter> {..<n}))))"
    using Suc.IH n by simp
  have run: "foldM (check_cell pl) [0..<Suc n] (Some 0) =
     do { r \<leftarrow> foldM (check_cell pl) [0..<n] (Some 0); check_cell pl n r }"
    by (simp add: foldM_snoc)
  show ?case
  proof (cases "?bad n")
    case True
    then have "?bad (Suc n)" using less_Suc_eq by blast
    then show ?thesis using True unfolding run IH by (simp add: check_cell_def)
  next
    case False
    then have bad: "?bad (Suc n) \<longleftrightarrow> n \<in> ?S \<and> lv_shares (pl_cells pl ! n) = 0"
      using less_Suc_eq by blast
    have "?S \<inter> {..<Suc n} = (if n \<in> ?S then insert n (?S \<inter> {..<n}) else ?S \<inter> {..<n})"
      by (auto simp: less_Suc_eq)
    then have "card (?S \<inter> {..<Suc n}) = (if n \<in> ?S then Suc (card (?S \<inter> {..<n})) else card (?S \<inter> {..<n}))"
      by simp
    then show ?thesis
      unfolding run IH bad if_not_P [OF False] by (simp add: check_cell_step [OF inv n] add.commute)
  qed
qed simp

lemma pl_check_invariants_correct:
  assumes inv: "pl_inv pl"
  shows "pl_check_invariants pl = Some (\<forall>l \<in> ran (pl_lv pl). lv_shares l \<noteq> 0)"
proof -
  note parts = pl_inv_parts [OF inv]
  let ?S = "occ (pl_cells pl)"
  have S: "?S \<inter> {..<length (pl_cells pl)} = ?S" using occ_less by auto
  have all: "(\<forall>l \<in> ran (pl_lv pl). lv_shares l \<noteq> 0) \<longleftrightarrow>
      (\<forall>i \<in> ?S. lv_shares (pl_cells pl ! i) \<noteq> 0) \<and> (\<forall>(p, l) \<in> set (pl_far pl). lv_shares l \<noteq> 0)"
    unfolding ran_def pl_lv_iff [OF parts(2,3)] by auto
  have far: "list_all (\<lambda>(price, l). lv_orders l \<noteq> 0 \<and> lv_shares l \<noteq> 0 \<and> lv_price l = price \<and>
       \<not> cell_of pl price \<ge> 0) (pl_far pl) \<longleftrightarrow> (\<forall>(p, l) \<in> set (pl_far pl). lv_shares l \<noteq> 0)"
    using parts(3) by (auto simp: far_ok_def list_all_iff)
  have bad: "(\<exists>i \<in> ?S. i < length (pl_cells pl) \<and> lv_shares (pl_cells pl ! i) = 0) \<longleftrightarrow>
      \<not> (\<forall>i \<in> ?S. lv_shares (pl_cells pl ! i) \<noteq> 0)"
    using occ_less by blast
  show ?thesis
    unfolding pl_check_invariants_def foldM_check_cell [OF inv order.refl] S far all bad
    by (simp add: parts(4-6) scan_best_bits)
qed

end
