(* ===== verification/Resting_Orders.thy ===== *)
theory Resting_Orders
  imports Price_View
begin

text \<open>
  The abstract book: a finite map from order references to resting orders with unbounded
  quantities, and the price levels its orders add up to. The locale \<open>level_store\<close> is the
  contract of one side of a book; its clients keep a store equal to the levels of their orders.
\<close>

section \<open>Orders and the levels they add up to\<close>

record resting =
  r_side :: side
  r_qty :: nat
  r_price :: u32

type_synonym resting_map = "u64 \<rightharpoonup> resting"

definition refs_at :: "resting_map \<Rightarrow> side \<Rightarrow> u32 \<Rightarrow> u64 set" where
  "refs_at m side p = {r. \<exists>ord. m r = Some ord \<and> r_side ord = side \<and> r_price ord = p}"

definition qty_of :: "resting_map \<Rightarrow> u64 \<Rightarrow> nat" where
  "qty_of m r = (case m r of None \<Rightarrow> 0 | Some ord \<Rightarrow> r_qty ord)"

definition qty_at :: "resting_map \<Rightarrow> side \<Rightarrow> u32 \<Rightarrow> nat" where
  "qty_at m side p = (\<Sum>r \<in> refs_at m side p. qty_of m r)"

definition total_qty :: "resting_map \<Rightarrow> nat" where
  "total_qty m = (\<Sum>r \<in> dom m. qty_of m r)"

definition level_at :: "resting_map \<Rightarrow> side \<Rightarrow> u32 \<rightharpoonup> level" where
  "level_at m side p =
     (if refs_at m side p = {} then None
      else Some \<lparr>lv_price = p, lv_shares = word_of_nat (qty_at m side p),
                 lv_orders = word_of_nat (card (refs_at m side p))\<rparr>)"

lemma finite_resting [simp]: "finite (dom (m :: resting_map))"
  by (rule finite_subset [of _ UNIV]) simp_all

lemma finite_refs_at [simp]: "finite (refs_at m side p)"
  by (rule finite_subset [of _ UNIV]) simp_all

lemma refs_at_dom: "refs_at m side p \<subseteq> dom m"
  by (auto simp: refs_at_def)

lemma card_refs_at: "card (refs_at m side p) \<le> card (dom m)"
  by (rule card_mono [OF _ refs_at_dom]) simp

lemma level_at_empty [simp]: "level_at Map.empty side = Map.empty"
  by (simp add: level_at_def refs_at_def fun_eq_iff)

lemma total_qty_empty [simp]: "total_qty Map.empty = 0"
  by (simp add: total_qty_def)

lemma refs_at_put:
  "m r = None \<Longrightarrow> refs_at (m(r \<mapsto> ord)) side p =
     (if r_side ord = side \<and> r_price ord = p then insert r (refs_at m side p) else refs_at m side p)"
  by (auto simp: refs_at_def)

lemma refs_at_del: "refs_at (m(r := None)) side p = refs_at m side p - {r}"
  by (auto simp: refs_at_def)

lemma refs_at_same:
  "m r = Some ord \<Longrightarrow> refs_at (m(r \<mapsto> ord\<lparr>r_qty := q\<rparr>)) side p = refs_at m side p"
  by (auto simp: refs_at_def)

lemma refs_atI: "m r = Some ord \<Longrightarrow> r \<in> refs_at m (r_side ord) (r_price ord)"
  by (auto simp: refs_at_def)

lemma refs_at_iff: "m r = Some ord \<Longrightarrow> r \<in> refs_at m side p \<longleftrightarrow> r_side ord = side \<and> r_price ord = p"
  by (auto simp: refs_at_def)

lemma qty_of_upd: "qty_of (m(r := x)) r' = (if r' = r then (case x of None \<Rightarrow> 0 | Some ord \<Rightarrow> r_qty ord) else qty_of m r')"
  by (simp add: qty_of_def)

lemma sum_qty_other: "r \<notin> S \<Longrightarrow> (\<Sum>r' \<in> S. qty_of (m(r := x)) r') = (\<Sum>r' \<in> S. qty_of m r')"
  by (rule sum.cong) (auto simp: qty_of_upd)

lemma sum_qty_split:
  assumes "finite S" and "r \<in> S" and "m r = Some ord"
  shows "(\<Sum>r' \<in> S. qty_of m r') = r_qty ord + (\<Sum>r' \<in> S - {r}. qty_of m r')"
  using assms by (simp add: sum.remove qty_of_def)

section \<open>The effect of one order on the levels\<close>

lemma level_at_put:
  assumes "m r = None"
  shows "level_at (m(r \<mapsto> \<lparr>r_side = side, r_qty = unat s, r_price = p\<rparr>)) side =
     (level_at m side)(p \<mapsto> add_level p (s :: u32) (level_at m side p))"
proof
  fix q
  let ?ord = "\<lparr>r_side = side, r_qty = unat s, r_price = p\<rparr>"
  let ?S = "refs_at m side p"
  have fresh: "r \<notin> refs_at m side q" for q using assms by (auto simp: refs_at_def)
  show "level_at (m(r \<mapsto> ?ord)) side q = ((level_at m side)(p \<mapsto> add_level p s (level_at m side p))) q"
  proof (cases "q = p")
    case True
    have refs: "refs_at (m(r \<mapsto> ?ord)) side p = insert r ?S" using assms by (simp add: refs_at_put)
    have "qty_at (m(r \<mapsto> ?ord)) side p = unat s + qty_at m side p"
      unfolding qty_at_def refs using fresh [of p] sum_qty_other [OF fresh, of m "Some ?ord" p]
      by (simp add: qty_of_upd)
    moreover have "card (insert r ?S) = Suc (card ?S)" using fresh by simp
    moreover have "?S = {} \<Longrightarrow> qty_at m side p = 0" by (simp add: qty_at_def)
    ultimately show ?thesis
      using True by (cases "?S = {}")
        (simp_all add: level_at_def refs add_level_def empty_level_def add.commute)
  next
    case False
    then have "refs_at (m(r \<mapsto> ?ord)) side q = refs_at m side q" using assms by (simp add: refs_at_put)
    then show ?thesis
      using False fresh [of q] by (simp add: level_at_def qty_at_def sum_qty_other)
  qed
qed

lemma level_at_reduce:
  assumes "m r = Some ord" and "unat s \<le> r_qty ord"
  shows "level_at (m(r \<mapsto> ord\<lparr>r_qty := r_qty ord - unat s\<rparr>)) (r_side ord) =
     (level_at m (r_side ord))(r_price ord \<mapsto>
        reduce_level s (the (level_at m (r_side ord) (r_price ord))))"
proof
  fix q
  let ?m = "m(r \<mapsto> ord\<lparr>r_qty := r_qty ord - unat s\<rparr>)" and ?side = "r_side ord" and ?p = "r_price ord"
  have refs: "refs_at ?m ?side q = refs_at m ?side q" for q by (rule refs_at_same [where m = m, OF assms(1)])
  have memb: "r \<in> refs_at m ?side ?p" by (rule refs_atI [where m = m, OF assms(1)])
  show "level_at ?m ?side q = ((level_at m ?side)(?p \<mapsto> reduce_level s (the (level_at m ?side ?p)))) q"
  proof (cases "q = ?p")
    case True
    let ?rest = "\<Sum>r' \<in> refs_at m ?side ?p - {r}. qty_of m r'"
    have "qty_at m ?side ?p = r_qty ord + ?rest"
      unfolding qty_at_def by (rule sum_qty_split [where m = m, OF _ memb assms(1)]) simp
    moreover have "qty_at ?m ?side ?p = r_qty ord - unat s + ?rest"
      unfolding qty_at_def refs using sum_qty_split [OF _ memb, of ?m] by (simp add: sum_qty_other)
    ultimately have "qty_at m ?side ?p = qty_at ?m ?side ?p + unat s" using assms(2) by simp
    then show ?thesis using True memb by (auto simp: level_at_def refs reduce_level_def)
  next
    case False
    then have "r \<notin> refs_at m ?side q" using assms(1) by (simp add: refs_at_iff)
    then show ?thesis using False by (simp add: level_at_def qty_at_def refs sum_qty_other)
  qed
qed

lemma level_at_remove:
  assumes "m r = Some ord" and "r_qty ord = unat s" and "card (dom m) < 2 ^ 32"
  shows "level_at (m(r := None)) (r_side ord) =
     (level_at m (r_side ord))(r_price ord :=
        remove_level (s :: u32) (the (level_at m (r_side ord) (r_price ord))))"
proof
  fix q
  let ?m = "m(r := None)" and ?side = "r_side ord" and ?p = "r_price ord"
  have memb: "r \<in> refs_at m ?side ?p" by (rule refs_atI [where m = m, OF assms(1)])
  show "level_at ?m ?side q = ((level_at m ?side)(?p := remove_level s (the (level_at m ?side ?p)))) q"
  proof (cases "q = ?p")
    case True
    let ?S = "refs_at m ?side ?p"
    have qty: "qty_at m ?side ?p = unat s + qty_at ?m ?side ?p"
      unfolding qty_at_def refs_at_del using sum_qty_split [of ?S r m ord] memb assms(1,2)
      by (simp add: sum_qty_other)
    have card: "card ?S = Suc (card (?S - {r}))" by (rule card.remove [OF finite_refs_at memb])
    have "card ?S < 2 ^ 32" using card_refs_at [of m ?side ?p] assms(3) by simp
    then have one: "(word_of_nat (card ?S) :: u32) = 1 \<longleftrightarrow> card ?S = 1"
      unfolding word_unat_eq_iff by (simp only: unat_of_nat_32 unat_1)
    have lv: "level_at m ?side ?p = Some \<lparr>lv_price = ?p, lv_shares = word_of_nat (qty_at m ?side ?p),
        lv_orders = word_of_nat (card ?S)\<rparr>"
      using memb by (auto simp: level_at_def)
    show ?thesis
    proof (cases "?S - {r} = {}")
      case True
      then have "level_at ?m ?side ?p = None" "card ?S = 1" using card by (simp_all add: level_at_def refs_at_del)
      then show ?thesis using \<open>q = ?p\<close> lv one by (simp add: remove_level_def)
    next
      case False
      then have "card (?S - {r}) \<noteq> 0" by (simp add: card_eq_0_iff)
      then have "card ?S \<noteq> 1" using card by simp
      moreover have "level_at ?m ?side ?p = Some \<lparr>lv_price = ?p, lv_shares = word_of_nat (qty_at ?m ?side ?p),
          lv_orders = word_of_nat (card (?S - {r}))\<rparr>"
        using False by (simp add: level_at_def refs_at_del)
      moreover have "word_of_nat (card (?S - {r})) = (word_of_nat (card ?S) :: u32) - 1" unfolding card by simp
      moreover have "word_of_nat (qty_at ?m ?side ?p) = (word_of_nat (qty_at m ?side ?p) :: u64) - ucast s"
        unfolding qty by simp
      ultimately show ?thesis using \<open>q = ?p\<close> lv one by (simp add: remove_level_def)
    qed
  next
    case False
    then have "r \<notin> refs_at m ?side q" using assms(1) by (simp add: refs_at_iff)
    then show ?thesis using False by (simp add: level_at_def qty_at_def refs_at_del sum_qty_other)
  qed
qed

lemma level_at_other:
  assumes "m r = None \<or> (\<exists>ord. m r = Some ord \<and> r_side ord \<noteq> side)" and "\<And>ord. x = Some ord \<Longrightarrow> r_side ord \<noteq> side"
  shows "level_at (m(r := x)) side = level_at m side"
proof
  fix q
  have "r \<notin> refs_at m side q" using assms(1) by (auto simp: refs_at_def)
  moreover have "refs_at (m(r := x)) side q = refs_at m side q"
    using assms by (auto simp: refs_at_def)
  ultimately show "level_at (m(r := x)) side q = level_at m side q"
    by (simp add: level_at_def qty_at_def sum_qty_other)
qed

lemma level_at_room:
  assumes "card (dom m) + 1 < 2 ^ 32" and "level_at m side p = Some l"
  shows "lv_orders l + 1 \<noteq> 0"
proof -
  have "card (refs_at m side p) + 1 < 2 ^ 32" using card_refs_at [of m side p] assms(1) by linarith
  then have "(word_of_nat (card (refs_at m side p) + 1) :: u32) \<noteq> 0" by (simp only: of_nat_u32_eq_0)
  then show ?thesis using assms(2) by (auto simp: level_at_def add.commute split: if_splits)
qed

section \<open>Totals\<close>

lemma total_qty_put: "m r = None \<Longrightarrow> total_qty (m(r \<mapsto> ord)) = total_qty m + r_qty ord"
  unfolding total_qty_def
  using sum_qty_other [of r "dom m" m "Some ord"] by (simp add: domIff) (simp add: qty_of_def)

lemma total_qty_del:
  assumes "m r = Some ord"
  shows "total_qty m = total_qty (m(r := None)) + r_qty ord"
proof -
  have "r \<in> dom m" using assms by (rule domI)
  from sum_qty_split [where m = m, OF finite_resting this assms] show ?thesis
    by (simp add: total_qty_def sum_qty_other)
qed

lemma total_qty_upd:
  assumes "m r = Some ord"
  shows "total_qty (m(r \<mapsto> ord')) + r_qty ord = total_qty m + r_qty ord'"
proof -
  have "total_qty (m(r \<mapsto> ord')) = total_qty (m(r := None)) + r_qty ord'"
    using total_qty_put [of "m(r := None)" r ord'] by simp
  then show ?thesis using total_qty_del [where m = m, OF assms] by simp
qed

section \<open>The contract of one side\<close>

locale level_store =
  fixes inv :: "'s \<Rightarrow> bool" and side_of :: "'s \<Rightarrow> side" and lv :: "'s \<Rightarrow> u32 \<rightharpoonup> level"
    and add reduce remove :: "u32 \<Rightarrow> u32 \<Rightarrow> 's \<Rightarrow> 's option"
    and best :: "'s \<Rightarrow> level option option"
  assumes add_law: "inv s \<Longrightarrow> (\<And>l. lv s p = Some l \<Longrightarrow> lv_orders l + 1 \<noteq> 0) \<Longrightarrow>
      \<exists>s'. add p q s = Some s' \<and> inv s' \<and> side_of s' = side_of s \<and>
           lv s' = (lv s)(p \<mapsto> add_level p q (lv s p))"
    and reduce_law: "inv s \<Longrightarrow> lv s p = Some l \<Longrightarrow>
      \<exists>s'. reduce p q s = Some s' \<and> inv s' \<and> side_of s' = side_of s \<and>
           lv s' = (lv s)(p \<mapsto> reduce_level q l)"
    and remove_law: "inv s \<Longrightarrow> lv s p = Some l \<Longrightarrow>
      \<exists>s'. remove p q s = Some s' \<and> inv s' \<and> side_of s' = side_of s \<and>
           lv s' = (lv s)(p := remove_level q l)"
    and best_law: "inv s \<Longrightarrow> best s = Some (side_best (side_of s) (lv s))"
begin

lemma add_order:
  assumes "inv s" and "lv s = level_at m (side_of s)" and "m r = None" and "card (dom m) + 1 < 2 ^ 32"
  shows "\<exists>s'. add p q s = Some s' \<and> inv s' \<and> side_of s' = side_of s \<and>
     lv s' = level_at (m(r \<mapsto> \<lparr>r_side = side_of s, r_qty = unat q, r_price = p\<rparr>)) (side_of s)"
proof -
  have "lv_orders l + 1 \<noteq> 0" if "lv s p = Some l" for l
    using that level_at_room [OF assms(4)] unfolding assms(2) by blast
  from add_law [OF assms(1) this] show ?thesis
    unfolding level_at_put [where m = m, OF assms(3)] assms(2) by auto
qed

lemma reduce_order:
  assumes "inv s" and "lv s = level_at m (side_of s)" and "m r = Some ord" and "r_side ord = side_of s"
    and "unat q \<le> r_qty ord"
  shows "\<exists>s'. reduce (r_price ord) q s = Some s' \<and> inv s' \<and> side_of s' = side_of s \<and>
     lv s' = level_at (m(r \<mapsto> ord\<lparr>r_qty := r_qty ord - unat q\<rparr>)) (side_of s)"
proof -
  have "refs_at m (side_of s) (r_price ord) \<noteq> {}" using refs_atI [of m r ord] assms(3,4) by auto
  then have "lv s (r_price ord) = Some (the (level_at m (side_of s) (r_price ord)))"
    unfolding assms(2) by (simp add: level_at_def)
  from reduce_law [OF assms(1) this] show ?thesis
    using level_at_reduce [where m = m, OF assms(3,5)] unfolding assms(2,4) by auto
qed

lemma remove_order:
  assumes "inv s" and "lv s = level_at m (side_of s)" and "m r = Some ord" and "r_side ord = side_of s"
    and "r_qty ord = unat q" and "card (dom m) < 2 ^ 32"
  shows "\<exists>s'. remove (r_price ord) q s = Some s' \<and> inv s' \<and> side_of s' = side_of s \<and>
     lv s' = level_at (m(r := None)) (side_of s)"
proof -
  have "refs_at m (side_of s) (r_price ord) \<noteq> {}" using refs_atI [of m r ord] assms(3,4) by auto
  then have "lv s (r_price ord) = Some (the (level_at m (side_of s) (r_price ord)))"
    unfolding assms(2) by (simp add: level_at_def)
  from remove_law [OF assms(1) this] show ?thesis
    using level_at_remove [where m = m, OF assms(3,5,6)] unfolding assms(2,4) by auto
qed

end

interpretation ps: level_store pl_inv pl_side pl_lv pl_add pl_reduce pl_remove pl_best_level
proof unfold_locales
  fix s p q l
  show "pl_inv s \<Longrightarrow> (\<And>l. pl_lv s p = Some l \<Longrightarrow> lv_orders l + 1 \<noteq> 0) \<Longrightarrow>
      \<exists>s'. pl_add p q s = Some s' \<and> pl_inv s' \<and> pl_side s' = pl_side s \<and>
           pl_lv s' = (pl_lv s)(p \<mapsto> add_level p q (pl_lv s p))"
    using pl_add_correct [of s p q] by (auto simp: same_frame_def)
  show "pl_inv s \<Longrightarrow> pl_lv s p = Some l \<Longrightarrow>
      \<exists>s'. pl_reduce p q s = Some s' \<and> pl_inv s' \<and> pl_side s' = pl_side s \<and>
           pl_lv s' = (pl_lv s)(p \<mapsto> reduce_level q l)"
    using pl_reduce_correct [of s p l q] by (auto simp: same_frame_def)
  show "pl_inv s \<Longrightarrow> pl_lv s p = Some l \<Longrightarrow>
      \<exists>s'. pl_remove p q s = Some s' \<and> pl_inv s' \<and> pl_side s' = pl_side s \<and>
           pl_lv s' = (pl_lv s)(p := remove_level q l)"
    using pl_remove_correct [of s p l q] by (auto simp: same_frame_def)
  show "pl_inv s \<Longrightarrow> pl_best_level s = Some (side_best (pl_side s) (pl_lv s))"
    by (rule pl_best_level_correct)
qed

end
