(* ===== verification/Ring.thy ===== *)
theory Ring
  imports Prelude
begin

text \<open>
  Distances on a ring of \<open>n\<close> slots, the arithmetic behind linear probing, and their computation
  by masked word arithmetic when \<open>n\<close> is a power of two.
\<close>

definition cdist :: "nat \<Rightarrow> nat \<Rightarrow> nat \<Rightarrow> nat" where
  "cdist n a b = (if a \<le> b then b - a else b + n - a)"

definition ring_next :: "nat \<Rightarrow> nat \<Rightarrow> nat" where
  "ring_next n i = (if i + 1 = n then 0 else i + 1)"

lemma ring_next_less [intro]: "i < n \<Longrightarrow> ring_next n i < n"
  by (auto simp: ring_next_def)

lemma cdist_less [intro]: "a < n \<Longrightarrow> b < n \<Longrightarrow> cdist n a b < n"
  by (auto simp: cdist_def)

lemma cdist_0_iff: "a < n \<Longrightarrow> b < n \<Longrightarrow> cdist n a b = 0 \<longleftrightarrow> a = b"
  by (auto simp: cdist_def)

lemma cdist_self [simp]: "cdist n a a = 0"
  by (simp add: cdist_def)

lemma cdist_next:
  "i < n \<Longrightarrow> t < n \<Longrightarrow> i \<noteq> t \<Longrightarrow> cdist n (ring_next n i) t = cdist n i t - 1"
  by (auto simp: cdist_def ring_next_def)

lemma cdist_inj: "a < n \<Longrightarrow> b < n \<Longrightarrow> c < n \<Longrightarrow> cdist n a b = cdist n a c \<Longrightarrow> b = c"
  by (auto simp: cdist_def split: if_splits)

text \<open>The first slot in ring order that satisfies \<open>Q\<close>.\<close>

lemma ring_first:
  assumes "e < n" and "Q e" and "i < n"
  obtains t where "t < n" and "Q t" and "\<And>p. p < n \<Longrightarrow> cdist n i p < cdist n i t \<Longrightarrow> \<not> Q p"
proof -
  let ?R = "\<lambda>t. t < n \<and> Q t"
  obtain t where "?R t" and "\<forall>y. ?R y \<longrightarrow> cdist n i t \<le> cdist n i y"
    using ex_has_least_nat [of ?R e "cdist n i"] assms by auto
  then show ?thesis by (intro that [of t]) force+
qed

text \<open>Masked word arithmetic computes positions and distances on the ring.\<close>

lemma unat_next_mask:
  fixes i :: "'a::len word"
  assumes "k < LENGTH('a)" and "unat i < 2 ^ k"
  shows "unat ((i + 1) AND mask k) = ring_next (2 ^ k) (unat i)"
proof -
  have "(2::nat) ^ k < 2 ^ LENGTH('a)" using assms(1) by simp
  then have lt: "unat i + 1 < 2 ^ LENGTH('a)" using assms(2) by linarith
  have "unat (i + 1) = unat i + 1"
    using lt by (metis Suc_eq_plus1 unat_add_lem unat_1)
  then show ?thesis
    using assms(2) by (auto simp: unat_and_mask ring_next_def)
qed

lemma unat_diff_mask:
  fixes a b :: "'a::len word"
  assumes "k \<le> LENGTH('a)" and "unat a < 2 ^ k" and "unat b < 2 ^ k"
  shows "unat ((b - a) AND mask k) = cdist (2 ^ k) (unat a) (unat b)"
proof (cases "a \<le> b")
  case True
  then have "unat (b - a) = unat b - unat a" by (rule unat_sub)
  then show ?thesis
    using True assms by (auto simp: unat_and_mask cdist_def word_le_nat_alt)
next
  case False
  then have lt: "unat b < unat a" by (simp add: word_le_nat_alt)
  have "unat (b - a) = 2 ^ LENGTH('a) + unat b - unat a"
    using False by (simp add: unat_sub_if_size word_size word_le_nat_alt)
  moreover obtain q where "(2::nat) ^ LENGTH('a) = 2 ^ k * q"
    using assms(1) by (metis le_Suc_ex power_add)
  moreover have "q \<ge> 1" using calculation(2) by (cases q) auto
  ultimately have "unat (b - a) = (2 ^ k + unat b - unat a) + 2 ^ k * (q - 1)"
    using lt assms by (cases q) (auto simp: algebra_simps)
  then have "unat (b - a) mod 2 ^ k = (2 ^ k + unat b - unat a) mod 2 ^ k"
    by (simp only: mod_mult_self2)
  also have "\<dots> = 2 ^ k + unat b - unat a"
    using lt assms by simp
  finally have "unat (b - a) mod 2 ^ k = 2 ^ k + unat b - unat a" .
  then show ?thesis
    using lt by (simp add: unat_and_mask cdist_def)
qed

end
