(* ===== verification/Order_Index.thy ===== *)
theory Order_Index
  imports Ring
begin

text \<open>
  The order reference index of \<open>src/common/flat_hash_map.h\<close>: an open addressing hash table
  with linear probing, doubling growth at three quarters load and deletion by backward
  shift. A pointer to an order is the number of the slot that holds it.
\<close>

section \<open>Data\<close>

record order =
  ord_shares :: u32
  ord_price :: u32

record slot =
  slot_ref :: u64
  slot_order :: order

record order_index =
  idx_slots :: "slot list"
  idx_mask :: size_t
  idx_size :: size_t
  idx_grow_at :: size_t
  idx_rehashes :: size_t

text \<open>What the class lets others read.\<close>

definition index_size :: "order_index \<Rightarrow> size_t" where
  "index_size idx = idx_size idx"

definition index_capacity :: "order_index \<Rightarrow> size_t" where
  "index_capacity idx = word_of_nat (length (idx_slots idx))"

definition rehashes :: "order_index \<Rightarrow> size_t" where
  "rehashes idx = idx_rehashes idx"

lemmas index_reads [simp] = index_size_def index_capacity_def rehashes_def

definition kSideBit :: u32 where
  "kSideBit = 0x80000000"

definition kInitial :: size_t where
  "kInitial = 256"

definition order_qty :: "order \<Rightarrow> u32" where
  "order_qty ord = ord_shares ord AND NOT kSideBit"

definition order_buy :: "order \<Rightarrow> bool" where
  "order_buy ord \<longleftrightarrow> ord_shares ord AND kSideBit \<noteq> 0"

definition empty_slot :: slot where
  "empty_slot = \<lparr>slot_ref = 0, slot_order = \<lparr>ord_shares = 0, ord_price = 0\<rparr>\<rparr>"

definition empty_index :: order_index where
  "empty_index = \<lparr>idx_slots = [], idx_mask = 0, idx_size = 0, idx_grow_at = 0, idx_rehashes = 0\<rparr>"

section \<open>Operations\<close>

definition home_slot :: "size_t \<Rightarrow> u64 \<Rightarrow> size_t" where
  "home_slot m ref = (let h = ref * 0x9E3779B97F4A7C15 in (h XOR drop_bit 32 h) AND m)"

text \<open>
  The walk shared by \<open>insert\<close>, \<open>find\<close>, \<open>erase\<close> and the rebuild: from slot \<open>i\<close> forward around
  the ring to the first slot that satisfies \<open>stop\<close>. It does not end when no slot qualifies,
  hence the option.
\<close>

partial_function (option) walk_slots ::
    "(slot \<Rightarrow> bool) \<Rightarrow> slot list \<Rightarrow> size_t \<Rightarrow> size_t \<Rightarrow> size_t option" where
  "walk_slots stop ss m i =
     do { s \<leftarrow> vget ss (unat i);
          if stop s then Some i else walk_slots stop ss m ((i + 1) AND m) }"

definition probe :: "slot list \<Rightarrow> size_t \<Rightarrow> u64 \<Rightarrow> size_t \<Rightarrow> size_t option" where
  "probe ss m ref i = walk_slots (\<lambda>s. slot_ref s = 0 \<or> slot_ref s = ref) ss m i"

definition probe_empty :: "slot list \<Rightarrow> size_t \<Rightarrow> size_t \<Rightarrow> size_t option" where
  "probe_empty ss m i = walk_slots (\<lambda>s. slot_ref s = 0) ss m i"

definition index_find :: "order_index \<Rightarrow> u64 \<Rightarrow> size_t option option" where
  "index_find idx ref =
     (if idx_size idx = 0 then Some None
      else do { i \<leftarrow> probe (idx_slots idx) (idx_mask idx) ref (home_slot (idx_mask idx) ref);
                s \<leftarrow> vget (idx_slots idx) (unat i);
                Some (if slot_ref s = 0 then None else Some i) })"

definition index_deref :: "order_index \<Rightarrow> size_t \<Rightarrow> order option" where
  "index_deref idx i = map_option slot_order (vget (idx_slots idx) (unat i))"

definition index_store :: "order_index \<Rightarrow> size_t \<Rightarrow> order \<Rightarrow> order_index option" where
  "index_store idx i ord =
     do { s \<leftarrow> vget (idx_slots idx) (unat i);
          ss \<leftarrow> vset (idx_slots idx) (unat i) (s\<lparr>slot_order := ord\<rparr>);
          Some (idx\<lparr>idx_slots := ss\<rparr>) }"

text \<open>Reinsertion of the live slots into the doubled table.\<close>

definition reinsert :: "slot \<Rightarrow> order_index \<Rightarrow> order_index option" where
  "reinsert s idx =
     (if slot_ref s = 0 then Some idx
      else do { i \<leftarrow> probe_empty (idx_slots idx) (idx_mask idx)
                      (home_slot (idx_mask idx) (slot_ref s));
                ss \<leftarrow> vset (idx_slots idx) (unat i) s;
                Some (idx\<lparr>idx_slots := ss, idx_size := idx_size idx + 1\<rparr>) })"

definition index_grow :: "order_index \<Rightarrow> order_index option" where
  "index_grow idx =
     (let old = idx_slots idx;
          cap = (if old = [] then kInitial else word_of_nat (length old) * 2)
      in foldM reinsert old
           \<lparr>idx_slots = replicate (unat cap) empty_slot, idx_mask = cap - 1, idx_size = 0,
            idx_grow_at = cap - cap div 4,
            idx_rehashes = (if old = [] then idx_rehashes idx else idx_rehashes idx + 1)\<rparr>)"

definition mk_order :: "u32 \<Rightarrow> u32 \<Rightarrow> bool \<Rightarrow> order" where
  "mk_order qty price buy =
     \<lparr>ord_shares = (if buy then qty OR kSideBit else qty), ord_price = price\<rparr>"

definition insert_probe :: "order_index \<Rightarrow> u64 \<Rightarrow> u32 \<Rightarrow> u32 \<Rightarrow> bool \<Rightarrow> (bool \<times> order_index) option" where
  "insert_probe idx ref qty price buy =
     do { i \<leftarrow> probe (idx_slots idx) (idx_mask idx) ref (home_slot (idx_mask idx) ref);
          s \<leftarrow> vget (idx_slots idx) (unat i);
          if slot_ref s \<noteq> 0 then Some (False, idx)
          else do {
            ss \<leftarrow> vset (idx_slots idx) (unat i)
                   \<lparr>slot_ref = ref, slot_order = mk_order qty price buy\<rparr>;
            Some (True, idx\<lparr>idx_slots := ss, idx_size := idx_size idx + 1\<rparr>) } }"

text \<open>\<open>insert\<close> grows the table before it looks for a duplicate.\<close>

definition index_insert :: "order_index \<Rightarrow> u64 \<Rightarrow> u32 \<Rightarrow> u32 \<Rightarrow> bool \<Rightarrow> (bool \<times> order_index) option" where
  "index_insert idx ref qty price buy =
     (if ref = 0 then Some (False, idx)
      else do {
        idx' \<leftarrow> (if idx_size idx + 1 > idx_grow_at idx then index_grow idx else Some idx);
        insert_probe idx' ref qty price buy })"

text \<open>
  Closes the hole at \<open>hole\<close>: later entries of the probe chain move back over it unless their
  home lies strictly behind the hole. The last hole is blanked.
\<close>

partial_function (option) backward_shift ::
    "slot list \<Rightarrow> size_t \<Rightarrow> size_t \<Rightarrow> size_t \<Rightarrow> slot list option" where
  "backward_shift ss m hole j =
     do { let j = (j + 1) AND m;
          s \<leftarrow> vget ss (unat j);
          if slot_ref s = 0 then vset ss (unat hole) empty_slot
          else do {
            let home = home_slot m (slot_ref s);
            let dist_j = (j - hole) AND m;
            let dist_home = (home - hole) AND m;
            if dist_home \<le> dist_j \<and> dist_home \<noteq> 0 then backward_shift ss m hole j
            else do { ss' \<leftarrow> vset ss (unat hole) s; backward_shift ss' m j j } } }"

definition index_erase :: "order_index \<Rightarrow> u64 \<Rightarrow> (bool \<times> order_index) option" where
  "index_erase idx ref =
     (if idx_size idx = 0 then Some (False, idx)
      else do { i \<leftarrow> probe (idx_slots idx) (idx_mask idx) ref (home_slot (idx_mask idx) ref);
                s \<leftarrow> vget (idx_slots idx) (unat i);
                if slot_ref s = 0 then Some (False, idx)
                else do { ss \<leftarrow> backward_shift (idx_slots idx) (idx_mask idx) i i;
                          Some (True, idx\<lparr>idx_slots := ss, idx_size := idx_size idx - 1\<rparr>) } })"

text \<open>\<open>for_each\<close> visits the live entries in slot order.\<close>

definition index_entries :: "order_index \<Rightarrow> (u64 \<times> order) list" where
  "index_entries idx = [(slot_ref s, slot_order s). s \<leftarrow> idx_slots idx, slot_ref s \<noteq> 0]"

end
