(* ===== verification/Index_Laws.thy ===== *)
theory Index_Laws
  imports Order_Index
begin

text \<open>
  Correctness of the order index. A table of \<open>2 ^ k\<close> slots is well formed when every live slot
  can be reached from its home over live slots only (no probe chain is broken) and no
  reference occupies two slots. Its meaning is the finite map \<open>slots_live\<close>.
\<close>

section \<open>Well formed tables and their meaning\<close>

abbreviation ref_at :: "slot list \<Rightarrow> nat \<Rightarrow> u64" where
  "ref_at ss j \<equiv> slot_ref (ss ! j)"

definition home_of :: "nat \<Rightarrow> u64 \<Rightarrow> nat" where
  "home_of k r = unat (home_slot (mask k) r)"

definition chain_ok :: "nat \<Rightarrow> slot list \<Rightarrow> nat \<Rightarrow> bool" where
  "chain_ok k ss j \<longleftrightarrow>
     (\<forall>p < 2 ^ k. cdist (2 ^ k) (home_of k (ref_at ss j)) p < cdist (2 ^ k) (home_of k (ref_at ss j)) j
        \<longrightarrow> ref_at ss p \<noteq> 0)"

definition table_ok :: "nat \<Rightarrow> slot list \<Rightarrow> bool" where
  "table_ok k ss \<longleftrightarrow>
     length ss = 2 ^ k \<and> 1 \<le> k \<and> k < 64 \<and>
     (\<forall>j < 2 ^ k. ref_at ss j \<noteq> 0 \<longrightarrow> chain_ok k ss j) \<and>
     (\<forall>i < 2 ^ k. \<forall>j < 2 ^ k. ref_at ss i \<noteq> 0 \<longrightarrow> ref_at ss i = ref_at ss j \<longrightarrow> i = j)"

definition slots_live :: "slot list \<Rightarrow> u64 \<rightharpoonup> order" where
  "slots_live ss = map_of [(slot_ref s, slot_order s). s \<leftarrow> ss, slot_ref s \<noteq> 0]"

lemma table_okI:
  assumes "length ss = 2 ^ k" and "1 \<le> k" and "k < 64"
    and "\<And>j. j < 2 ^ k \<Longrightarrow> ref_at ss j \<noteq> 0 \<Longrightarrow> chain_ok k ss j"
    and "\<And>i j. i < 2 ^ k \<Longrightarrow> j < 2 ^ k \<Longrightarrow> ref_at ss i \<noteq> 0 \<Longrightarrow> ref_at ss i = ref_at ss j \<Longrightarrow> i = j"
  shows "table_ok k ss"
  unfolding table_ok_def using assms by blast

lemma home_of_less: "k < 64 \<Longrightarrow> home_of k r < 2 ^ k"
  by (simp add: home_of_def home_slot_def Let_def unat_and_mask)

lemma slots_live_Nil [simp]: "slots_live [] = Map.empty"
  by (simp add: slots_live_def)

lemma slots_live_Cons:
  "slots_live (s # ss) =
     (if slot_ref s = 0 then slots_live ss else (slots_live ss)(slot_ref s \<mapsto> slot_order s))"
  by (simp add: slots_live_def)

lemma slots_live_SomeD:
  "slots_live ss r = Some ord \<Longrightarrow> r \<noteq> 0 \<and> (\<exists>j < length ss. ref_at ss j = r \<and> slot_order (ss ! j) = ord)"
proof (induction ss)
  case (Cons s ss)
  then show ?case
    by (cases "slot_ref s = 0 \<or> slot_ref s \<noteq> r") (force simp: slots_live_Cons split: if_splits)+
qed simp

lemma slots_live_SomeI:
  assumes "\<And>i j. i < length ss \<Longrightarrow> j < length ss \<Longrightarrow> ref_at ss i \<noteq> 0 \<Longrightarrow> ref_at ss i = ref_at ss j \<Longrightarrow> i = j"
    and "j < length ss" and "ref_at ss j \<noteq> 0"
  shows "slots_live ss (ref_at ss j) = Some (slot_order (ss ! j))"
  using assms
proof (induction ss arbitrary: j)
  case (Cons s ss)
  have IH: "slots_live ss (ref_at ss i) = Some (slot_order (ss ! i))"
    if "i < length ss" "ref_at ss i \<noteq> 0" for i
    using Cons.IH [OF _ that] Cons.prems(1) [of "Suc _" "Suc _"] by fastforce
  show ?case
  proof (cases j)
    case 0
    then show ?thesis using Cons.prems by (simp add: slots_live_Cons)
  next
    case (Suc i)
    then have "slot_ref s \<noteq> ref_at ss i"
      using Cons.prems(1) [of 0 j] Cons.prems(2,3) by (auto intro: ccontr)
    then show ?thesis using Suc Cons.prems IH [of i] by (simp add: slots_live_Cons)
  qed
qed simp

lemma table_length: "table_ok k ss \<Longrightarrow> length ss = 2 ^ k"
  by (simp add: table_ok_def)

lemma table_live:
  "table_ok k ss \<Longrightarrow>
     slots_live ss r = Some ord \<longleftrightarrow> r \<noteq> 0 \<and> (\<exists>j < 2 ^ k. ref_at ss j = r \<and> slot_order (ss ! j) = ord)"
  using slots_live_SomeD [of ss r ord] slots_live_SomeI [of ss]
  unfolding table_ok_def by metis

lemma table_live_at:
  "table_ok k ss \<Longrightarrow> j < 2 ^ k \<Longrightarrow> ref_at ss j \<noteq> 0 \<Longrightarrow> slots_live ss (ref_at ss j) = Some (slot_order (ss ! j))"
  by (auto simp: table_live)

lemma table_not_live:
  "table_ok k ss \<Longrightarrow> r \<noteq> 0 \<Longrightarrow> slots_live ss r = None \<longleftrightarrow> (\<forall>j < 2 ^ k. ref_at ss j \<noteq> r)"
  using table_live [of k ss r] by (metis not_None_eq)

lemma slots_live_0 [simp]: "slots_live ss 0 = None"
  using slots_live_SomeD [of ss 0] by (cases "slots_live ss 0") auto

lemma finite_slots_live [simp]: "finite (dom (slots_live ss))"
  unfolding slots_live_def by (rule finite_dom_map_of)

text \<open>A table that is not full has an empty slot.\<close>

lemma table_has_empty:
  assumes ok: "table_ok k ss" and "card (dom (slots_live ss)) < 2 ^ k"
  obtains e where "e < 2 ^ k" and "ref_at ss e = 0"
proof (rule ccontr)
  assume "\<not> thesis"
  then have full: "\<forall>j < 2 ^ k. ref_at ss j \<noteq> 0" using that by blast
  then have "inj_on (ref_at ss) {..<2 ^ k}"
    using ok by (auto simp: inj_on_def table_ok_def)
  moreover have "ref_at ss ` {..<2 ^ k} \<subseteq> dom (slots_live ss)"
    using full ok table_live_at by blast
  ultimately have "2 ^ k \<le> card (dom (slots_live ss))"
    by (metis card_image card_lessThan card_mono finite_slots_live)
  with assms(2) show False by simp
qed

section \<open>Probing\<close>

lemma walk_finds:
  assumes "length ss = 2 ^ k" and "k < 64" and "unat i < 2 ^ k" and "t < 2 ^ k" and "stop (ss ! t)"
    and "\<And>p. p < 2 ^ k \<Longrightarrow> cdist (2 ^ k) (unat i) p < cdist (2 ^ k) (unat i) t \<Longrightarrow> \<not> stop (ss ! p)"
  shows "\<exists>i'. walk_slots stop ss (mask k) i = Some i' \<and> unat i' = t"
  using assms(3,6)
proof (induction "cdist (2 ^ k) (unat i) t" arbitrary: i)
  case 0
  then have "unat i = t" using assms(4) by (simp add: cdist_0_iff)
  then show ?case using assms by (subst walk_slots.simps) simp
next
  case (Suc d)
  let ?i = "(i + 1) AND mask k"
  have neq: "unat i \<noteq> t" using Suc.hyps(2) by auto
  have nx: "unat ?i = ring_next (2 ^ k) (unat i)"
    using unat_next_mask [of k i] assms(2) Suc.prems(1) by simp
  have d: "cdist (2 ^ k) (unat ?i) t = d"
    using cdist_next [of "unat i" "2 ^ k" t] Suc.hyps(2) Suc.prems(1) assms(4) neq nx by simp
  have "\<exists>i'. walk_slots stop ss (mask k) ?i = Some i' \<and> unat i' = t"
  proof (rule Suc.hyps(1))
    fix p assume p: "p < 2 ^ k" "cdist (2 ^ k) (unat ?i) p < cdist (2 ^ k) (unat ?i) t"
    then have "p \<noteq> unat i"
      using Suc.prems(1) assms(4) neq unfolding nx by (auto simp: cdist_def ring_next_def split: if_splits)
    then have "cdist (2 ^ k) (unat i) p < cdist (2 ^ k) (unat i) t"
      using p Suc.prems(1) assms(4) neq unfolding nx by (auto simp: cdist_next)
    then show "\<not> stop (ss ! p)" by (rule Suc.prems(2) [OF p(1)])
  qed (use d Suc.prems(1) nx in auto)
  moreover have "\<not> stop (ss ! unat i)"
    using Suc.prems Suc.hyps(2) by simp
  ultimately show ?case
    using assms(1) Suc.prems(1) by (subst walk_slots.simps) simp
qed

text \<open>
  From the home of \<open>r\<close> the walk stops at the slot of \<open>r\<close> when \<open>r\<close> is live, and otherwise at
  an empty slot that every probe for \<open>r\<close> reaches.
\<close>

lemma walk_to_slot:
  assumes ok: "table_ok k ss" and room: "card (dom (slots_live ss)) < 2 ^ k"
    and stop: "\<And>s. slot_ref s = 0 \<Longrightarrow> stop s"
  obtains t where "unat t < 2 ^ k" and "walk_slots stop ss (mask k) (home_slot (mask k) r) = Some t"
    and "stop (ss ! unat t)"
    and "\<And>p. p < 2 ^ k \<Longrightarrow>
           cdist (2 ^ k) (home_of k r) p < cdist (2 ^ k) (home_of k r) (unat t) \<Longrightarrow> \<not> stop (ss ! p)"
proof -
  have k: "k < 64" "length ss = 2 ^ k" using ok by (auto simp: table_ok_def)
  obtain e where e: "e < 2 ^ k" "stop (ss ! e)"
    using table_has_empty [OF ok room] stop by blast
  obtain t where t: "t < 2 ^ k" "stop (ss ! t)"
    "\<And>p. p < 2 ^ k \<Longrightarrow> cdist (2 ^ k) (home_of k r) p < cdist (2 ^ k) (home_of k r) t \<Longrightarrow> \<not> stop (ss ! p)"
    using ring_first [of e "2 ^ k" "\<lambda>p. stop (ss ! p)" "home_of k r"] e home_of_less k(1) by blast
  have "\<exists>i'. walk_slots stop ss (mask k) (home_slot (mask k) r) = Some i' \<and> unat i' = t"
    by (rule walk_finds) (use t k home_of_less [of k r] in \<open>auto simp: home_of_def\<close>)
  with t that show thesis by blast
qed

lemma probe_live:
  assumes ok: "table_ok k ss" and room: "card (dom (slots_live ss)) < 2 ^ k"
    and live: "slots_live ss r = Some ord"
  obtains t where "unat t < 2 ^ k" and "probe ss (mask k) r (home_slot (mask k) r) = Some t"
    and "ref_at ss (unat t) = r" and "slot_order (ss ! unat t) = ord" and "r \<noteq> 0"
proof -
  obtain t where t: "unat t < 2 ^ k" "probe ss (mask k) r (home_slot (mask k) r) = Some t"
    "ref_at ss (unat t) = 0 \<or> ref_at ss (unat t) = r"
    "\<And>p. p < 2 ^ k \<Longrightarrow>
       cdist (2 ^ k) (home_of k r) p < cdist (2 ^ k) (home_of k r) (unat t) \<Longrightarrow>
       \<not> (ref_at ss p = 0 \<or> ref_at ss p = r)"
    unfolding probe_def
    by (rule walk_to_slot [OF ok room, of "\<lambda>s. slot_ref s = 0 \<or> slot_ref s = r" r]) auto
  obtain j where j: "j < 2 ^ k" "ref_at ss j = r" "slot_order (ss ! j) = ord" "r \<noteq> 0"
    using live table_live [OF ok] by blast
  have "chain_ok k ss j" using ok j by (auto simp: table_ok_def)
  then have "ref_at ss (unat t) \<noteq> 0 \<or> \<not> cdist (2 ^ k) (home_of k r) (unat t) < cdist (2 ^ k) (home_of k r) j"
    using t(1) j(2) unfolding chain_ok_def by blast
  moreover have "\<not> cdist (2 ^ k) (home_of k r) j < cdist (2 ^ k) (home_of k r) (unat t)"
    using t(4) [OF j(1)] j(2) by blast
  ultimately have "ref_at ss (unat t) = r"
    using t(1,3) j(1,2) home_of_less ok cdist_inj [of "home_of k r" "2 ^ k" j "unat t"]
    by (auto simp: table_ok_def)
  moreover from this have "unat t = j" using ok j t(1) by (auto simp: table_ok_def)
  ultimately show thesis using that [OF t(1,2)] j by simp
qed

lemma probe_not_live:
  assumes ok: "table_ok k ss" and room: "card (dom (slots_live ss)) < 2 ^ k"
    and dead: "slots_live ss r = None"
  obtains t where "unat t < 2 ^ k" and "probe ss (mask k) r (home_slot (mask k) r) = Some t"
    and "ref_at ss (unat t) = 0"
    and "\<And>p. p < 2 ^ k \<Longrightarrow>
           cdist (2 ^ k) (home_of k r) p < cdist (2 ^ k) (home_of k r) (unat t) \<Longrightarrow> ref_at ss p \<noteq> 0"
proof -
  obtain t where t: "unat t < 2 ^ k" "probe ss (mask k) r (home_slot (mask k) r) = Some t"
    "ref_at ss (unat t) = 0 \<or> ref_at ss (unat t) = r"
    "\<And>p. p < 2 ^ k \<Longrightarrow>
       cdist (2 ^ k) (home_of k r) p < cdist (2 ^ k) (home_of k r) (unat t) \<Longrightarrow>
       \<not> (ref_at ss p = 0 \<or> ref_at ss p = r)"
    unfolding probe_def
    by (rule walk_to_slot [OF ok room, of "\<lambda>s. slot_ref s = 0 \<or> slot_ref s = r" r]) auto
  have "ref_at ss (unat t) = 0"
    using t(1,3) table_not_live [OF ok, of r] dead by (cases "r = 0") auto
  then show thesis using that t by blast
qed

section \<open>Updating a table\<close>

lemma table_live_cong:
  assumes "table_ok k ss" and "table_ok k ss'"
    and "\<And>j. j < 2 ^ k \<Longrightarrow> ref_at ss j = x \<or> ref_at ss' j = x \<Longrightarrow> ss' ! j = ss ! j"
  shows "slots_live ss' x = slots_live ss x"
proof -
  have "slots_live ss' x = Some ord \<longleftrightarrow> slots_live ss x = Some ord" for ord
    unfolding table_live [OF assms(1)] table_live [OF assms(2)] using assms(3) by metis
  then show ?thesis by (metis not_None_eq)
qed

lemma table_ok_same_refs:
  assumes "table_ok k ss" and "length ss' = length ss"
    and "\<And>j. j < 2 ^ k \<Longrightarrow> ref_at ss' j = ref_at ss j"
  shows "table_ok k ss'"
proof -
  have "chain_ok k ss' j" if "j < 2 ^ k" "ref_at ss j \<noteq> 0" for j
    using assms(1,3) that unfolding table_ok_def chain_ok_def by metis
  then show ?thesis
    using assms unfolding table_ok_def by metis
qed

lemma table_put:
  assumes ok: "table_ok k ss" and t: "t < 2 ^ k" "ref_at ss t = 0"
    and r: "slot_ref s \<noteq> 0" "slots_live ss (slot_ref s) = None"
    and path: "\<And>p. p < 2 ^ k \<Longrightarrow>
       cdist (2 ^ k) (home_of k (slot_ref s)) p < cdist (2 ^ k) (home_of k (slot_ref s)) t \<Longrightarrow>
       ref_at ss p \<noteq> 0"
  shows "table_ok k (ss[t := s])"
    and "slots_live (ss[t := s]) = (slots_live ss)(slot_ref s \<mapsto> slot_order s)"
proof -
  have len: "length ss = 2 ^ k" using ok by (rule table_length)
  have fresh: "ref_at ss j \<noteq> slot_ref s" if "j < 2 ^ k" for j
    using that r table_not_live [OF ok r(1)] by auto
  have refs: "ref_at (ss[t := s]) j = (if j = t then slot_ref s else ref_at ss j)" if "j < 2 ^ k" for j
    using that t len by (simp add: nth_list_update)
  have chain: "chain_ok k (ss[t := s]) j" if j: "j < 2 ^ k" "ref_at (ss[t := s]) j \<noteq> 0" for j
  proof (cases "j = t")
    case True
    then show ?thesis using path refs r(1) t(1) by (simp add: chain_ok_def)
  next
    case False
    then have "chain_ok k ss j" using ok j refs by (simp add: table_ok_def)
    then show ?thesis using False j refs r(1) by (simp add: chain_ok_def)
  qed
  show ok': "table_ok k (ss[t := s])"
    unfolding table_ok_def
  proof (intro conjI allI impI)
    fix i j assume "i < 2 ^ k" "j < 2 ^ k" "ref_at (ss[t := s]) i \<noteq> 0"
      "ref_at (ss[t := s]) i = ref_at (ss[t := s]) j"
    then show "i = j"
      using ok fresh refs by (auto simp: table_ok_def split: if_splits)
  qed (use ok len chain in \<open>auto simp: table_ok_def\<close>)
  show "slots_live (ss[t := s]) = (slots_live ss)(slot_ref s \<mapsto> slot_order s)"
  proof
    fix x
    show "slots_live (ss[t := s]) x = ((slots_live ss)(slot_ref s \<mapsto> slot_order s)) x"
    proof (cases "x = slot_ref s")
      case True
      then show ?thesis using table_live_at [OF ok' t(1)] refs t(1) r(1) len by simp
    next
      case False
      have "slots_live (ss[t := s]) x = slots_live ss x" if "x \<noteq> 0"
      proof (rule table_live_cong [OF ok ok'])
        fix j assume "j < 2 ^ k" "ref_at ss j = x \<or> ref_at (ss[t := s]) j = x"
        then have "j \<noteq> t" using False that t(2) refs by auto
        then show "ss[t := s] ! j = ss ! j" by simp
      qed
      then show ?thesis using False by (cases "x = 0") auto
    qed
  qed
qed

text \<open>Writing through a pointer to a live order.\<close>

lemma table_store:
  assumes ok: "table_ok k ss" and t: "t < 2 ^ k" "ref_at ss t \<noteq> 0"
  shows "table_ok k (ss[t := (ss ! t)\<lparr>slot_order := ord\<rparr>])"
    and "slots_live (ss[t := (ss ! t)\<lparr>slot_order := ord\<rparr>]) = (slots_live ss)(ref_at ss t \<mapsto> ord)"
proof -
  let ?ss = "ss[t := (ss ! t)\<lparr>slot_order := ord\<rparr>]"
  have len: "length ss = 2 ^ k" using ok by (rule table_length)
  have refs: "ref_at ?ss j = ref_at ss j" if "j < 2 ^ k" for j
    using that t len by (simp add: nth_list_update)
  show ok': "table_ok k ?ss"
    by (rule table_ok_same_refs [OF ok]) (use refs in simp_all)
  show "slots_live ?ss = (slots_live ss)(ref_at ss t \<mapsto> ord)"
  proof
    fix x
    show "slots_live ?ss x = ((slots_live ss)(ref_at ss t \<mapsto> ord)) x"
    proof (cases "x = ref_at ss t")
      case True
      then show ?thesis using table_live_at [OF ok' t(1)] refs t len by simp
    next
      case False
      have "slots_live ?ss x = slots_live ss x"
      proof (rule table_live_cong [OF ok ok'])
        fix j assume "j < 2 ^ k" "ref_at ss j = x \<or> ref_at ?ss j = x"
        then have "j \<noteq> t" using False refs by auto
        then show "?ss ! j = ss ! j" by simp
      qed
      then show ?thesis using False by simp
    qed
  qed
qed

end
