(* ===== verification/Index_Shift.thy ===== *)
theory Index_Shift
  imports Index_Laws
begin

text \<open>
  Deletion by backward shift. The loop keeps the table well formed except at the hole, whose
  stale entry still counts as occupied, until the last hole is blanked. Every entry between
  the hole and the scan position has its home strictly behind the hole, so blanking the hole
  cannot cut its probe chain; beyond the scan position an empty slot already separates it.
\<close>

section \<open>Distances on the ring\<close>

lemma cdist_add:
  "a < n \<Longrightarrow> b < n \<Longrightarrow> c < n \<Longrightarrow> cdist n a b \<le> cdist n a c \<Longrightarrow> cdist n a c = cdist n a b + cdist n b c"
  by (auto simp: cdist_def split: if_splits)

lemma cdist_behind:
  "a < n \<Longrightarrow> h < n \<Longrightarrow> p < n \<Longrightarrow> a \<noteq> h \<Longrightarrow> cdist n h a \<le> cdist n h p \<Longrightarrow> cdist n a p < cdist n a h"
  by (auto simp: cdist_def split: if_splits)

lemma cdist_ahead:
  "a < n \<Longrightarrow> h < n \<Longrightarrow> p < n \<Longrightarrow> cdist n h p < cdist n h a \<Longrightarrow> cdist n a h \<le> cdist n a p"
  by (auto simp: cdist_def split: if_splits)

lemma cdist_next_right:
  "j < n \<Longrightarrow> h < n \<Longrightarrow> ring_next n j \<noteq> h \<Longrightarrow> cdist n h (ring_next n j) = cdist n h j + 1"
  by (auto simp: cdist_def ring_next_def split: if_splits)

lemma cdist_next_full:
  "j < n \<Longrightarrow> h < n \<Longrightarrow> p < n \<Longrightarrow> ring_next n j = h \<Longrightarrow> cdist n h p \<le> cdist n h j"
  by (auto simp: cdist_def ring_next_def split: if_splits)

section \<open>The loop invariant\<close>

definition shift_inv :: "nat \<Rightarrow> slot list \<Rightarrow> nat \<Rightarrow> slot list \<Rightarrow> nat \<Rightarrow> nat \<Rightarrow> bool" where
  "shift_inv k ss0 h0 ss h j \<longleftrightarrow>
     length ss = 2 ^ k \<and> h < 2 ^ k \<and> j < 2 ^ k \<and>
     (\<forall>p < 2 ^ k. ref_at ss p = 0 \<longleftrightarrow> ref_at ss0 p = 0) \<and>
     (\<forall>p < 2 ^ k. p \<noteq> h \<longrightarrow> ref_at ss p \<noteq> 0 \<longrightarrow> chain_ok k ss p) \<and>
     (\<forall>p < 2 ^ k. \<forall>q < 2 ^ k. p \<noteq> h \<longrightarrow> q \<noteq> h \<longrightarrow> ref_at ss p \<noteq> 0 \<longrightarrow>
        ref_at ss p = ref_at ss q \<longrightarrow> p = q) \<and>
     (\<forall>p < 2 ^ k. p \<noteq> h \<longrightarrow> (\<exists>q < 2 ^ k. q \<noteq> h0 \<and> ss0 ! q = ss ! p)) \<and>
     (\<forall>q < 2 ^ k. q \<noteq> h0 \<longrightarrow> ref_at ss0 q \<noteq> 0 \<longrightarrow> (\<exists>p < 2 ^ k. p \<noteq> h \<and> ss ! p = ss0 ! q)) \<and>
     (\<forall>p < 2 ^ k. 0 < cdist (2 ^ k) h p \<longrightarrow> cdist (2 ^ k) h p \<le> cdist (2 ^ k) h j \<longrightarrow>
        ref_at ss p \<noteq> 0 \<and> home_of k (ref_at ss p) \<noteq> h \<and>
        cdist (2 ^ k) h (home_of k (ref_at ss p)) \<le> cdist (2 ^ k) h p)"

lemma shift_invD:
  assumes "shift_inv k ss0 h0 ss h j"
  shows "length ss = 2 ^ k" and "h < 2 ^ k" and "j < 2 ^ k"
    and "\<And>p. p < 2 ^ k \<Longrightarrow> ref_at ss p = 0 \<longleftrightarrow> ref_at ss0 p = 0"
    and "\<And>p. p < 2 ^ k \<Longrightarrow> p \<noteq> h \<Longrightarrow> ref_at ss p \<noteq> 0 \<Longrightarrow> chain_ok k ss p"
    and "\<And>p q. p < 2 ^ k \<Longrightarrow> q < 2 ^ k \<Longrightarrow> p \<noteq> h \<Longrightarrow> q \<noteq> h \<Longrightarrow> ref_at ss p \<noteq> 0 \<Longrightarrow>
           ref_at ss p = ref_at ss q \<Longrightarrow> p = q"
    and "\<And>p. p < 2 ^ k \<Longrightarrow> p \<noteq> h \<Longrightarrow> \<exists>q < 2 ^ k. q \<noteq> h0 \<and> ss0 ! q = ss ! p"
    and "\<And>q. q < 2 ^ k \<Longrightarrow> q \<noteq> h0 \<Longrightarrow> ref_at ss0 q \<noteq> 0 \<Longrightarrow> \<exists>p < 2 ^ k. p \<noteq> h \<and> ss ! p = ss0 ! q"
    and "\<And>p. p < 2 ^ k \<Longrightarrow> 0 < cdist (2 ^ k) h p \<Longrightarrow> cdist (2 ^ k) h p \<le> cdist (2 ^ k) h j \<Longrightarrow>
           ref_at ss p \<noteq> 0 \<and> home_of k (ref_at ss p) \<noteq> h \<and>
           cdist (2 ^ k) h (home_of k (ref_at ss p)) \<le> cdist (2 ^ k) h p"
proof -
  note c = assms [unfolded shift_inv_def]
  show "length ss = 2 ^ k" by (rule c [THEN conjunct1])
  show "h < 2 ^ k" by (rule c [THEN conjunct2, THEN conjunct1])
  show "j < 2 ^ k" by (rule c [THEN conjunct2, THEN conjunct2, THEN conjunct1])
  note c3 = c [THEN conjunct2, THEN conjunct2, THEN conjunct2, THEN conjunct1]
  note c4 = c [THEN conjunct2, THEN conjunct2, THEN conjunct2, THEN conjunct2, THEN conjunct1]
  note c5 = c [THEN conjunct2, THEN conjunct2, THEN conjunct2, THEN conjunct2, THEN conjunct2, THEN conjunct1]
  note c6 = c [THEN conjunct2, THEN conjunct2, THEN conjunct2, THEN conjunct2, THEN conjunct2, THEN conjunct2, THEN conjunct1]
  note c7 = c [THEN conjunct2, THEN conjunct2, THEN conjunct2, THEN conjunct2, THEN conjunct2, THEN conjunct2, THEN conjunct2, THEN conjunct1]
  note c8 = c [THEN conjunct2, THEN conjunct2, THEN conjunct2, THEN conjunct2, THEN conjunct2, THEN conjunct2, THEN conjunct2, THEN conjunct2]
  show "ref_at ss p = 0 \<longleftrightarrow> ref_at ss0 p = 0" if "p < 2 ^ k" for p
    using c3 that by simp
  show "chain_ok k ss p" if "p < 2 ^ k" "p \<noteq> h" "ref_at ss p \<noteq> 0" for p
    using c4 that by simp
  show "p = q" if "p < 2 ^ k" "q < 2 ^ k" "p \<noteq> h" "q \<noteq> h" "ref_at ss p \<noteq> 0" "ref_at ss p = ref_at ss q" for p q
    using c5 that by blast
  show "\<exists>q < 2 ^ k. q \<noteq> h0 \<and> ss0 ! q = ss ! p" if "p < 2 ^ k" "p \<noteq> h" for p
    using c6 that by blast
  show "\<exists>p < 2 ^ k. p \<noteq> h \<and> ss ! p = ss0 ! q" if "q < 2 ^ k" "q \<noteq> h0" "ref_at ss0 q \<noteq> 0" for q
    using c7 that by blast
  show "ref_at ss p \<noteq> 0 \<and> home_of k (ref_at ss p) \<noteq> h \<and>
      cdist (2 ^ k) h (home_of k (ref_at ss p)) \<le> cdist (2 ^ k) h p"
    if "p < 2 ^ k" "0 < cdist (2 ^ k) h p" "cdist (2 ^ k) h p \<le> cdist (2 ^ k) h j" for p
    using c8 that by blast
qed

lemma shift_invI:
  assumes "length ss = 2 ^ k" and "h < 2 ^ k" and "j < 2 ^ k"
    and "\<And>p. p < 2 ^ k \<Longrightarrow> ref_at ss p = 0 \<longleftrightarrow> ref_at ss0 p = 0"
    and "\<And>p. p < 2 ^ k \<Longrightarrow> p \<noteq> h \<Longrightarrow> ref_at ss p \<noteq> 0 \<Longrightarrow> chain_ok k ss p"
    and "\<And>p q. p < 2 ^ k \<Longrightarrow> q < 2 ^ k \<Longrightarrow> p \<noteq> h \<Longrightarrow> q \<noteq> h \<Longrightarrow> ref_at ss p \<noteq> 0 \<Longrightarrow>
           ref_at ss p = ref_at ss q \<Longrightarrow> p = q"
    and "\<And>p. p < 2 ^ k \<Longrightarrow> p \<noteq> h \<Longrightarrow> \<exists>q < 2 ^ k. q \<noteq> h0 \<and> ss0 ! q = ss ! p"
    and "\<And>q. q < 2 ^ k \<Longrightarrow> q \<noteq> h0 \<Longrightarrow> ref_at ss0 q \<noteq> 0 \<Longrightarrow> \<exists>p < 2 ^ k. p \<noteq> h \<and> ss ! p = ss0 ! q"
    and "\<And>p. p < 2 ^ k \<Longrightarrow> 0 < cdist (2 ^ k) h p \<Longrightarrow> cdist (2 ^ k) h p \<le> cdist (2 ^ k) h j \<Longrightarrow>
           ref_at ss p \<noteq> 0 \<and> home_of k (ref_at ss p) \<noteq> h \<and>
           cdist (2 ^ k) h (home_of k (ref_at ss p)) \<le> cdist (2 ^ k) h p"
  shows "shift_inv k ss0 h0 ss h j"
  unfolding shift_inv_def
  using assms(1-3)
  by (intro conjI)
    (assumption | intro allI impI, rule assms(4,5,7,8,9); assumption
      | intro allI impI, rule assms(6); assumption)+

lemma shift_inv_start:
  assumes ok: "table_ok k ss" and "h < 2 ^ k" and "ref_at ss h \<noteq> 0"
  shows "shift_inv k ss h ss h h"
proof -
  have "ref_at ss p \<noteq> 0 \<longrightarrow> ref_at ss p = ref_at ss q \<longrightarrow> p = q" if "p < 2 ^ k" "q < 2 ^ k" for p q
    using ok that unfolding table_ok_def by blast
  moreover have "ref_at ss p \<noteq> 0 \<longrightarrow> chain_ok k ss p" if "p < 2 ^ k" for p
    using ok that unfolding table_ok_def by blast
  ultimately show ?thesis
    using assms(2) table_length [OF ok] by (intro shift_invI) auto
qed

text \<open>Keeping an entry that does not need the hole.\<close>

lemma shift_inv_skip:
  assumes inv: "shift_inv k ss0 h0 ss h j" and "k < 64"
    and t: "t = ring_next (2 ^ k) j" "ref_at ss t \<noteq> 0" "t \<noteq> h"
    and home: "cdist (2 ^ k) h (home_of k (ref_at ss t)) \<le> cdist (2 ^ k) h t"
      "home_of k (ref_at ss t) \<noteq> h"
  shows "shift_inv k ss0 h0 ss h t"
proof -
  have hj: "h < 2 ^ k" "j < 2 ^ k" using shift_invD(2,3) [OF inv] by auto
  have tl: "t < 2 ^ k" using hj t(1) by auto
  have d: "cdist (2 ^ k) h t = cdist (2 ^ k) h j + 1"
    using cdist_next_right [OF hj(2,1)] t by simp
  have "ref_at ss p \<noteq> 0 \<and> home_of k (ref_at ss p) \<noteq> h \<and>
        cdist (2 ^ k) h (home_of k (ref_at ss p)) \<le> cdist (2 ^ k) h p"
    if p: "p < 2 ^ k" "0 < cdist (2 ^ k) h p" "cdist (2 ^ k) h p \<le> cdist (2 ^ k) h t" for p
  proof (cases "p = t")
    case True
    then show ?thesis using t home by simp
  next
    case False
    then have "cdist (2 ^ k) h p \<noteq> cdist (2 ^ k) h t" using cdist_inj [OF hj(1) p(1) tl] by blast
    then have "cdist (2 ^ k) h p \<le> cdist (2 ^ k) h j" using p d by simp
    then show ?thesis using shift_invD(9) [OF inv p(1,2)] by simp
  qed
  then show ?thesis
    by (intro shift_invI [OF shift_invD(1,2) [OF inv] tl shift_invD(4-8) [OF inv]])
qed

text \<open>Moving an entry back over the hole; its old slot is the new hole.\<close>

lemma shift_inv_move:
  assumes inv: "shift_inv k ss0 h0 ss h j" and "k < 64"
    and t: "t < 2 ^ k" "ref_at ss t \<noteq> 0" "t \<noteq> h"
    and home: "cdist (2 ^ k) h t < cdist (2 ^ k) h (home_of k (ref_at ss t)) \<or> home_of k (ref_at ss t) = h"
    and hole: "ref_at ss h \<noteq> 0"
  shows "shift_inv k ss0 h0 (ss[h := ss ! t]) t t"
proof -
  let ?ss = "ss[h := ss ! t]"
  have h: "h < 2 ^ k" "length ss = 2 ^ k" using shift_invD(1,2) [OF inv] by auto
  have nth: "?ss ! p = (if p = h then ss ! t else ss ! p)" if "p < 2 ^ k" for p
    using that h by (simp add: nth_list_update)
  have occ: "ref_at ?ss p = 0 \<longleftrightarrow> ref_at ss p = 0" if "p < 2 ^ k" for p
    using nth [OF that] t hole by auto
  have chain: "chain_ok k ?ss p" if p: "p < 2 ^ k" "p \<noteq> t" "ref_at ?ss p \<noteq> 0" for p
  proof (cases "p = h")
    case False
    then have "chain_ok k ss p" using shift_invD(5) [OF inv p(1)] p nth by auto
    then show ?thesis using False nth p occ by (simp add: chain_ok_def)
  next
    case True
    let ?a = "home_of k (ref_at ss t)"
    have a: "?a < 2 ^ k" using home_of_less assms(2) .
    have "cdist (2 ^ k) ?a h \<le> cdist (2 ^ k) ?a t"
      using home cdist_ahead [OF a h(1) t(1)] by auto
    moreover have "chain_ok k ss t" using shift_invD(5) [OF inv t(1,3,2)] .
    ultimately have "ref_at ss q \<noteq> 0" if "q < 2 ^ k" "cdist (2 ^ k) ?a q < cdist (2 ^ k) ?a h" for q
      using that unfolding chain_ok_def by force
    then show ?thesis using True nth h occ by (simp add: chain_ok_def)
  qed
  have dist: "p = q" if pq: "p < 2 ^ k" "q < 2 ^ k" "p \<noteq> t" "q \<noteq> t" "ref_at ?ss p \<noteq> 0"
    "ref_at ?ss p = ref_at ?ss q" for p q
  proof -
    have *: "x = y" if "x < 2 ^ k" "y < 2 ^ k" "x \<noteq> h" "y \<noteq> h" "ref_at ss x \<noteq> 0" "ref_at ss x = ref_at ss y" for x y
      by (rule shift_invD(6) [OF inv that])
    show ?thesis
      using pq nth [OF pq(1)] nth [OF pq(2)] t *[of p q] *[of t q] *[of p t] by (auto split: if_splits)
  qed
  have from0: "\<exists>q < 2 ^ k. q \<noteq> h0 \<and> ss0 ! q = ?ss ! p" if p: "p < 2 ^ k" "p \<noteq> t" for p
    using shift_invD(7) [OF inv p(1)] shift_invD(7) [OF inv t(1,3)] nth [OF p(1)] by auto
  have to1: "\<exists>p < 2 ^ k. p \<noteq> t \<and> ?ss ! p = ss0 ! q" if q: "q < 2 ^ k" "q \<noteq> h0" "ref_at ss0 q \<noteq> 0" for q
  proof -
    obtain p where p: "p < 2 ^ k" "p \<noteq> h" "ss ! p = ss0 ! q"
      using shift_invD(8) [OF inv q] by blast
    show ?thesis
    proof (cases "p = t")
      case True
      then show ?thesis using p h t(3) nth [OF h(1)] by (intro exI [of _ h]) simp
    next
      case False
      then show ?thesis using p nth [OF p(1)] by (intro exI [of _ p]) simp
    qed
  qed
  have occ0: "ref_at ?ss p = 0 \<longleftrightarrow> ref_at ss0 p = 0" if "p < 2 ^ k" for p
    using shift_invD(4) [OF inv that] occ [OF that] by simp
  show ?thesis
    by (rule shift_invI [OF _ t(1) t(1) occ0 chain dist from0 to1]) (use h in auto)
qed

text \<open>The loop stops at an empty slot \<open>t\<close> and blanks the hole.\<close>

lemma shift_inv_stop:
  assumes inv: "shift_inv k ss0 h0 ss h j" and k: "k < 64"
    and t: "t = ring_next (2 ^ k) j" "ref_at ss t = 0" and hole: "ref_at ss h \<noteq> 0"
    and p: "p < 2 ^ k" "p \<noteq> h" "ref_at ss p \<noteq> 0"
  shows "\<not> cdist (2 ^ k) (home_of k (ref_at ss p)) h < cdist (2 ^ k) (home_of k (ref_at ss p)) p"
proof
  let ?n = "2 ^ k :: nat" and ?a = "home_of k (ref_at ss p)"
  assume lt: "cdist ?n ?a h < cdist ?n ?a p"
  have lim: "h < ?n" "j < ?n" "?a < ?n"
    using shift_invD(2,3) [OF inv] home_of_less [OF k] by auto
  have tl: "t < ?n" "t \<noteq> h" "t \<noteq> p" using lim t hole p by auto
  have dt: "cdist ?n h t = cdist ?n h j + 1"
    using cdist_next_right [OF lim(2,1)] t tl by simp
  have hp: "cdist ?n ?a p = cdist ?n ?a h + cdist ?n h p"
    using cdist_add [OF lim(3,1) p(1)] lt by simp
  show False
  proof (cases "cdist ?n h p \<le> cdist ?n h j")
    case True
    moreover have "0 < cdist ?n h p" using cdist_0_iff [OF lim(1) p(1)] p(2) by auto
    ultimately have "?a \<noteq> h \<and> cdist ?n h ?a \<le> cdist ?n h p"
      using shift_invD(9) [OF inv p(1)] by blast
    then have "cdist ?n ?a p < cdist ?n ?a h"
      using cdist_behind [OF lim(3,1) p(1)] by blast
    with lt show False by simp
  next
    case False
    then have "cdist ?n h t < cdist ?n h p"
      using dt tl(1,3) p(1) lim(1) cdist_inj [of h ?n t p] by force
    moreover have "cdist ?n ?a t \<le> cdist ?n ?a h + cdist ?n h t"
      using lim tl by (auto simp: cdist_def)
    ultimately have "cdist ?n ?a t < cdist ?n ?a p" using hp by simp
    moreover have "chain_ok k ss p" by (rule shift_invD(5) [OF inv p])
    ultimately show False using t(2) tl(1) unfolding chain_ok_def by blast
  qed
qed

lemma shift_finish:
  assumes ok: "table_ok k ss0" and h0: "h0 < 2 ^ k" "ref_at ss0 h0 \<noteq> 0"
    and inv: "shift_inv k ss0 h0 ss h j" and hole: "ref_at ss h \<noteq> 0"
    and t: "t = ring_next (2 ^ k) j" "ref_at ss t = 0"
  shows "table_ok k (ss[h := empty_slot])"
    and "slots_live (ss[h := empty_slot]) = (slots_live ss0)(ref_at ss0 h0 := None)"
proof -
  let ?ss = "ss[h := empty_slot]"
  have k: "k < 64" "1 \<le> k" using ok by (auto simp: table_ok_def)
  have lim: "length ss = 2 ^ k" "h < 2 ^ k" using shift_invD(1,2) [OF inv] .
  have nth: "?ss ! p = (if p = h then empty_slot else ss ! p)" if "p < 2 ^ k" for p
    using that lim by (simp add: nth_list_update)
  have chain: "chain_ok k ?ss p" if p: "p < 2 ^ k" "ref_at ?ss p \<noteq> 0" for p
  proof -
    have p': "p \<noteq> h" "ref_at ss p \<noteq> 0" using p nth [OF p(1)] by (auto simp: empty_slot_def split: if_splits)
    have "chain_ok k ss p" by (rule shift_invD(5) [OF inv p(1) p'])
    moreover have "\<not> cdist (2 ^ k) (home_of k (ref_at ss p)) h < cdist (2 ^ k) (home_of k (ref_at ss p)) p"
      by (rule shift_inv_stop [OF inv k(1) t hole p(1) p'])
    ultimately show ?thesis
      using nth p(1) p'(1) unfolding chain_ok_def by (metis (no_types, lifting))
  qed
  have dist: "p = q" if pq: "p < 2 ^ k" "q < 2 ^ k" "ref_at ?ss p \<noteq> 0" "ref_at ?ss p = ref_at ?ss q" for p q
    using pq nth [OF pq(1)] nth [OF pq(2)] shift_invD(6) [OF inv pq(1,2)]
    by (auto simp: empty_slot_def split: if_splits)
  show ok': "table_ok k ?ss"
    by (rule table_okI [OF _ k(2,1) chain dist]) (use lim in simp_all)
  show "slots_live ?ss = (slots_live ss0)(ref_at ss0 h0 := None)"
  proof
    fix x
    have "slots_live ?ss x = Some y \<longleftrightarrow> ((slots_live ss0)(ref_at ss0 h0 := None)) x = Some y" for y
    proof
      assume "slots_live ?ss x = Some y"
      then obtain p where p: "p < 2 ^ k" "ref_at ?ss p = x" "slot_order (?ss ! p) = y" "x \<noteq> 0"
        using table_live [OF ok'] by blast
      then have p': "p \<noteq> h" "ref_at ss p = x" "slot_order (ss ! p) = y"
        using nth [OF p(1)] by (auto simp: empty_slot_def split: if_splits)
      obtain q where q: "q < 2 ^ k" "q \<noteq> h0" "ss0 ! q = ss ! p"
        using shift_invD(7) [OF inv p(1) p'(1)] by blast
      then have "slots_live ss0 x = Some y"
        unfolding table_live [OF ok] using p(4) p'(2,3) by (intro conjI exI [of _ q]) simp_all
      moreover have "x \<noteq> ref_at ss0 h0"
        using ok q h0 p(4) p'(2) unfolding table_ok_def by metis
      ultimately show "((slots_live ss0)(ref_at ss0 h0 := None)) x = Some y" by simp
    next
      assume "((slots_live ss0)(ref_at ss0 h0 := None)) x = Some y"
      then have x: "x \<noteq> ref_at ss0 h0" "slots_live ss0 x = Some y" by (auto split: if_splits)
      then obtain q where q: "q < 2 ^ k" "ref_at ss0 q = x" "slot_order (ss0 ! q) = y" "x \<noteq> 0"
        using table_live [OF ok] by blast
      then obtain p where p: "p < 2 ^ k" "p \<noteq> h" "ss ! p = ss0 ! q"
        using shift_invD(8) [OF inv q(1)] x(1) by blast
      then show "slots_live ?ss x = Some y"
        unfolding table_live [OF ok'] using q nth by (intro conjI exI [of _ p]) simp_all
    qed
    then show "slots_live ?ss x = ((slots_live ss0)(ref_at ss0 h0 := None)) x"
      by (metis not_None_eq)
  qed
qed

text \<open>The whole loop: it ends, stays inside the table and removes exactly the erased reference.\<close>

lemma backward_shift_loop:
  assumes ok: "table_ok k ss0" and h0: "h0 < 2 ^ k" "ref_at ss0 h0 \<noteq> 0"
    and e: "e < 2 ^ k" "ref_at ss0 e = 0"
    and inv: "shift_inv k ss0 h0 ss (unat h) (unat j)" and hole: "ref_at ss (unat h) \<noteq> 0"
  shows "\<exists>ss'. backward_shift ss (mask k) h j = Some ss' \<and> table_ok k ss' \<and>
           slots_live ss' = (slots_live ss0)(ref_at ss0 h0 := None)"
  using inv hole
proof (induction "cdist (2 ^ k) (ring_next (2 ^ k) (unat j)) e" arbitrary: ss h j rule: less_induct)
  case less
  let ?n = "2 ^ k :: nat" and ?t = "(j + 1) AND mask k"
  have k: "k < 64" using ok by (simp add: table_ok_def)
  note inv = less.prems(1) and hole = less.prems(2)
  have lim: "length ss = ?n" "unat h < ?n" "unat j < ?n" using shift_invD(1-3) [OF inv] .
  have t: "unat ?t = ring_next ?n (unat j)" using unat_next_mask [of k j] k lim by simp
  have tl: "unat ?t < ?n" unfolding t using lim(3) by (rule ring_next_less)
  let ?s = "ss ! unat ?t"
  show ?case
  proof (cases "slot_ref ?s = 0")
    case True
    have "backward_shift ss (mask k) h j = Some (ss[unat h := empty_slot])"
      using True tl lim by (subst backward_shift.simps) (simp add: Let_def)
    then show ?thesis using shift_finish [OF ok h0 inv hole t True] by simp
  next
    case False
    let ?home = "home_slot (mask k) (slot_ref ?s)"
    have home: "unat ?home = home_of k (slot_ref ?s)" by (simp add: home_of_def)
    have hl: "unat ?home < ?n" using home home_of_less [OF k] by simp
    have e': "unat ?t \<noteq> e" using False shift_invD(4) [OF inv e(1)] e(2) by auto
    have neq: "unat ?t \<noteq> unat h"
    proof
      assume "unat ?t = unat h"
      then have "cdist ?n (unat h) e \<le> cdist ?n (unat h) (unat j)"
        using cdist_next_full [OF lim(3,2) e(1)] t by simp
      moreover have "0 < cdist ?n (unat h) e"
        using shift_invD(4) [OF inv e(1)] hole e lim(2) cdist_0_iff [of "unat h" ?n e] by auto
      ultimately show False using shift_invD(9) [OF inv e(1)] shift_invD(4) [OF inv e(1)] e(2) by simp
    qed
    have dj: "unat ((?t - h) AND mask k) = cdist ?n (unat h) (unat ?t)"
      using k lim tl by (intro unat_diff_mask) auto
    have dh: "unat ((?home - h) AND mask k) = cdist ?n (unat h) (unat ?home)"
      using k lim hl by (intro unat_diff_mask) auto
    have le_iff: "(?home - h) AND mask k \<le> (?t - h) AND mask k \<longleftrightarrow>
        cdist ?n (unat h) (home_of k (slot_ref ?s)) \<le> cdist ?n (unat h) (unat ?t)"
      using dj dh home by (simp add: word_le_nat_alt)
    have dh0: "(?home - h) AND mask k = 0 \<longleftrightarrow> unat ?home = unat h"
      using dh cdist_0_iff [OF lim(2) hl] by (metis unat_eq_zero)
    have dec: "cdist ?n (ring_next ?n (unat ?t)) e < cdist ?n (ring_next ?n (unat j)) e"
      using cdist_next [OF tl e(1) e'] cdist_0_iff [OF tl e(1)] e' t by simp
    show ?thesis
    proof (cases "(?home - h) AND mask k \<le> (?t - h) AND mask k \<and> (?home - h) AND mask k \<noteq> 0")
      case True
      then have "shift_inv k ss0 h0 ss (unat h) (unat ?t)"
        using False neq le_iff dh0 home
        by (intro shift_inv_skip [OF inv k t]) auto
      from less.hyps [OF dec this hole] show ?thesis
        using True False tl lim by (subst backward_shift.simps) (simp add: Let_def)
    next
      case mv: False
      then have "shift_inv k ss0 h0 (ss[unat h := ?s]) (unat ?t) (unat ?t)"
        using False neq le_iff dh0 home hole
        by (intro shift_inv_move [OF inv k tl]) auto
      moreover have "ref_at (ss[unat h := ?s]) (unat ?t) \<noteq> 0" using False neq by simp
      ultimately have "\<exists>ss'. backward_shift (ss[unat h := ?s]) (mask k) ?t ?t = Some ss' \<and> table_ok k ss' \<and>
           slots_live ss' = (slots_live ss0)(ref_at ss0 h0 := None)"
        by (rule less.hyps [OF dec])
      then show ?thesis
        using mv False tl lim by (subst backward_shift.simps) (auto simp: Let_def)
    qed
  qed
qed

lemma backward_shift_correct:
  assumes ok: "table_ok k ss" and room: "card (dom (slots_live ss)) < 2 ^ k"
    and h: "unat h < 2 ^ k" "ref_at ss (unat h) \<noteq> 0"
  shows "\<exists>ss'. backward_shift ss (mask k) h h = Some ss' \<and> table_ok k ss' \<and>
           slots_live ss' = (slots_live ss)(ref_at ss (unat h) := None)"
proof -
  obtain e where "e < 2 ^ k" "ref_at ss e = 0" by (rule table_has_empty [OF ok room])
  from backward_shift_loop [OF ok h this shift_inv_start [OF ok h] h(2)] show ?thesis .
qed

end
