(* ===== verification/Index_Map.thy ===== *)
theory Index_Map
  imports Index_Shift
begin

text \<open>
  The order index as a finite map. \<open>index_inv\<close> is the invariant every operation keeps: either
  the table is not allocated yet, or it has \<open>2 ^ k\<close> slots, is well formed, is at most three
  quarters full, and the counters \<open>mask_\<close>, \<open>size_\<close> and \<open>grow_at_\<close> agree with it. The bound
  \<open>k \<le> 33\<close> follows from fewer than \<open>2 ^ 32\<close> live orders, the only resource bound assumed.
\<close>

section \<open>Invariant and abstraction\<close>

definition index_live :: "order_index \<Rightarrow> u64 \<rightharpoonup> order" where
  "index_live idx = slots_live (idx_slots idx)"

definition sized_table :: "nat \<Rightarrow> order_index \<Rightarrow> bool" where
  "sized_table k idx \<longleftrightarrow>
     table_ok k (idx_slots idx) \<and> 8 \<le> k \<and> k \<le> 33 \<and> idx_mask idx = mask k \<and>
     idx_grow_at idx = word_of_nat (2 ^ k - 2 ^ k div 4) \<and>
     idx_size idx = word_of_nat (card (dom (index_live idx)))"

definition index_inv :: "order_index \<Rightarrow> bool" where
  "index_inv idx \<longleftrightarrow>
     idx_slots idx = [] \<and> idx_mask idx = 0 \<and> idx_size idx = 0 \<and> idx_grow_at idx = 0 \<or>
     (\<exists>k. sized_table k idx \<and> card (dom (index_live idx)) \<le> 2 ^ k - 2 ^ k div 4)"

lemma dom_slots_live: "dom (slots_live ss) = slot_ref ` {s \<in> set ss. slot_ref s \<noteq> 0}"
  by (induction ss) (auto simp: slots_live_Cons)

lemma slots_live_snoc:
  "slot_ref s \<notin> dom (slots_live ss) \<Longrightarrow>
     slots_live (ss @ [s]) =
       (if slot_ref s = 0 then slots_live ss else (slots_live ss)(slot_ref s \<mapsto> slot_order s))"
  by (auto simp: slots_live_def map_add_def fun_eq_iff domIff split: option.splits)

lemma slots_live_replicate_empty [simp]: "slots_live (replicate n empty_slot) = Map.empty"
  by (induction n) (simp_all add: slots_live_Cons empty_slot_def)

lemma index_live_empty [simp]: "index_live empty_index = Map.empty"
  by (simp add: index_live_def empty_index_def)

lemma index_inv_empty [simp]: "index_inv empty_index"
  by (simp add: index_inv_def empty_index_def)

lemma index_live_0 [simp]: "index_live idx 0 = None"
  by (simp add: index_live_def)

lemma finite_index_live [simp]: "finite (dom (index_live idx))"
  by (simp add: index_live_def)

lemma index_entries_live: "map_of (index_entries idx) = index_live idx"
  by (simp add: index_entries_def index_live_def slots_live_def)

text \<open>Thresholds of the capacities that occur.\<close>

lemma capacity_bounds:
  assumes "8 \<le> k" and "k \<le> (33::nat)"
  shows "(2::nat) ^ k \<le> 2 ^ 33" and "(2::nat) ^ k - 2 ^ k div 4 < 2 ^ k" and "(256::nat) \<le> 2 ^ k"
    and "(2::nat) ^ k - 2 ^ k div 4 + 2 ^ k div 4 = 2 ^ k" and "4 * ((2::nat) ^ k div 4) = 2 ^ k"
proof -
  show "(2::nat) ^ k \<le> 2 ^ 33" using assms by (intro power_increasing) auto
  show 256: "(256::nat) \<le> 2 ^ k" using power_increasing [of 8 k "2::nat"] assms by simp
  have "(4::nat) dvd 2 ^ k" using le_imp_power_dvd [of 2 k "2::nat"] assms by simp
  then show "4 * ((2::nat) ^ k div 4) = 2 ^ k" by simp
  then show "(2::nat) ^ k - 2 ^ k div 4 < 2 ^ k" "(2::nat) ^ k - 2 ^ k div 4 + 2 ^ k div 4 = 2 ^ k"
    using 256 by auto
qed

lemma index_inv_size:
  assumes "index_inv idx"
  shows "idx_size idx = word_of_nat (card (dom (index_live idx)))"
  using assms by (auto simp: index_inv_def sized_table_def index_live_def)

lemma index_inv_card:
  assumes "index_inv idx"
  shows "card (dom (index_live idx)) < 2 ^ 33"
proof -
  have "card (dom (index_live idx)) < 2 ^ 33"
    if "sized_table k idx" "card (dom (index_live idx)) \<le> 2 ^ k - 2 ^ k div 4" for k
    using that capacity_bounds(1,2) [of k] unfolding sized_table_def by linarith
  then show ?thesis using assms by (auto simp: index_inv_def index_live_def)
qed

lemma index_size_0_iff:
  assumes "index_inv idx"
  shows "idx_size idx = 0 \<longleftrightarrow> index_live idx = Map.empty"
proof -
  have "unat (idx_size idx) = card (dom (index_live idx))"
    using index_inv_size [OF assms] index_inv_card [OF assms] by (simp add: unat_of_nat_64)
  then have "idx_size idx = 0 \<longleftrightarrow> card (dom (index_live idx)) = 0" by (metis unat_eq_zero)
  then show ?thesis by (simp add: dom_eq_empty_conv)
qed

lemma index_inv_table:
  assumes "index_inv idx" and "index_live idx \<noteq> Map.empty"
  obtains k where "sized_table k idx" and "card (dom (index_live idx)) \<le> 2 ^ k - 2 ^ k div 4"
    and "card (dom (slots_live (idx_slots idx))) < 2 ^ k"
proof -
  obtain k where k: "sized_table k idx" "card (dom (index_live idx)) \<le> 2 ^ k - 2 ^ k div 4"
    using assms by (auto simp: index_inv_def index_live_def)
  moreover have "card (dom (slots_live (idx_slots idx))) < 2 ^ k"
    using k capacity_bounds(2) [of k] by (simp add: sized_table_def index_live_def)
  ultimately show thesis by (rule that)
qed

section \<open>Lookup, store and erase\<close>

text \<open>A pointer returned by \<open>find\<close> addresses the slot of the reference.\<close>

definition points_to :: "order_index \<Rightarrow> size_t \<Rightarrow> u64 \<Rightarrow> order \<Rightarrow> bool" where
  "points_to idx i ref ord \<longleftrightarrow>
     unat i < length (idx_slots idx) \<and> ref \<noteq> 0 \<and>
     slot_ref (idx_slots idx ! unat i) = ref \<and> slot_order (idx_slots idx ! unat i) = ord"

lemma index_find_None:
  assumes inv: "index_inv idx" and "index_live idx ref = None"
  shows "index_find idx ref = Some None"
proof (cases "index_live idx = Map.empty")
  case True
  then show ?thesis using index_size_0_iff [OF inv] by (simp add: index_find_def)
next
  case False
  then obtain k where k: "sized_table k idx" "card (dom (slots_live (idx_slots idx))) < 2 ^ k"
    using index_inv_table [OF inv] by metis
  then have ok: "table_ok k (idx_slots idx)" and m: "idx_mask idx = mask k"
    by (auto simp: sized_table_def)
  obtain t where "unat t < 2 ^ k" "probe (idx_slots idx) (mask k) ref (home_slot (mask k) ref) = Some t"
    "slot_ref (idx_slots idx ! unat t) = 0"
    using probe_not_live [OF ok k(2)] assms(2) by (metis index_live_def)
  then show ?thesis
    using table_length [OF ok] m by (simp add: index_find_def)
qed

lemma index_find_Some:
  assumes inv: "index_inv idx" and live: "index_live idx ref = Some ord"
  shows "\<exists>i. index_find idx ref = Some (Some i) \<and> points_to idx i ref ord"
proof -
  have ne: "index_live idx \<noteq> Map.empty" using live by auto
  then obtain k where k: "sized_table k idx" "card (dom (slots_live (idx_slots idx))) < 2 ^ k"
    using index_inv_table [OF inv] by metis
  then have ok: "table_ok k (idx_slots idx)" and m: "idx_mask idx = mask k"
    by (auto simp: sized_table_def)
  obtain t where "unat t < 2 ^ k" "probe (idx_slots idx) (mask k) ref (home_slot (mask k) ref) = Some t"
    "slot_ref (idx_slots idx ! unat t) = ref" "slot_order (idx_slots idx ! unat t) = ord" "ref \<noteq> 0"
    using probe_live [OF ok k(2)] live by (metis index_live_def)
  then show ?thesis
    using table_length [OF ok] m ne index_size_0_iff [OF inv]
    by (simp add: index_find_def points_to_def)
qed

lemma index_deref_points_to: "points_to idx i ref ord \<Longrightarrow> index_deref idx i = Some ord"
  by (simp add: index_deref_def points_to_def)

lemma index_store_points_to:
  assumes inv: "index_inv idx" and p: "points_to idx i ref ord"
  shows "\<exists>idx'. index_store idx i ord' = Some idx' \<and> index_inv idx' \<and>
           index_live idx' = (index_live idx)(ref \<mapsto> ord') \<and> idx_rehashes idx' = idx_rehashes idx"
proof -
  let ?ss = "idx_slots idx"
  let ?idx' = "idx\<lparr>idx_slots := ?ss[unat i := (?ss ! unat i)\<lparr>slot_order := ord'\<rparr>]\<rparr>"
  have i: "unat i < length ?ss" "ref_at ?ss (unat i) = ref" "ref \<noteq> 0"
    using p by (auto simp: points_to_def)
  then have "?ss \<noteq> []" by auto
  then obtain k where k: "sized_table k idx" "card (dom (index_live idx)) \<le> 2 ^ k - 2 ^ k div 4"
    using inv by (auto simp: index_inv_def)
  then have ok: "table_ok k ?ss" by (simp add: sized_table_def)
  have il: "unat i < 2 ^ k" using i table_length [OF ok] by simp
  have live: "index_live ?idx' = (index_live idx)(ref \<mapsto> ord')"
    using table_store(2) [OF ok il] i by (simp add: index_live_def)
  have "ref \<in> dom (index_live idx)"
    using table_live_at [OF ok il] i by (auto simp: index_live_def)
  then have "dom (index_live ?idx') = dom (index_live idx)" using live by auto
  then have "sized_table k ?idx'" "card (dom (index_live ?idx')) \<le> 2 ^ k - 2 ^ k div 4"
    using k table_store(1) [OF ok il] i by (auto simp: sized_table_def)
  then have "index_inv ?idx'" by (auto simp: index_inv_def)
  then show ?thesis using live i by (simp add: index_store_def)
qed

lemma index_erase_correct:
  assumes inv: "index_inv idx"
  shows "\<exists>idx'. index_erase idx ref = Some (ref \<in> dom (index_live idx), idx') \<and> index_inv idx' \<and>
           index_live idx' = (index_live idx)(ref := None) \<and> idx_rehashes idx' = idx_rehashes idx"
proof (cases "index_live idx = Map.empty")
  case True
  then show ?thesis using inv index_size_0_iff [OF inv] by (simp add: index_erase_def)
next
  case False
  then obtain k where k: "sized_table k idx" "card (dom (index_live idx)) \<le> 2 ^ k - 2 ^ k div 4"
    "card (dom (slots_live (idx_slots idx))) < 2 ^ k"
    using index_inv_table [OF inv] by metis
  let ?ss = "idx_slots idx"
  have ok: "table_ok k ?ss" and m: "idx_mask idx = mask k" and sz: "idx_size idx \<noteq> 0"
    using k False index_size_0_iff [OF inv] by (auto simp: sized_table_def)
  show ?thesis
  proof (cases "index_live idx ref")
    case None
    then obtain t where "unat t < 2 ^ k" "probe ?ss (mask k) ref (home_slot (mask k) ref) = Some t"
      "ref_at ?ss (unat t) = 0"
      using probe_not_live [OF ok k(3)] by (metis index_live_def)
    then have "index_erase idx ref = Some (False, idx)"
      using table_length [OF ok] m sz by (simp add: index_erase_def)
    then show ?thesis using None inv by (auto simp: domIff)
  next
    case (Some ord)
    then obtain t where t: "unat t < 2 ^ k" "probe ?ss (mask k) ref (home_slot (mask k) ref) = Some t"
      "ref_at ?ss (unat t) = ref" "ref \<noteq> 0"
      using probe_live [OF ok k(3)] by (metis index_live_def)
    then obtain ss' where ss': "backward_shift ?ss (mask k) t t = Some ss'" "table_ok k ss'"
      "slots_live ss' = (slots_live ?ss)(ref := None)"
      using backward_shift_correct [OF ok k(3), of t] by auto
    let ?idx' = "idx\<lparr>idx_slots := ss', idx_size := idx_size idx - 1\<rparr>"
    have live: "index_live ?idx' = (index_live idx)(ref := None)"
      using ss'(3) by (simp add: index_live_def)
    have in_dom: "ref \<in> dom (index_live idx)" using Some by auto
    then have pos: "0 < card (dom (index_live idx))" by (auto simp: card_gt_0_iff)
    have card: "card (dom (index_live ?idx')) = card (dom (index_live idx)) - 1"
      using in_dom live by simp
    have "sized_table k ?idx'"
      unfolding sized_table_def card using k(1) ss'(2) pos by (simp add: sized_table_def)
    then have "index_inv ?idx'" using card k(2) by (auto simp: index_inv_def)
    moreover have "index_erase idx ref = Some (True, ?idx')"
      using t ss' table_length [OF ok] m sz by (simp add: index_erase_def)
    ultimately show ?thesis using live in_dom by auto
  qed
qed

section \<open>Growth and insertion\<close>

lemma reinsert_step:
  assumes t: "table_ok k (idx_slots idx)" "idx_mask idx = mask k"
    and room: "card (dom (index_live idx)) < 2 ^ k"
    and fresh: "slot_ref s \<noteq> 0" "slot_ref s \<notin> dom (index_live idx)"
  shows "\<exists>ss. reinsert s idx = Some (idx\<lparr>idx_slots := ss, idx_size := idx_size idx + 1\<rparr>) \<and> table_ok k ss \<and>
           slots_live ss = (index_live idx)(slot_ref s \<mapsto> slot_order s)"
proof -
  let ?ss = "idx_slots idx"
  have k: "k < 64" using t(1) by (simp add: table_ok_def)
  have room': "card (dom (slots_live ?ss)) < 2 ^ k" using room by (simp add: index_live_def)
  obtain i where i: "unat i < 2 ^ k" "probe_empty ?ss (mask k) (home_slot (mask k) (slot_ref s)) = Some i"
    "ref_at ?ss (unat i) = 0"
    "\<And>p. p < 2 ^ k \<Longrightarrow> cdist (2 ^ k) (home_of k (slot_ref s)) p < cdist (2 ^ k) (home_of k (slot_ref s)) (unat i) \<Longrightarrow>
       ref_at ?ss p \<noteq> 0"
    unfolding probe_empty_def
    by (rule walk_to_slot [OF t(1) room', of "\<lambda>s. slot_ref s = 0" "slot_ref s"]) auto
  have none: "slots_live ?ss (slot_ref s) = None" using fresh(2) by (auto simp: index_live_def)
  have "reinsert s idx = Some (idx\<lparr>idx_slots := ?ss[unat i := s], idx_size := idx_size idx + 1\<rparr>)"
    using fresh(1) i(1,2) t(2) table_length [OF t(1)] by (simp add: reinsert_def)
  with table_put [OF t(1) i(1,3) fresh(1) none i(4)] show ?thesis
    by (auto simp: index_live_def)
qed

lemma table_ok_empty:
  assumes "1 \<le> k" and "k < 64"
  shows "table_ok k (replicate (2 ^ k) empty_slot)"
proof -
  have "slot_ref (replicate (2 ^ k) empty_slot ! j) = 0" if "j < 2 ^ k" for j
    using that by (simp add: empty_slot_def)
  then show ?thesis using assms by (intro table_okI) simp_all
qed

lemma table_refs_fresh:
  assumes ok: "table_ok k (ys @ s # zs)" and "slot_ref s \<noteq> 0"
  shows "slot_ref s \<notin> dom (slots_live ys)"
proof
  assume "slot_ref s \<in> dom (slots_live ys)"
  then obtain i where i: "i < length ys" "slot_ref (ys ! i) = slot_ref s"
    by (auto simp: dom_slots_live in_set_conv_nth)
  have "length ys < 2 ^ k" using table_length [OF ok] by auto
  then have "i = length ys"
    using ok i assms(2) unfolding table_ok_def
    by (metis less_trans nth_append nth_append_length)
  with i show False by simp
qed

lemma card_prefix_live:
  "card (dom (slots_live ys)) \<le> card (dom (slots_live (ys @ zs)))"
  by (rule card_mono) (auto simp: dom_slots_live)

text \<open>The rebuild keeps every live order.\<close>

lemma foldM_reinsert:
  assumes old: "table_ok k0 old \<or> old = []" and k: "1 \<le> k" "k < 64"
    and room: "card (dom (slots_live old)) < 2 ^ k"
    and start: "idx_slots idx = replicate (2 ^ k) empty_slot" "idx_mask idx = mask k" "idx_size idx = 0"
  shows "\<exists>ss. foldM reinsert old idx =
             Some (idx\<lparr>idx_slots := ss, idx_size := word_of_nat (card (dom (slots_live old)))\<rparr>) \<and>
           table_ok k ss \<and> slots_live ss = slots_live old"
proof -
  define I where "I ys r \<longleftrightarrow> (\<exists>ss. r = idx\<lparr>idx_slots := ss, idx_size := word_of_nat (card (dom (slots_live ys)))\<rparr> \<and>
     table_ok k ss \<and> slots_live ss = slots_live ys)" for ys and r :: order_index
  have "\<exists>s'. foldM reinsert old idx = Some s' \<and> I old s'"
  proof (rule foldM_invariant)
    show "I [] idx"
      unfolding I_def using start table_ok_empty [OF k] by (intro exI [of _ "idx_slots idx"]) simp
  next
    fix ys s zs r assume split: "old = ys @ s # zs" and "I ys r"
    then obtain ss where ss: "r = idx\<lparr>idx_slots := ss, idx_size := word_of_nat (card (dom (slots_live ys)))\<rparr>"
      "table_ok k ss" "slots_live ss = slots_live ys" by (auto simp: I_def)
    show "\<exists>s'. reinsert s r = Some s' \<and> I (ys @ [s]) s'"
    proof (cases "slot_ref s = 0")
      case True
      then have "slots_live (ys @ [s]) = slots_live ys"
        by (simp add: slots_live_def)
      then show ?thesis using True ss by (auto simp: reinsert_def I_def)
    next
      case False
      have fresh: "slot_ref s \<notin> dom (slots_live ys)"
        using old split False table_refs_fresh by auto
      have "card (dom (slots_live ys)) < 2 ^ k"
        using room card_prefix_live [of ys "s # zs"] split by simp
      then obtain ss' where ss': "reinsert s r = Some (r\<lparr>idx_slots := ss', idx_size := idx_size r + 1\<rparr>)"
        "table_ok k ss'" "slots_live ss' = (slots_live ys)(slot_ref s \<mapsto> slot_order s)"
        using reinsert_step [of k r s] ss start(2) False fresh by (auto simp: index_live_def)
      have live: "slots_live (ys @ [s]) = (slots_live ys)(slot_ref s \<mapsto> slot_order s)"
        using slots_live_snoc [OF fresh] False by simp
      have "card (dom (slots_live (ys @ [s]))) = card (dom (slots_live ys)) + 1"
        using fresh by (simp add: live)
      then show ?thesis using ss ss' live by (auto simp: I_def add.commute)
    qed
  qed
  then show ?thesis by (auto simp: I_def)
qed

definition next_capacity :: "nat \<Rightarrow> nat" where
  "next_capacity n = (if n = 0 then 256 else 2 * n)"

lemma index_grow_table:
  assumes old: "idx_slots idx = [] \<or> table_ok k0 (idx_slots idx)"
    and k: "8 \<le> k" "k \<le> 33" "next_capacity (length (idx_slots idx)) = 2 ^ k"
    and room: "card (dom (index_live idx)) < 2 ^ k"
  shows "\<exists>idx'. index_grow idx = Some idx' \<and> sized_table k idx' \<and> index_live idx' = index_live idx \<and>
           idx_rehashes idx' = idx_rehashes idx + (if idx_slots idx = [] then 0 else 1)"
proof -
  let ?old = "idx_slots idx"
  define cap :: size_t where "cap = (if ?old = [] then kInitial else word_of_nat (length ?old) * 2)"
  have cap: "cap = 2 ^ k"
  proof -
    have "cap = word_of_nat (next_capacity (length ?old))"
      by (simp add: cap_def next_capacity_def kInitial_def mult.commute)
    then show ?thesis using k(3) by simp
  qed
  have lt: "(2::nat) ^ k < 2 ^ 64" using k(2) by (intro power_strict_increasing) auto
  have ucap: "unat cap = 2 ^ k" using unat_of_nat_64 [OF lt] cap by simp
  have mask: "cap - 1 = mask k" using cap by (simp add: mask_eq_exp_minus_1)
  have grow_at: "cap - cap div 4 = word_of_nat (2 ^ k - 2 ^ k div 4)"
  proof -
    have "cap div 4 = word_of_nat (2 ^ k div 4)"
      using ucap lt by (simp add: word_unat_eq_iff unat_div unat_of_nat_64)
    then show ?thesis using cap by simp
  qed
  let ?start = "\<lparr>idx_slots = replicate (unat cap) empty_slot, idx_mask = cap - 1, idx_size = 0,
    idx_grow_at = cap - cap div 4,
    idx_rehashes = (if ?old = [] then idx_rehashes idx else idx_rehashes idx + 1)\<rparr>"
  obtain ss where ss: "foldM reinsert ?old ?start =
      Some (?start\<lparr>idx_slots := ss, idx_size := word_of_nat (card (dom (slots_live ?old)))\<rparr>)"
    "table_ok k ss" "slots_live ss = slots_live ?old"
    using foldM_reinsert [of k0 ?old k ?start] old k room ucap mask by (auto simp: index_live_def)
  then show ?thesis
    using k mask grow_at unfolding index_grow_def Let_def cap_def [symmetric]
    by (auto simp: sized_table_def index_live_def)
qed

lemma index_insert_zero [simp]: "index_insert idx 0 qty price buy = Some (False, idx)"
  by (simp add: index_insert_def)

text \<open>Insertion into a table with room.\<close>

lemma insert_with_room:
  assumes t: "sized_table k idx" and room: "card (dom (index_live idx)) < 2 ^ k - 2 ^ k div 4"
    and ref: "ref \<noteq> 0"
  shows "\<exists>idx'. insert_probe idx ref qty price buy = Some (ref \<notin> dom (index_live idx), idx') \<and>
      index_inv idx' \<and>
      index_live idx' =
        (if ref \<in> dom (index_live idx) then index_live idx
         else (index_live idx)(ref \<mapsto> mk_order qty price buy)) \<and>
      idx_rehashes idx' = idx_rehashes idx \<and> length (idx_slots idx') = length (idx_slots idx) \<and>
      (ref \<in> dom (index_live idx) \<longrightarrow> idx' = idx)"
proof -
  let ?ss = "idx_slots idx"
  have ok: "table_ok k ?ss" and m: "idx_mask idx = mask k" and k: "8 \<le> k" "k \<le> 33"
    using t by (auto simp: sized_table_def)
  have room': "card (dom (slots_live ?ss)) < 2 ^ k"
    using room capacity_bounds(2) [OF k] by (simp add: index_live_def)
  show ?thesis
  proof (cases "index_live idx ref")
    case (Some ord)
    then obtain i where "unat i < 2 ^ k" "probe ?ss (mask k) ref (home_slot (mask k) ref) = Some i"
      "ref_at ?ss (unat i) = ref"
      using probe_live [OF ok room'] by (metis index_live_def)
    moreover have "index_inv idx" using t room by (auto simp: index_inv_def intro: less_imp_le)
    ultimately show ?thesis
      using Some ref m table_length [OF ok] by (intro exI [of _ idx]) (auto simp: insert_probe_def)
  next
    case None
    then obtain i where i: "unat i < 2 ^ k" "probe ?ss (mask k) ref (home_slot (mask k) ref) = Some i"
      "ref_at ?ss (unat i) = 0"
      "\<And>p. p < 2 ^ k \<Longrightarrow> cdist (2 ^ k) (home_of k ref) p < cdist (2 ^ k) (home_of k ref) (unat i) \<Longrightarrow>
         ref_at ?ss p \<noteq> 0"
      using probe_not_live [OF ok room', of ref] by (metis index_live_def)
    let ?s = "\<lparr>slot_ref = ref, slot_order = mk_order qty price buy\<rparr>"
    let ?idx' = "idx\<lparr>idx_slots := ?ss[unat i := ?s], idx_size := idx_size idx + 1\<rparr>"
    have put: "table_ok k (?ss[unat i := ?s])"
      "slots_live (?ss[unat i := ?s]) = (slots_live ?ss)(ref \<mapsto> mk_order qty price buy)"
      using table_put [OF ok i(1,3), of ?s] ref None i(4) by (auto simp: index_live_def)
    then have live: "index_live ?idx' = (index_live idx)(ref \<mapsto> mk_order qty price buy)"
      by (simp add: index_live_def)
    have card: "card (dom (index_live ?idx')) = Suc (card (dom (index_live idx)))"
      unfolding live using None by (simp add: domIff)
    have "sized_table k ?idx'"
      unfolding sized_table_def card using t put(1) by (simp add: sized_table_def add.commute)
    then have "index_inv ?idx'" using card room by (auto simp: index_inv_def)
    then show ?thesis
      using i None m table_length [OF ok] live by (intro exI [of _ ?idx']) (simp add: domIff insert_probe_def)
  qed
qed

text \<open>
  One more order would pass three quarters of the slots: then, and only then, \<open>insert\<close> doubles the
  table, from 256 slots on, before it looks at the reference.
\<close>

definition index_full :: "order_index \<Rightarrow> bool" where
  "index_full idx \<longleftrightarrow> 3 * length (idx_slots idx) < 4 * (card (dom (index_live idx)) + 1)"

lemma make_room:
  assumes inv: "index_inv idx" and room: "card (dom (index_live idx)) < 2 ^ 32"
  obtains idx1 k where
    "(if idx_size idx + 1 > idx_grow_at idx then index_grow idx else Some idx) = Some idx1"
    and "sized_table k idx1" and "index_live idx1 = index_live idx"
    and "card (dom (index_live idx)) < 2 ^ k - 2 ^ k div 4"
    and "length (idx_slots idx1) = (if index_full idx then next_capacity (length (idx_slots idx)) else length (idx_slots idx))"
    and "idx_rehashes idx1 = idx_rehashes idx + (if index_full idx \<and> idx_slots idx \<noteq> [] then 1 else 0)"
    and "\<not> index_full idx \<longrightarrow> idx1 = idx"
proof -
  let ?c = "card (dom (index_live idx))"
  have sized: "length (idx_slots i) = 2 ^ k" if "sized_table k i" for k i
    using that table_length by (auto simp: sized_table_def)
  show thesis
  proof (cases "idx_slots idx = []")
    case True
    then have c: "idx_size idx = 0" "idx_grow_at idx = 0" "?c = 0"
      using inv by (auto simp: index_inv_def sized_table_def table_ok_def index_live_def)
    have cap: "next_capacity (length (idx_slots idx)) = 2 ^ 8" using True by (simp add: next_capacity_def)
    then obtain idx1 where "index_grow idx = Some idx1" "sized_table 8 idx1" "index_live idx1 = index_live idx"
      "idx_rehashes idx1 = idx_rehashes idx"
      using index_grow_table [of idx 0 8] True c(3) by auto
    moreover have "index_full idx" using True by (simp add: index_full_def)
    ultimately show thesis by (intro that [of idx1 8]) (use True c cap sized [of 8 idx1] in simp_all)
  next
    case False
    then obtain k where k: "sized_table k idx" "?c \<le> 2 ^ k - 2 ^ k div 4"
      using inv by (auto simp: index_inv_def)
    then have k': "8 \<le> k" "k \<le> 33" "table_ok k (idx_slots idx)" by (auto simp: sized_table_def)
    note b = capacity_bounds [OF k'(1,2)]
    have "?c + 1 < 2 ^ 64" "(2::nat) ^ k - 2 ^ k div 4 < 2 ^ 64" using room b(1,2) by auto
    then have grows: "idx_size idx + 1 > idx_grow_at idx \<longleftrightarrow> ?c + 1 > 2 ^ k - 2 ^ k div 4"
      using k(1) unat_of_nat_64 [of "?c + 1"] unat_of_nat_64 [of "2 ^ k - 2 ^ k div 4"]
      by (simp add: sized_table_def word_less_nat_alt add.commute)
    have "3 * p < 4 * (c + 1) \<longleftrightarrow> p - q < c + 1" if "4 * q = p" for p q c :: nat using that by arith
    from this [OF b(5)] have full: "index_full idx \<longleftrightarrow> ?c + 1 > 2 ^ k - 2 ^ k div 4"
      unfolding index_full_def sized [OF k(1)] .
    show thesis
    proof (cases "?c + 1 > 2 ^ k - 2 ^ k div 4")
      case lt: False
      then show thesis by (intro that [of idx k]) (use k grows full in simp_all)
    next
      case True
      then have "k \<noteq> 33" using room by auto
      then have k1: "8 \<le> Suc k" "Suc k \<le> 33" using k' by auto
      have cap: "next_capacity (length (idx_slots idx)) = 2 ^ Suc k"
        using table_length [OF k'(3)] by (simp add: next_capacity_def)
      have c: "?c < 2 ^ Suc k - 2 ^ Suc k div 4"
        using k(2) b(2) capacity_bounds(5) [OF k1] b(5) b(3) by simp
      with cap obtain idx1 where idx1: "index_grow idx = Some idx1" "sized_table (Suc k) idx1"
        "index_live idx1 = index_live idx" "idx_rehashes idx1 = idx_rehashes idx + 1"
        using index_grow_table [of idx k "Suc k"] k' k1 False by force
      then show thesis
        by (intro that [of idx1 "Suc k"]) (use True grows full c cap False sized [of "Suc k" idx1] in simp_all)
    qed
  qed
qed

lemma index_insert_full:
  assumes inv: "index_inv idx" and room: "card (dom (index_live idx)) < 2 ^ 32" and ref: "ref \<noteq> 0"
  shows "\<exists>idx'. index_insert idx ref qty price buy = Some (ref \<notin> dom (index_live idx), idx') \<and>
      index_inv idx' \<and>
      index_live idx' =
        (if ref \<in> dom (index_live idx) then index_live idx
         else (index_live idx)(ref \<mapsto> mk_order qty price buy)) \<and>
      length (idx_slots idx') =
        (if index_full idx then next_capacity (length (idx_slots idx)) else length (idx_slots idx)) \<and>
      idx_rehashes idx' = idx_rehashes idx + (if index_full idx \<and> idx_slots idx \<noteq> [] then 1 else 0) \<and>
      (ref \<in> dom (index_live idx) \<and> \<not> index_full idx \<longrightarrow> idx' = idx)"
proof -
  obtain idx1 k where g: "(if idx_size idx + 1 > idx_grow_at idx then index_grow idx else Some idx) = Some idx1"
    "sized_table k idx1" "index_live idx1 = index_live idx" "card (dom (index_live idx)) < 2 ^ k - 2 ^ k div 4"
    "length (idx_slots idx1) = (if index_full idx then next_capacity (length (idx_slots idx)) else length (idx_slots idx))"
    "idx_rehashes idx1 = idx_rehashes idx + (if index_full idx \<and> idx_slots idx \<noteq> [] then 1 else 0)"
    "\<not> index_full idx \<longrightarrow> idx1 = idx"
    by (rule make_room [OF inv room])
  have "index_insert idx ref qty price buy = insert_probe idx1 ref qty price buy"
    using g(1) ref by (simp add: index_insert_def)
  moreover have "card (dom (index_live idx1)) < 2 ^ k - 2 ^ k div 4" using g(3,4) by simp
  ultimately show ?thesis
    using insert_with_room [OF g(2) _ ref, of qty price buy] g(3,5-7) by metis
qed

lemma index_insert_correct:
  assumes "index_inv idx" and "card (dom (index_live idx)) < 2 ^ 32" and "ref \<noteq> 0"
  shows "\<exists>idx'. index_insert idx ref qty price buy = Some (ref \<notin> dom (index_live idx), idx') \<and>
      index_inv idx' \<and>
      index_live idx' =
        (if ref \<in> dom (index_live idx) then index_live idx
         else (index_live idx)(ref \<mapsto> mk_order qty price buy))"
  using index_insert_full [OF assms, of qty price buy] by blast

end
