(* ===== verification/Index_Contract.thy ===== *)
theory Index_Contract
  imports Index_Map
begin

text \<open>
  The contract of the order reference index, as the order book relies on it: a finite map from
  non zero references to orders, with a pointer that stays valid until the next change. The
  interpretation discharges it for the open addressing table.
\<close>

section \<open>The side bit\<close>

lemma kSideBit_alt: "kSideBit = push_bit 31 1"
  by (simp add: kSideBit_def)

lemma bit_kSideBit: "bit kSideBit i \<longleftrightarrow> i = 31"
  unfolding kSideBit_alt bit_push_bit_iff by (auto simp: bit_1_iff)

lemma small_qty_iff: "q < 2 ^ 31 \<longleftrightarrow> take_bit 31 q = (q :: u32)"
proof -
  have "take_bit 31 q = q \<longleftrightarrow> unat q mod 2 ^ 31 = unat q"
    by (simp add: word_unat_eq_iff take_bit_eq_mod unat_mod)
  also have "\<dots> \<longleftrightarrow> unat q < 2 ^ 31" by (metis mod_less mod_less_divisor zero_less_numeral zero_less_power)
  finally show ?thesis by (simp add: word_less_nat_alt)
qed

lemma bit_small_qty:
  assumes "q < 2 ^ 31" and "bit (q :: u32) i"
  shows "i < 31"
  using assms unfolding small_qty_iff by (metis bit_take_bit_iff)

lemma order_qty_small: "order_qty ord < 2 ^ 31"
  unfolding small_qty_iff
proof (rule bit_word_eqI)
  fix i assume "i < LENGTH(32)"
  then show "bit (take_bit 31 (order_qty ord)) i \<longleftrightarrow> bit (order_qty ord) i"
    by (auto simp: order_qty_def bit_take_bit_iff bit_and_iff bit_not_iff bit_kSideBit)
qed

lemma order_qty_mk:
  assumes "q < 2 ^ 31"
  shows "order_qty (mk_order q p b) = q"
proof (rule bit_word_eqI)
  fix i assume "i < LENGTH(32)"
  then show "bit (order_qty (mk_order q p b)) i \<longleftrightarrow> bit q i"
    using bit_small_qty [OF assms, of i]
    by (auto simp: order_qty_def mk_order_def bit_and_iff bit_or_iff bit_not_iff bit_kSideBit)
qed

lemma order_buy_mk:
  assumes "q < 2 ^ 31"
  shows "order_buy (mk_order q p b) = b"
proof -
  have "bit (ord_shares (mk_order q p b) AND kSideBit) i \<longleftrightarrow> b \<and> i = 31" for i
    using bit_small_qty [OF assms, of 31] by (auto simp: mk_order_def bit_and_iff bit_or_iff bit_kSideBit)
  then show ?thesis unfolding order_buy_def by (metis bit_0_eq bot_apply bot_bool_def bit_eqI)
qed

lemma order_price_mk [simp]: "ord_price (mk_order q p b) = p"
  by (simp add: mk_order_def)

section \<open>The interface\<close>

locale ref_index =
  fixes inv :: "'i \<Rightarrow> bool" and live :: "'i \<Rightarrow> u64 \<rightharpoonup> order"
    and find :: "'i \<Rightarrow> u64 \<Rightarrow> 'h option option" and deref :: "'i \<Rightarrow> 'h \<Rightarrow> order option"
    and store :: "'i \<Rightarrow> 'h \<Rightarrow> order \<Rightarrow> 'i option"
    and insert :: "'i \<Rightarrow> u64 \<Rightarrow> u32 \<Rightarrow> u32 \<Rightarrow> bool \<Rightarrow> (bool \<times> 'i) option"
    and erase :: "'i \<Rightarrow> u64 \<Rightarrow> (bool \<times> 'i) option"
    and count :: "'i \<Rightarrow> size_t"
  assumes find_absent: "inv i \<Longrightarrow> live i r = None \<Longrightarrow> find i r = Some None"
    and find_live: "inv i \<Longrightarrow> live i r = Some ord \<Longrightarrow>
      \<exists>h. find i r = Some (Some h) \<and> deref i h = Some ord \<and>
          (\<forall>ord'. \<exists>i'. store i h ord' = Some i' \<and> inv i' \<and> live i' = (live i)(r \<mapsto> ord'))"
    and insert_zero: "insert i 0 q p b = Some (False, i)"
    and insert_law: "inv i \<Longrightarrow> r \<noteq> 0 \<Longrightarrow> card (dom (live i)) < 2 ^ 32 \<Longrightarrow>
      \<exists>i'. insert i r q p b = Some (r \<notin> dom (live i), i') \<and> inv i' \<and>
           live i' = (if r \<in> dom (live i) then live i else (live i)(r \<mapsto> mk_order q p b))"
    and erase_law: "inv i \<Longrightarrow>
      \<exists>i'. erase i r = Some (r \<in> dom (live i), i') \<and> inv i' \<and> live i' = (live i)(r := None)"
    and live_zero: "inv i \<Longrightarrow> live i 0 = None"
    and count_law: "inv i \<Longrightarrow> count i = word_of_nat (card (dom (live i)))"
begin

text \<open>A lookup through the pointer reads the map.\<close>

lemma lookup:
  assumes "inv i"
  shows "do { h \<leftarrow> find i r; case h of None \<Rightarrow> Some None | Some h \<Rightarrow> map_option Some (deref i h) } =
     Some (live i r)"
proof (cases "live i r")
  case None
  then show ?thesis using find_absent [OF assms] by simp
next
  case (Some ord)
  from find_live [OF assms this] show ?thesis using Some by auto
qed

text \<open>Presence, as a caller sees it.\<close>

lemma find_iff:
  assumes "inv i"
  obtains h where "find i r = Some h" and "h = None \<longleftrightarrow> live i r = None"
proof (cases "live i r")
  case None
  then show thesis using that find_absent [OF assms] by blast
next
  case (Some ord)
  then show thesis using that find_live [OF assms Some] by auto
qed

lemma insert_any:
  assumes "inv i" and "card (dom (live i)) < 2 ^ 32"
  shows "\<exists>i'. insert i r q p b = Some (r \<noteq> 0 \<and> r \<notin> dom (live i), i') \<and> inv i' \<and>
      live i' = (if r = 0 \<or> r \<in> dom (live i) then live i else (live i)(r \<mapsto> mk_order q p b))"
proof (cases "r = 0")
  case True
  then show ?thesis using insert_zero assms(1) by simp
next
  case False
  then show ?thesis using insert_law [OF assms(1) False assms(2)] by simp
qed

lemma insert_then_erase:
  assumes "inv i" and "card (dom (live i)) < 2 ^ 32" and "r \<noteq> 0" and "live i r = None"
  shows "\<exists>i' i''. insert i r q p b = Some (True, i') \<and> erase i' r = Some (True, i'') \<and>
      inv i'' \<and> live i'' = live i"
proof -
  obtain i' where i': "insert i r q p b = Some (True, i')" "inv i'" "live i' = (live i)(r \<mapsto> mk_order q p b)"
    using insert_law [OF assms(1,3,2), of q p b] assms(4) by (auto simp: domIff)
  from erase_law [OF i'(2), of r] obtain i'' where
    "erase i' r = Some (True, i'')" "inv i''" "live i'' = (live i')(r := None)"
    using i'(3) by (auto simp: domIff)
  moreover have "(live i')(r := None) = live i" using i'(3) assms(4) by (simp add: fun_upd_idem)
  ultimately show ?thesis using i'(1) by auto
qed

end

interpretation ix: ref_index index_inv index_live index_find index_deref index_store
  index_insert index_erase idx_size
proof unfold_locales
  fix i r q p b ord
  show "index_inv i \<Longrightarrow> index_live i r = None \<Longrightarrow> index_find i r = Some None"
    by (rule index_find_None)
  show "\<exists>h. index_find i r = Some (Some h) \<and> index_deref i h = Some ord \<and>
      (\<forall>ord'. \<exists>i'. index_store i h ord' = Some i' \<and> index_inv i' \<and> index_live i' = (index_live i)(r \<mapsto> ord'))"
    if inv: "index_inv i" and live: "index_live i r = Some ord"
  proof -
    obtain h where h: "index_find i r = Some (Some h)" "points_to i h r ord"
      using index_find_Some [OF inv live] by blast
    then show ?thesis using index_deref_points_to [OF h(2)] index_store_points_to [OF inv h(2)] by blast
  qed
  show "index_insert i 0 q p b = Some (False, i)" by simp
  show "index_inv i \<Longrightarrow> r \<noteq> 0 \<Longrightarrow> card (dom (index_live i)) < 2 ^ 32 \<Longrightarrow>
      \<exists>i'. index_insert i r q p b = Some (r \<notin> dom (index_live i), i') \<and> index_inv i' \<and>
           index_live i' = (if r \<in> dom (index_live i) then index_live i
                            else (index_live i)(r \<mapsto> mk_order q p b))"
    using index_insert_correct [of i r q p b] by blast
  show "index_inv i \<Longrightarrow> \<exists>i'. index_erase i r = Some (r \<in> dom (index_live i), i') \<and> index_inv i' \<and>
      index_live i' = (index_live i)(r := None)"
    using index_erase_correct [of i r] by blast
  show "index_live i 0 = None" by simp
  show "index_inv i \<Longrightarrow> idx_size i = word_of_nat (card (dom (index_live i)))"
    by (rule index_inv_size)
qed

end
