(* ===== verification/Order_Book.thy ===== *)
theory Order_Book
  imports Resting_Orders Index_Contract
begin

text \<open>
  The order book of one symbol: \<open>src/book/order_book.h\<close> and \<open>order_book.cc\<close>. Every operation
  returns its result code and the new book; \<open>None\<close> would be an undefined access in the index
  or in a side.
\<close>

datatype apply_result = Applied | UnknownRef | DuplicateRef | ClampedReduce

record order_book =
  ob_orders :: order_index
  ob_bids :: price_levels
  ob_asks :: price_levels
  ob_order_shares :: u64
  ob_level_shares :: u64
  ob_level_orders :: u64

definition new_book :: order_book where
  "new_book = \<lparr>ob_orders = empty_index, ob_bids = new_price_levels Buy 0 kDefaultSpan,
     ob_asks = new_price_levels Sell 0 kDefaultSpan, ob_order_shares = 0, ob_level_shares = 0,
     ob_level_orders = 0\<rparr>"

text \<open>\<open>PriceLevels& side = buy ? bids_ : asks_\<close> and a call on it.\<close>

definition on_side :: "bool \<Rightarrow> (price_levels \<Rightarrow> price_levels option) \<Rightarrow> order_book \<Rightarrow> order_book option" where
  "on_side buy f ob =
     (if buy then map_option (\<lambda>pl. ob\<lparr>ob_bids := pl\<rparr>) (f (ob_bids ob))
      else map_option (\<lambda>pl. ob\<lparr>ob_asks := pl\<rparr>) (f (ob_asks ob)))"

section \<open>The updates\<close>

definition book_add :: "u64 \<Rightarrow> side \<Rightarrow> u32 \<Rightarrow> u32 \<Rightarrow> order_book \<Rightarrow> (apply_result \<times> order_book) option" where
  "book_add ref side shares price ob =
     do { (inserted, orders) \<leftarrow> index_insert (ob_orders ob) ref shares price (side = Buy);
          let ob = ob\<lparr>ob_orders := orders\<rparr>;
          if \<not> inserted then Some (DuplicateRef, ob)
          else do {
            let ob = ob\<lparr>ob_order_shares := ob_order_shares ob + ucast shares\<rparr>;
            ob \<leftarrow> on_side (side = Buy) (pl_add price shares) ob;
            Some (Applied, ob\<lparr>ob_level_shares := ob_level_shares ob + ucast shares,
                             ob_level_orders := ob_level_orders ob + 1\<rparr>) } }"

definition book_reduce :: "u64 \<Rightarrow> u32 \<Rightarrow> order_book \<Rightarrow> (apply_result \<times> order_book) option" where
  "book_reduce ref shares ob =
     do { order_p \<leftarrow> index_find (ob_orders ob) ref;
          case order_p of
            None \<Rightarrow> Some (UnknownRef, ob)
          | Some i \<Rightarrow> do {
              ord \<leftarrow> index_deref (ob_orders ob) i;
              let qty = order_qty ord;
              let price = ord_price ord;
              let buy = order_buy ord;
              let clamped = shares > qty;
              let reduce_by = (if clamped then qty else shares);
              let left = qty - reduce_by;
              orders \<leftarrow> index_store (ob_orders ob) i
                          (ord\<lparr>ord_shares := (if buy then left OR kSideBit else left)\<rparr>);
              let ob = ob\<lparr>ob_orders := orders, ob_order_shares := ob_order_shares ob - ucast reduce_by\<rparr>;
              let dies = (left = 0);
              ob \<leftarrow> (if dies
                     then map_option (\<lambda>ob. ob\<lparr>ob_level_orders := ob_level_orders ob - 1\<rparr>)
                            (on_side buy (pl_remove price reduce_by) ob)
                     else on_side buy (pl_reduce price reduce_by) ob);
              let ob = ob\<lparr>ob_level_shares := ob_level_shares ob - ucast reduce_by\<rparr>;
              ob \<leftarrow> (if dies
                     then map_option (\<lambda>(_, orders). ob\<lparr>ob_orders := orders\<rparr>) (index_erase (ob_orders ob) ref)
                     else Some ob);
              Some (if clamped then ClampedReduce else Applied, ob) } }"

definition book_remove :: "u64 \<Rightarrow> order_book \<Rightarrow> (apply_result \<times> order_book) option" where
  "book_remove ref ob =
     do { order_p \<leftarrow> index_find (ob_orders ob) ref;
          case order_p of
            None \<Rightarrow> Some (UnknownRef, ob)
          | Some i \<Rightarrow> do {
              ord \<leftarrow> index_deref (ob_orders ob) i;
              let qty = order_qty ord;
              let price = ord_price ord;
              let buy = order_buy ord;
              let ob = ob\<lparr>ob_order_shares := ob_order_shares ob - ucast qty\<rparr>;
              ob \<leftarrow> on_side buy (pl_remove price qty) ob;
              let ob = ob\<lparr>ob_level_shares := ob_level_shares ob - ucast qty,
                          ob_level_orders := ob_level_orders ob - 1\<rparr>;
              (_, orders) \<leftarrow> index_erase (ob_orders ob) ref;
              Some (Applied, ob\<lparr>ob_orders := orders\<rparr>) } }"

definition book_replace ::
    "u64 \<Rightarrow> u64 \<Rightarrow> u32 \<Rightarrow> u32 \<Rightarrow> order_book \<Rightarrow> (apply_result \<times> order_book) option" where
  "book_replace original_ref new_ref shares price ob =
     do { original \<leftarrow> index_find (ob_orders ob) original_ref;
          case original of
            None \<Rightarrow> Some (UnknownRef, ob)
          | Some i \<Rightarrow> do {
              taken \<leftarrow> (if new_ref \<noteq> original_ref
                        then map_option (\<lambda>p. p \<noteq> None) (index_find (ob_orders ob) new_ref)
                        else Some False);
              if taken then Some (DuplicateRef, ob)
              else do {
                ord \<leftarrow> index_deref (ob_orders ob) i;
                let side = (if order_buy ord then Buy else Sell);
                (removed, ob) \<leftarrow> book_remove original_ref ob;
                if removed \<noteq> Applied then Some (removed, ob)
                else book_add new_ref side shares price ob } } }"

section \<open>The queries\<close>

definition best_bid :: "order_book \<Rightarrow> level option option" where
  "best_bid ob = pl_best_level (ob_bids ob)"

definition best_ask :: "order_book \<Rightarrow> level option option" where
  "best_ask ob = pl_best_level (ob_asks ob)"

definition live_orders :: "order_book \<Rightarrow> size_t" where
  "live_orders ob = index_size (ob_orders ob)"

definition shares_of :: "order_book \<Rightarrow> u64 \<Rightarrow> u32 option" where
  "shares_of ob ref =
     do { p \<leftarrow> index_find (ob_orders ob) ref;
          case p of None \<Rightarrow> Some 0 | Some i \<Rightarrow> map_option order_qty (index_deref (ob_orders ob) i) }"

definition resting_shares :: "order_book \<Rightarrow> u64" where
  "resting_shares ob = ob_order_shares ob"

definition index_rehashes :: "order_book \<Rightarrow> size_t" where
  "index_rehashes ob = rehashes (ob_orders ob)"

definition book_rebases :: "order_book \<Rightarrow> size_t" where
  "book_rebases ob = rebases (ob_bids ob) + rebases (ob_asks ob)"

definition book_reserve :: "order_book \<Rightarrow> order_book" where
  "book_reserve ob = ob\<lparr>ob_bids := reserve (ob_bids ob), ob_asks := reserve (ob_asks ob)\<rparr>"

section \<open>The self check\<close>

definition check_invariants_fast :: "order_book \<Rightarrow> bool" where
  "check_invariants_fast ob \<longleftrightarrow>
     ob_order_shares ob = ob_level_shares ob \<and> idx_size (ob_orders ob) = ob_level_orders ob"

text \<open>One order of the rebuild, and the rebuilt sides.\<close>

definition credit :: "level omap \<Rightarrow> order \<Rightarrow> level omap" where
  "credit m ord =
     (let p = ord_price ord;
          l = (case omap_find m p of None \<Rightarrow> empty_level | Some l \<Rightarrow> l)
      in omap_set m p (l\<lparr>lv_price := p, lv_shares := lv_shares l + ucast (order_qty ord),
                         lv_orders := lv_orders l + 1\<rparr>))"

definition credit_side :: "u64 \<times> order \<Rightarrow> level omap \<times> level omap \<Rightarrow> level omap \<times> level omap" where
  "credit_side e = (\<lambda>(bids, asks). let ord = snd e in
     if order_buy ord then (credit bids ord, asks) else (bids, credit asks ord))"

definition level_matches :: "level omap \<Rightarrow> level \<Rightarrow> bool" where
  "level_matches computed l \<longleftrightarrow>
     lv_shares l \<noteq> 0 \<and> lv_orders l \<noteq> 0 \<and>
     (case omap_find computed (lv_price l) of None \<Rightarrow> False
      | Some c \<Rightarrow> lv_shares l = lv_shares c \<and> lv_orders l = lv_orders c)"

definition side_matches :: "price_levels \<Rightarrow> level omap \<Rightarrow> bool option" where
  "side_matches stored computed =
     do { ok \<leftarrow> pl_check_invariants stored;
          if \<not> ok then Some False
          else do {
            ls \<leftarrow> pl_levels stored;
            Some (length ls = length computed \<and> list_all (level_matches computed) ls) } }"

definition check_invariants :: "order_book \<Rightarrow> bool option" where
  "check_invariants ob =
     (if \<not> check_invariants_fast ob then Some False
      else (let (bids, asks) = fold credit_side (index_entries (ob_orders ob)) ([], [])
            in do { b \<leftarrow> side_matches (ob_bids ob) bids;
                    if \<not> b then Some False else side_matches (ob_asks ob) asks }))"

end
