(* ===== verification/Book_Laws.thy ===== *)
theory Book_Laws
  imports Order_Book
begin

text \<open>
  The order book against its specification, a map from references to resting orders. Every
  update of the detailed book, index, both ladders of levels and running totals included,
  returns what the specification returns and reaches a book that stands for the
  specification's map.
\<close>

section \<open>The specification\<close>

definition spec_add :: "u64 \<Rightarrow> side \<Rightarrow> u32 \<Rightarrow> u32 \<Rightarrow> resting_map \<Rightarrow> apply_result \<times> resting_map" where
  "spec_add ref side shares price m =
     (if ref = 0 \<or> m ref \<noteq> None then (DuplicateRef, m)
      else (Applied, m(ref \<mapsto> \<lparr>r_side = side, r_qty = unat shares, r_price = price\<rparr>)))"

definition spec_reduce :: "u64 \<Rightarrow> u32 \<Rightarrow> resting_map \<Rightarrow> apply_result \<times> resting_map" where
  "spec_reduce ref shares m =
     (case m ref of
        None \<Rightarrow> (UnknownRef, m)
      | Some ord \<Rightarrow>
          (if unat shares > r_qty ord then ClampedReduce else Applied,
           if unat shares \<ge> r_qty ord then m(ref := None)
           else m(ref \<mapsto> ord\<lparr>r_qty := r_qty ord - unat shares\<rparr>)))"

definition spec_remove :: "u64 \<Rightarrow> resting_map \<Rightarrow> apply_result \<times> resting_map" where
  "spec_remove ref m = (if m ref = None then (UnknownRef, m) else (Applied, m(ref := None)))"

definition spec_replace :: "u64 \<Rightarrow> u64 \<Rightarrow> u32 \<Rightarrow> u32 \<Rightarrow> resting_map \<Rightarrow> apply_result \<times> resting_map" where
  "spec_replace original_ref new_ref shares price m =
     (case m original_ref of
        None \<Rightarrow> (UnknownRef, m)
      | Some ord \<Rightarrow>
          if new_ref \<noteq> original_ref \<and> m new_ref \<noteq> None then (DuplicateRef, m)
          else spec_add new_ref (r_side ord) shares price (m(original_ref := None)))"

section \<open>Abstraction and invariant\<close>

definition order_rest :: "order \<Rightarrow> resting" where
  "order_rest ord = \<lparr>r_side = (if order_buy ord then Buy else Sell), r_qty = unat (order_qty ord),
                     r_price = ord_price ord\<rparr>"

definition rest_map :: "(u64 \<rightharpoonup> order) \<Rightarrow> resting_map" where
  "rest_map live r = map_option order_rest (live r)"

definition book_orders :: "order_book \<Rightarrow> resting_map" where
  "book_orders ob = rest_map (index_live (ob_orders ob))"

definition store_ok :: "price_levels \<Rightarrow> side \<Rightarrow> resting_map \<Rightarrow> bool" where
  "store_ok pl side m \<longleftrightarrow> pl_inv pl \<and> pl_side pl = side \<and> pl_lv pl = level_at m side"

definition book_inv :: "order_book \<Rightarrow> bool" where
  "book_inv ob \<longleftrightarrow>
     index_inv (ob_orders ob) \<and>
     store_ok (ob_bids ob) Buy (book_orders ob) \<and> store_ok (ob_asks ob) Sell (book_orders ob) \<and>
     ob_order_shares ob = word_of_nat (total_qty (book_orders ob)) \<and>
     ob_level_shares ob = word_of_nat (total_qty (book_orders ob)) \<and>
     ob_level_orders ob = word_of_nat (card (dom (book_orders ob))) \<and>
     card (dom (book_orders ob)) < 2 ^ 32"

lemma order_rest_mk:
  "q < 2 ^ 31 \<Longrightarrow> order_rest (mk_order q p b) = \<lparr>r_side = (if b then Buy else Sell), r_qty = unat q, r_price = p\<rparr>"
  by (simp add: order_rest_def order_qty_mk order_buy_mk)

lemma rest_map_upd: "rest_map (live(r \<mapsto> ord)) = (rest_map live)(r \<mapsto> order_rest ord)"
  by (simp add: rest_map_def fun_eq_iff)

lemma rest_map_del: "rest_map (live(r := None)) = (rest_map live)(r := None)"
  by (simp add: rest_map_def fun_eq_iff)

lemma rest_map_None [simp]: "rest_map live r = None \<longleftrightarrow> live r = None"
  by (simp add: rest_map_def)

lemma dom_rest_map [simp]: "dom (rest_map live) = dom live"
  by (auto simp: rest_map_def)

lemma book_inv_new: "book_inv new_book" and book_orders_new: "book_orders new_book = Map.empty"
proof -
  show empty: "book_orders new_book = Map.empty"
    by (simp add: book_orders_def rest_map_def new_book_def fun_eq_iff)
  have span: "64 \<le> unat kDefaultSpan" "64 dvd unat kDefaultSpan" by (simp_all add: kDefaultSpan_def)
  have "store_ok (new_price_levels side 0 kDefaultSpan) side Map.empty" for side
    using new_price_levels_correct [OF span, of side 0] by (simp add: store_ok_def) (simp add: new_price_levels_def)
  then show "book_inv new_book"
    unfolding book_inv_def empty by (simp add: new_book_def)
qed

lemma book_invD:
  assumes "book_inv ob"
  shows "index_inv (ob_orders ob)" and "store_ok (ob_bids ob) Buy (book_orders ob)"
    and "store_ok (ob_asks ob) Sell (book_orders ob)"
    and "ob_order_shares ob = word_of_nat (total_qty (book_orders ob))"
    and "ob_level_shares ob = word_of_nat (total_qty (book_orders ob))"
    and "ob_level_orders ob = word_of_nat (card (dom (book_orders ob)))"
    and "card (dom (book_orders ob)) < 2 ^ 32"
    and "card (dom (index_live (ob_orders ob))) < 2 ^ 32"
  using assms by (simp_all add: book_inv_def book_orders_def)

section \<open>A call on the side of an order\<close>

text \<open>
  When one order changes, the side it rests on follows it and the other side is untouched.
\<close>

lemma on_side_follows:
  assumes stores: "store_ok (ob_bids ob) Buy m" "store_ok (ob_asks ob) Sell m"
    and call: "\<And>pl. store_ok pl (if buy then Buy else Sell) m \<Longrightarrow>
        \<exists>pl'. f pl = Some pl' \<and> store_ok pl' (if buy then Buy else Sell) (m(r := x))"
    and old: "m r = None \<or> (\<exists>ord. m r = Some ord \<and> r_side ord = (if buy then Buy else Sell))"
    and new: "\<And>ord. x = Some ord \<Longrightarrow> r_side ord = (if buy then Buy else Sell)"
  shows "\<exists>bids asks. on_side buy f ob = Some (ob\<lparr>ob_bids := bids, ob_asks := asks\<rparr>) \<and>
      store_ok bids Buy (m(r := x)) \<and> store_ok asks Sell (m(r := x))"
proof (cases buy)
  case True
  then obtain pl' where "f (ob_bids ob) = Some pl'" "store_ok pl' Buy (m(r := x))"
    using call [of "ob_bids ob"] stores by auto
  moreover have "level_at (m(r := x)) Sell = level_at m Sell"
    by (rule level_at_other) (use old new True in auto)
  ultimately show ?thesis using True stores(2)
    by (intro exI [of _ pl'] exI [of _ "ob_asks ob"]) (simp add: on_side_def store_ok_def)
next
  case False
  then obtain pl' where "f (ob_asks ob) = Some pl'" "store_ok pl' Sell (m(r := x))"
    using call [of "ob_asks ob"] stores by auto
  moreover have "level_at (m(r := x)) Buy = level_at m Buy"
    by (rule level_at_other) (use old new False in auto)
  ultimately show ?thesis using False stores(1)
    by (intro exI [of _ "ob_bids ob"] exI [of _ pl']) (simp add: on_side_def store_ok_def)
qed

lemma store_add:
  assumes "store_ok pl side m" and "m r = None" and "card (dom m) + 1 < 2 ^ 32"
  shows "\<exists>pl'. pl_add p q pl = Some pl' \<and>
     store_ok pl' side (m(r \<mapsto> \<lparr>r_side = side, r_qty = unat q, r_price = p\<rparr>))"
  using ps.add_order [of pl m r p q] assms by (auto simp: store_ok_def)

lemma store_reduce:
  assumes "store_ok pl side m" and "m r = Some ord" and "r_side ord = side" and "unat q \<le> r_qty ord"
  shows "\<exists>pl'. pl_reduce (r_price ord) q pl = Some pl' \<and>
     store_ok pl' side (m(r \<mapsto> ord\<lparr>r_qty := r_qty ord - unat q\<rparr>))"
proof -
  have s: "pl_inv pl" "pl_lv pl = level_at m (pl_side pl)" "r_side ord = pl_side pl" "pl_side pl = side"
    using assms(1,3) by (simp_all add: store_ok_def)
  from ps.reduce_order [where m = m, OF s(1,2) assms(2) s(3) assms(4)]
  show ?thesis unfolding store_ok_def s(4) by blast
qed

lemma store_remove:
  assumes "store_ok pl side m" and "m r = Some ord" and "r_side ord = side" and "r_qty ord = unat q"
    and "card (dom m) < 2 ^ 32"
  shows "\<exists>pl'. pl_remove (r_price ord) q pl = Some pl' \<and> store_ok pl' side (m(r := None))"
proof -
  have s: "pl_inv pl" "pl_lv pl = level_at m (pl_side pl)" "r_side ord = pl_side pl" "pl_side pl = side"
    using assms(1,3) by (simp_all add: store_ok_def)
  from ps.remove_order [where m = m, OF s(1,2) assms(2) s(3) assms(4,5)]
  show ?thesis unfolding store_ok_def s(4) by blast
qed

lemma card_put: "m r = None \<Longrightarrow> card (dom (m(r \<mapsto> ord))) = card (dom (m :: resting_map)) + 1"
  by (simp add: domIff)

lemma card_del: "m r = Some ord \<Longrightarrow> card (dom (m :: resting_map)) = card (dom (m(r := None))) + 1"
proof -
  assume "m r = Some ord"
  then have "r \<in> dom m" by (rule domI)
  then show ?thesis using card.remove [OF finite_resting, of r m] by simp
qed

section \<open>Adding\<close>

lemma book_add_correct:
  assumes inv: "book_inv ob" and room: "card (dom (book_orders ob)) + 1 < 2 ^ 32" and qty: "shares < 2 ^ 31"
  shows "\<exists>ob'. book_add ref side shares price ob =
        Some (fst (spec_add ref side shares price (book_orders ob)), ob') \<and> book_inv ob' \<and>
      book_orders ob' = snd (spec_add ref side shares price (book_orders ob))"
proof -
  note parts = book_invD [OF inv]
  let ?m = "book_orders ob"
  let ?new = "\<lparr>r_side = side, r_qty = unat shares, r_price = price\<rparr>"
  obtain idx' where ins: "index_insert (ob_orders ob) ref shares price (side = Buy) =
      Some (ref \<noteq> 0 \<and> ref \<notin> dom (index_live (ob_orders ob)), idx')" "index_inv idx'"
    "index_live idx' = (if ref = 0 \<or> ref \<in> dom (index_live (ob_orders ob)) then index_live (ob_orders ob)
       else (index_live (ob_orders ob))(ref \<mapsto> mk_order shares price (side = Buy)))"
    using ix.insert_any [OF parts(1,8), of ref shares price "side = Buy"] by blast
  show ?thesis
  proof (cases "ref = 0 \<or> ?m ref \<noteq> None")
    case True
    then have ref: "ref = 0 \<or> ref \<in> dom (index_live (ob_orders ob))" by (auto simp: book_orders_def)
    have orders: "book_orders (ob\<lparr>ob_orders := idx'\<rparr>) = ?m"
      using ref ins(3) by (simp add: book_orders_def)
    then have "book_inv (ob\<lparr>ob_orders := idx'\<rparr>)"
      using inv ins(2) unfolding book_inv_def orders by simp
    moreover have "book_add ref side shares price ob = Some (DuplicateRef, ob\<lparr>ob_orders := idx'\<rparr>)"
      using ref ins(1) by (auto simp: book_add_def)
    ultimately show ?thesis using True orders by (simp add: spec_add_def)
  next
    case False
    then have ref: "ref \<noteq> 0" "ref \<notin> dom (index_live (ob_orders ob))" "?m ref = None"
      by (auto simp: book_orders_def)
    have side: "(if side = Buy then Buy else Sell) = side" by (cases side) simp_all
    let ?ob1 = "ob\<lparr>ob_orders := idx', ob_order_shares := ob_order_shares ob + ucast shares\<rparr>"
    have m': "rest_map (index_live idx') = ?m(ref \<mapsto> ?new)"
      using ref ins(3) qty side by (simp add: book_orders_def rest_map_upd order_rest_mk)
    have "\<exists>bids asks. on_side (side = Buy) (pl_add price shares) ?ob1 =
        Some (?ob1\<lparr>ob_bids := bids, ob_asks := asks\<rparr>) \<and>
      store_ok bids Buy (?m(ref \<mapsto> ?new)) \<and> store_ok asks Sell (?m(ref \<mapsto> ?new))"
    proof (rule on_side_follows)
      show "\<exists>pl'. pl_add price shares pl = Some pl' \<and>
          store_ok pl' (if side = Buy then Buy else Sell) (?m(ref \<mapsto> ?new))"
        if "store_ok pl (if side = Buy then Buy else Sell) ?m" for pl
        using store_add [where m = ?m, OF that ref(3) room] unfolding side .
    qed (use parts(2,3) ref(3) side in auto)
    then obtain bids asks where call: "on_side (side = Buy) (pl_add price shares) ?ob1 =
        Some (?ob1\<lparr>ob_bids := bids, ob_asks := asks\<rparr>)"
      "store_ok bids Buy (?m(ref \<mapsto> ?new))" "store_ok asks Sell (?m(ref \<mapsto> ?new))"
      by blast
    let ?ob' = "?ob1\<lparr>ob_bids := bids, ob_asks := asks, ob_level_shares := ob_level_shares ob + ucast shares,
        ob_level_orders := ob_level_orders ob + 1\<rparr>"
    have run: "book_add ref side shares price ob = Some (Applied, ?ob')"
      using ins(1) ref call(1) by (simp add: book_add_def Let_def)
    have orders: "book_orders ?ob' = ?m(ref \<mapsto> ?new)" using m' by (simp add: book_orders_def)
    have "total_qty (?m(ref \<mapsto> ?new)) = total_qty ?m + unat shares"
      using total_qty_put [where m = ?m, OF ref(3)] by simp
    moreover have "card (dom (?m(ref \<mapsto> ?new))) = card (dom ?m) + 1" by (rule card_put [where m = ?m, OF ref(3)])
    ultimately have "book_inv ?ob'"
      unfolding book_inv_def orders using ins(2) call(2,3) parts(4-6) room by (simp add: add.commute)
    then show ?thesis using run orders False by (simp add: spec_add_def)
  qed
qed

section \<open>Reducing and removing\<close>

lemma order_rest_side: "r_side (order_rest ord) = (if order_buy ord then Buy else Sell)"
  and order_rest_qty: "r_qty (order_rest ord) = unat (order_qty ord)"
  and order_rest_price: "r_price (order_rest ord) = ord_price ord"
  by (simp_all add: order_rest_def)

text \<open>A live order: its slot and its abstract form.\<close>

lemma book_live:
  assumes "book_inv ob" and "book_orders ob ref = Some r"
  obtains i ord where "index_find (ob_orders ob) ref = Some (Some i)" and "index_deref (ob_orders ob) i = Some ord"
    and "index_live (ob_orders ob) ref = Some ord" and "r = order_rest ord"
    and "\<forall>ord'. \<exists>idx'. index_store (ob_orders ob) i ord' = Some idx' \<and> index_inv idx' \<and>
           index_live idx' = (index_live (ob_orders ob))(ref \<mapsto> ord')"
proof -
  obtain ord where ord: "index_live (ob_orders ob) ref = Some ord" "r = order_rest ord"
    using assms(2) by (auto simp: book_orders_def rest_map_def)
  show thesis using ix.find_live [OF book_invD(1) [OF assms(1)] ord(1)] ord that by blast
qed

lemma book_absent:
  assumes "book_inv ob" and "book_orders ob ref = None"
  shows "index_find (ob_orders ob) ref = Some None"
  using ix.find_absent [OF book_invD(1) [OF assms(1)]] assms(2) by (simp add: book_orders_def)

lemma card_live: "card (dom (book_orders ob)) = card (dom (index_live (ob_orders ob)))"
  by (simp add: book_orders_def)

text \<open>The state after an order has left the index, its side and the totals.\<close>

lemma book_inv_removed:
  assumes inv: "book_inv ob" and r: "book_orders ob ref = Some r" "r_qty r = unat (q :: u32)"
    and idx: "index_inv idx" "rest_map (index_live idx) = (book_orders ob)(ref := None)"
    and stores: "store_ok bids Buy ((book_orders ob)(ref := None))" "store_ok asks Sell ((book_orders ob)(ref := None))"
    and ob': "ob_orders ob' = idx" "ob_bids ob' = bids" "ob_asks ob' = asks"
      "ob_order_shares ob' = ob_order_shares ob - ucast q" "ob_level_shares ob' = ob_level_shares ob - ucast q"
      "ob_level_orders ob' = ob_level_orders ob - 1"
  shows "book_inv ob'" and "book_orders ob' = (book_orders ob)(ref := None)"
proof -
  note parts = book_invD [OF inv]
  show orders: "book_orders ob' = (book_orders ob)(ref := None)" using ob' idx by (simp add: book_orders_def)
  have "total_qty (book_orders ob) = total_qty ((book_orders ob)(ref := None)) + unat q"
    using total_qty_del [where m = "book_orders ob", OF r(1)] r(2) by simp
  then have "word_of_nat (total_qty (book_orders ob)) - ucast q =
      (word_of_nat (total_qty ((book_orders ob)(ref := None))) :: u64)" by simp
  moreover have card: "card (dom (book_orders ob)) = card (dom ((book_orders ob)(ref := None))) + 1"
    by (rule card_del [where m = "book_orders ob", OF r(1)])
  ultimately show "book_inv ob'"
    unfolding book_inv_def orders using ob' idx stores parts(4-7) card by simp
qed

lemma book_inv_reduced:
  assumes inv: "book_inv ob" and r: "book_orders ob ref = Some r" "unat (q :: u32) \<le> r_qty r"
    and m': "m' = (book_orders ob)(ref \<mapsto> r\<lparr>r_qty := r_qty r - unat q\<rparr>)"
    and idx: "index_inv idx" "rest_map (index_live idx) = m'"
    and stores: "store_ok bids Buy m'" "store_ok asks Sell m'"
    and ob': "ob_orders ob' = idx" "ob_bids ob' = bids" "ob_asks ob' = asks"
      "ob_order_shares ob' = ob_order_shares ob - ucast q" "ob_level_shares ob' = ob_level_shares ob - ucast q"
      "ob_level_orders ob' = ob_level_orders ob"
  shows "book_inv ob'" and "book_orders ob' = m'"
proof -
  note parts = book_invD [OF inv]
  show orders: "book_orders ob' = m'" using ob' idx by (simp add: book_orders_def)
  have "total_qty (book_orders ob) = total_qty m' + unat q"
    using total_qty_upd [where m = "book_orders ob", OF r(1), of "r\<lparr>r_qty := r_qty r - unat q\<rparr>"] r(2)
    unfolding m' by simp
  then have "word_of_nat (total_qty (book_orders ob)) - ucast q = (word_of_nat (total_qty m') :: u64)" by simp
  moreover have "dom m' = dom (book_orders ob)" using r(1) unfolding m' by auto
  ultimately show "book_inv ob'"
    unfolding book_inv_def orders using ob' idx stores parts(4-7) by simp
qed

lemma side_remove:
  assumes inv: "book_inv ob" and live: "index_live (ob_orders ob) ref = Some ord"
    and same: "ob_bids ob1 = ob_bids ob" "ob_asks ob1 = ob_asks ob"
  obtains bids asks where
    "on_side (order_buy ord) (pl_remove (ord_price ord) (order_qty ord)) ob1 = Some (ob1\<lparr>ob_bids := bids, ob_asks := asks\<rparr>)"
    and "store_ok bids Buy ((book_orders ob)(ref := None))" and "store_ok asks Sell ((book_orders ob)(ref := None))"
proof -
  note parts = book_invD [OF inv]
  let ?m = "book_orders ob"
  have r: "?m ref = Some (order_rest ord)" using live by (simp add: book_orders_def rest_map_def)
  have "\<exists>bids asks. on_side (order_buy ord) (pl_remove (ord_price ord) (order_qty ord)) ob1 =
      Some (ob1\<lparr>ob_bids := bids, ob_asks := asks\<rparr>) \<and>
      store_ok bids Buy (?m(ref := None)) \<and> store_ok asks Sell (?m(ref := None))"
  proof (rule on_side_follows)
    show "\<exists>pl'. pl_remove (ord_price ord) (order_qty ord) pl = Some pl' \<and>
        store_ok pl' (if order_buy ord then Buy else Sell) (?m(ref := None))"
      if "store_ok pl (if order_buy ord then Buy else Sell) ?m" for pl
      using store_remove [where m = ?m, OF that r order_rest_side order_rest_qty parts(7)]
      unfolding order_rest_price .
  qed (use parts(2,3) r order_rest_side same in auto)
  then show thesis using that by blast
qed

lemma book_remove_correct:
  assumes inv: "book_inv ob"
  shows "\<exists>ob'. book_remove ref ob = Some (fst (spec_remove ref (book_orders ob)), ob') \<and> book_inv ob' \<and>
      book_orders ob' = snd (spec_remove ref (book_orders ob))"
proof (cases "book_orders ob ref")
  case None
  then show ?thesis using book_absent [OF inv None] inv by (simp add: book_remove_def spec_remove_def)
next
  case (Some r)
  then obtain i ord where ord: "index_find (ob_orders ob) ref = Some (Some i)"
    "index_deref (ob_orders ob) i = Some ord" "index_live (ob_orders ob) ref = Some ord" "r = order_rest ord"
    by (rule book_live [OF inv])
  let ?ob1 = "ob\<lparr>ob_order_shares := ob_order_shares ob - ucast (order_qty ord)\<rparr>"
  obtain bids asks where call: "on_side (order_buy ord) (pl_remove (ord_price ord) (order_qty ord)) ?ob1 =
      Some (?ob1\<lparr>ob_bids := bids, ob_asks := asks\<rparr>)"
    "store_ok bids Buy ((book_orders ob)(ref := None))" "store_ok asks Sell ((book_orders ob)(ref := None))"
    by (rule side_remove [OF inv ord(3), of ?ob1]) simp_all
  obtain idx' where er: "index_erase (ob_orders ob) ref = Some (True, idx')" "index_inv idx'"
    "index_live idx' = (index_live (ob_orders ob))(ref := None)"
    using ix.erase_law [OF book_invD(1) [OF inv], of ref] ord(3) by (auto simp: domI)
  let ?ob' = "?ob1\<lparr>ob_bids := bids, ob_asks := asks,
      ob_level_shares := ob_level_shares ob - ucast (order_qty ord),
      ob_level_orders := ob_level_orders ob - 1, ob_orders := idx'\<rparr>"
  have run: "book_remove ref ob = Some (Applied, ?ob')"
    using ord(1,2) call(1) er(1) by (simp add: book_remove_def Let_def)
  have "r_qty r = unat (order_qty ord)" using ord(4) order_rest_qty by simp
  moreover have "rest_map (index_live idx') = (book_orders ob)(ref := None)"
    unfolding er(3) rest_map_del book_orders_def ..
  ultimately have "book_inv ?ob'" "book_orders ?ob' = (book_orders ob)(ref := None)"
    using book_inv_removed [OF inv Some _ er(2) _ call(2,3), of "order_qty ord" ?ob'] by simp_all
  then show ?thesis using run Some by (simp add: spec_remove_def)
qed

lemma side_reduce:
  assumes inv: "book_inv ob" and live: "index_live (ob_orders ob) ref = Some ord" and q: "q \<le> order_qty ord"
    and same: "ob_bids ob1 = ob_bids ob" "ob_asks ob1 = ob_asks ob"
    and m': "m' = (book_orders ob)(ref \<mapsto> (order_rest ord)\<lparr>r_qty := unat (order_qty ord) - unat q\<rparr>)"
  obtains bids asks where
    "on_side (order_buy ord) (pl_reduce (ord_price ord) q) ob1 = Some (ob1\<lparr>ob_bids := bids, ob_asks := asks\<rparr>)"
    and "store_ok bids Buy m'" and "store_ok asks Sell m'"
proof -
  note parts = book_invD [OF inv]
  let ?m = "book_orders ob"
  have r: "?m ref = Some (order_rest ord)" using live by (simp add: book_orders_def rest_map_def)
  have q': "unat q \<le> r_qty (order_rest ord)" using q by (simp add: order_rest_qty word_le_nat_alt)
  have "\<exists>bids asks. on_side (order_buy ord) (pl_reduce (ord_price ord) q) ob1 =
      Some (ob1\<lparr>ob_bids := bids, ob_asks := asks\<rparr>) \<and> store_ok bids Buy m' \<and> store_ok asks Sell m'"
    unfolding m'
  proof (rule on_side_follows)
    show "\<exists>pl'. pl_reduce (ord_price ord) q pl = Some pl' \<and>
        store_ok pl' (if order_buy ord then Buy else Sell)
          (?m(ref \<mapsto> (order_rest ord)\<lparr>r_qty := unat (order_qty ord) - unat q\<rparr>))"
      if "store_ok pl (if order_buy ord then Buy else Sell) ?m" for pl
      using store_reduce [where m = ?m, OF that r order_rest_side q']
      unfolding order_rest_price order_rest_qty .
  qed (use parts(2,3) r order_rest_side same in auto)
  then show thesis using that by blast
qed

lemma stored_order:
  assumes "left \<le> order_qty ord"
  shows "order_rest (ord\<lparr>ord_shares := (if order_buy ord then left OR kSideBit else left)\<rparr>) =
     (order_rest ord)\<lparr>r_qty := unat left\<rparr>"
proof -
  have "left < 2 ^ 31" using assms order_qty_small by (rule le_less_trans)
  moreover have "ord\<lparr>ord_shares := (if order_buy ord then left OR kSideBit else left)\<rparr> =
      mk_order left (ord_price ord) (order_buy ord)"
    by (simp add: mk_order_def)
  ultimately show ?thesis by (simp add: order_rest_mk) (simp add: order_rest_def)
qed

lemma book_reduce_dies:
  assumes inv: "book_inv ob" and r: "book_orders ob ref = Some r" and all: "r_qty r \<le> unat shares"
  shows "\<exists>ob'. book_reduce ref shares ob =
        Some (if r_qty r < unat shares then ClampedReduce else Applied, ob') \<and> book_inv ob' \<and>
      book_orders ob' = (book_orders ob)(ref := None)"
proof -
  obtain i ord where ord: "index_find (ob_orders ob) ref = Some (Some i)"
    "index_deref (ob_orders ob) i = Some ord" "index_live (ob_orders ob) ref = Some ord" "r = order_rest ord"
    and store: "\<forall>ord'. \<exists>idx'. index_store (ob_orders ob) i ord' = Some idx' \<and> index_inv idx' \<and>
           index_live idx' = (index_live (ob_orders ob))(ref \<mapsto> ord')"
    by (rule book_live [OF inv r])
  have qty: "r_qty r = unat (order_qty ord)" using ord(4) order_rest_qty by simp
  have all_of: "\<not> order_qty ord < shares \<Longrightarrow> shares = order_qty ord"
    using all qty by (simp add: word_less_nat_alt word_unat_eq_iff)
  let ?ord' = "ord\<lparr>ord_shares := (if order_buy ord then 0 OR kSideBit else 0)\<rparr>"
  obtain idx1 where st: "index_store (ob_orders ob) i ?ord' = Some idx1" "index_inv idx1"
    "index_live idx1 = (index_live (ob_orders ob))(ref \<mapsto> ?ord')"
    using store [rule_format, of ?ord'] by (elim exE conjE)
  let ?ob1 = "ob\<lparr>ob_orders := idx1, ob_order_shares := ob_order_shares ob - ucast (order_qty ord)\<rparr>"
  obtain bids asks where call: "on_side (order_buy ord) (pl_remove (ord_price ord) (order_qty ord)) ?ob1 =
      Some (?ob1\<lparr>ob_bids := bids, ob_asks := asks\<rparr>)"
    "store_ok bids Buy ((book_orders ob)(ref := None))" "store_ok asks Sell ((book_orders ob)(ref := None))"
    by (rule side_remove [OF inv ord(3), of ?ob1]) simp_all
  obtain idx' where er: "index_erase idx1 ref = Some (True, idx')" "index_inv idx'"
    "index_live idx' = (index_live idx1)(ref := None)"
    using ix.erase_law [OF st(2), of ref] st(3) by auto
  have m': "rest_map (index_live idx') = (book_orders ob)(ref := None)"
    unfolding er(3) st(3) by (simp add: rest_map_del book_orders_def)
  let ?ob' = "?ob1\<lparr>ob_bids := bids, ob_asks := asks, ob_level_orders := ob_level_orders ob - 1,
      ob_level_shares := ob_level_shares ob - ucast (order_qty ord), ob_orders := idx'\<rparr>"
  have "book_reduce ref shares ob =
      Some (if shares > order_qty ord then ClampedReduce else Applied, ?ob')"
    using ord(1,2) st(1) call(1) er(1) all_of
    by (cases "order_buy ord"; cases "order_qty ord < shares") (simp_all add: book_reduce_def Let_def)
  moreover have "shares > order_qty ord \<longleftrightarrow> r_qty r < unat shares" by (simp add: qty word_less_nat_alt)
  moreover have "book_inv ?ob'" "book_orders ?ob' = (book_orders ob)(ref := None)"
    using book_inv_removed [OF inv r qty er(2) m' call(2,3), of ?ob'] by simp_all
  ultimately show ?thesis by simp
qed

lemma book_reduce_lives:
  assumes inv: "book_inv ob" and r: "book_orders ob ref = Some r" and part: "unat shares < r_qty r"
  shows "\<exists>ob'. book_reduce ref shares ob = Some (Applied, ob') \<and> book_inv ob' \<and>
      book_orders ob' = (book_orders ob)(ref \<mapsto> r\<lparr>r_qty := r_qty r - unat shares\<rparr>)"
proof -
  obtain i ord where ord: "index_find (ob_orders ob) ref = Some (Some i)"
    "index_deref (ob_orders ob) i = Some ord" "index_live (ob_orders ob) ref = Some ord" "r = order_rest ord"
    and store: "\<forall>ord'. \<exists>idx'. index_store (ob_orders ob) i ord' = Some idx' \<and> index_inv idx' \<and>
           index_live idx' = (index_live (ob_orders ob))(ref \<mapsto> ord')"
    by (rule book_live [OF inv r])
  have qty: "r_qty r = unat (order_qty ord)" using ord(4) order_rest_qty by simp
  have lt: "shares < order_qty ord" using part qty by (simp add: word_less_nat_alt)
  then have le: "shares \<le> order_qty ord" by simp
  let ?left = "order_qty ord - shares"
  have left: "?left \<le> order_qty ord" "unat ?left = unat (order_qty ord) - unat shares" "?left \<noteq> 0"
    using word_sub_le [OF le] unat_sub [OF le] lt by auto
  let ?ord' = "ord\<lparr>ord_shares := (if order_buy ord then ?left OR kSideBit else ?left)\<rparr>"
  obtain idx1 where st: "index_store (ob_orders ob) i ?ord' = Some idx1" "index_inv idx1"
    "index_live idx1 = (index_live (ob_orders ob))(ref \<mapsto> ?ord')"
    using store [rule_format, of ?ord'] by (elim exE conjE)
  let ?m' = "(book_orders ob)(ref \<mapsto> (order_rest ord)\<lparr>r_qty := unat (order_qty ord) - unat shares\<rparr>)"
  let ?ob1 = "ob\<lparr>ob_orders := idx1, ob_order_shares := ob_order_shares ob - ucast shares\<rparr>"
  obtain bids asks where call: "on_side (order_buy ord) (pl_reduce (ord_price ord) shares) ?ob1 =
      Some (?ob1\<lparr>ob_bids := bids, ob_asks := asks\<rparr>)" "store_ok bids Buy ?m'" "store_ok asks Sell ?m'"
    by (rule side_reduce [OF inv ord(3) le _ _ refl, of ?ob1]) (simp, simp, blast)
  have m': "rest_map (index_live idx1) = ?m'"
    unfolding st(3) rest_map_upd stored_order [OF left(1)] left(2) book_orders_def ..
  let ?ob' = "?ob1\<lparr>ob_bids := bids, ob_asks := asks, ob_level_shares := ob_level_shares ob - ucast shares\<rparr>"
  have "book_reduce ref shares ob = Some (Applied, ?ob')"
    using ord(1,2) st(1) call(1) left(3) not_less_iff_gr_or_eq [THEN iffD2, OF disjI1, OF lt]
    by (cases "order_buy ord") (simp_all add: book_reduce_def Let_def)
  moreover have "book_inv ?ob'" "book_orders ?ob' = ?m'"
    using book_inv_reduced [OF inv r _ _ st(2) m' call(2,3), of shares ?ob'] part qty ord(4) by simp_all
  ultimately show ?thesis using qty ord(4) by simp
qed

lemma book_reduce_correct:
  assumes inv: "book_inv ob"
  shows "\<exists>ob'. book_reduce ref shares ob = Some (fst (spec_reduce ref shares (book_orders ob)), ob') \<and>
      book_inv ob' \<and> book_orders ob' = snd (spec_reduce ref shares (book_orders ob))"
proof (cases "book_orders ob ref")
  case None
  then show ?thesis using book_absent [OF inv None] inv by (simp add: book_reduce_def spec_reduce_def)
next
  case (Some r)
  show ?thesis
  proof (cases "r_qty r \<le> unat shares")
    case True
    then show ?thesis using book_reduce_dies [OF inv Some True] Some by (simp add: spec_reduce_def)
  next
    case False
    then have part: "unat shares < r_qty r" by simp
    show ?thesis using book_reduce_lives [OF inv Some part] Some False by (simp add: spec_reduce_def)
  qed
qed

section \<open>Replacing\<close>

lemma book_replace_correct:
  assumes inv: "book_inv ob" and qty: "shares < 2 ^ 31"
  shows "\<exists>ob'. book_replace original_ref new_ref shares price ob =
        Some (fst (spec_replace original_ref new_ref shares price (book_orders ob)), ob') \<and> book_inv ob' \<and>
      book_orders ob' = snd (spec_replace original_ref new_ref shares price (book_orders ob))"
proof (cases "book_orders ob original_ref")
  case None
  then show ?thesis using book_absent [OF inv None] inv by (simp add: book_replace_def spec_replace_def)
next
  case (Some r)
  let ?m = "book_orders ob"
  obtain i ord where ord: "index_find (ob_orders ob) original_ref = Some (Some i)"
    "index_deref (ob_orders ob) i = Some ord" "index_live (ob_orders ob) original_ref = Some ord" "r = order_rest ord"
    by (rule book_live [OF inv Some])
  obtain h where h: "index_find (ob_orders ob) new_ref = Some h" "h = None \<longleftrightarrow> ?m new_ref = None"
    using ix.find_iff [OF book_invD(1) [OF inv], of new_ref] by (auto simp: book_orders_def)
  show ?thesis
  proof (cases "new_ref \<noteq> original_ref \<and> ?m new_ref \<noteq> None")
    case True
    then obtain x where "h = Some x" using h(2) by (cases h) simp_all
    then show ?thesis using True ord(1) h(1) Some inv by (auto simp: book_replace_def spec_replace_def)
  next
    case False
    obtain ob1 where ob1: "book_remove original_ref ob = Some (Applied, ob1)" "book_inv ob1"
      "book_orders ob1 = ?m(original_ref := None)"
      using book_remove_correct [OF inv, of original_ref] Some by (auto simp: spec_remove_def)
    have room: "card (dom (book_orders ob1)) + 1 < 2 ^ 32"
      using card_del [where m = ?m, OF Some] book_invD(7) [OF inv] unfolding ob1(3) by linarith
    have side: "(if order_buy ord then Buy else Sell) = r_side r" using ord(4) order_rest_side by simp
    have "book_replace original_ref new_ref shares price ob = book_add new_ref (r_side r) shares price ob1"
      using ord(1,2) h False ob1(1) side by (auto simp: book_replace_def Let_def)
    then show ?thesis
      using book_add_correct [OF ob1(2) room qty, of new_ref "r_side r" price] Some False ob1(3)
      by (auto simp: spec_replace_def)
  qed
qed

end
