(* ===== verification/Book_View.thy ===== *)
theory Book_View
  imports Book_Laws
begin

text \<open>
  The queries of the order book against its specification: best levels, quantities, counts and
  the runtime check that rebuilds both sides from the index.
\<close>

section \<open>Queries\<close>

lemma book_qty_bound:
  assumes "book_orders ob r = Some ord"
  shows "r_qty ord < 2 ^ 31"
proof -
  obtain w where "r_qty ord = unat (order_qty w)"
    using assms by (auto simp: book_orders_def rest_map_def order_rest_def)
  then show ?thesis using order_qty_small [of w] by (simp add: word_less_nat_alt)
qed

lemma sum_qty_bound: "(\<Sum>r \<in> S. qty_of (book_orders ob) r) \<le> card (S :: u64 set) * 2 ^ 31"
proof -
  have "qty_of (book_orders ob) r \<le> 2 ^ 31" for r
    using book_qty_bound [of ob r] by (auto simp: qty_of_def split: option.split)
  then have "(\<Sum>r \<in> S. qty_of (book_orders ob) r) \<le> (\<Sum>r \<in> S. 2 ^ 31)" by (rule sum_mono)
  then show ?thesis by simp
qed

lemma total_qty_bound:
  assumes "book_inv ob"
  shows "total_qty (book_orders ob) < 2 ^ 64"
proof -
  have "total_qty (book_orders ob) \<le> card (dom (book_orders ob)) * 2 ^ 31"
    unfolding total_qty_def by (rule sum_qty_bound)
  also have "\<dots> < 2 ^ 32 * 2 ^ 31" using book_invD(7) [OF assms] by simp
  finally show ?thesis by simp
qed

lemma qty_at_bound:
  assumes "book_inv ob"
  shows "qty_at (book_orders ob) side p < 2 ^ 64"
proof -
  have "qty_at (book_orders ob) side p \<le> card (refs_at (book_orders ob) side p) * 2 ^ 31"
    unfolding qty_at_def by (rule sum_qty_bound)
  also have "\<dots> \<le> card (dom (book_orders ob)) * 2 ^ 31" using card_refs_at by simp
  also have "\<dots> < 2 ^ 32 * 2 ^ 31" using book_invD(7) [OF assms] by simp
  finally show ?thesis by simp
qed

lemma resting_shares_exact:
  assumes "book_inv ob"
  shows "unat (resting_shares ob) = total_qty (book_orders ob)"
  using total_qty_bound [OF assms] book_invD(4) [OF assms] by (simp add: resting_shares_def unat_of_nat_64)

lemma live_orders_exact:
  assumes "book_inv ob"
  shows "unat (live_orders ob) = card (dom (book_orders ob))"
proof -
  have "live_orders ob = word_of_nat (card (dom (book_orders ob)))"
    using ix.count_law [OF book_invD(1) [OF assms]] by (simp add: live_orders_def book_orders_def)
  moreover have "card (dom (book_orders ob)) < 2 ^ 64" using book_invD(7) [OF assms] by simp
  ultimately show ?thesis by (simp only: unat_of_nat_64)
qed

lemma shares_of_exact:
  assumes "book_inv ob"
  shows "\<exists>q. shares_of ob ref = Some q \<and> unat q = qty_of (book_orders ob) ref"
proof (cases "book_orders ob ref")
  case None
  then show ?thesis using book_absent [OF assms None] by (simp add: shares_of_def qty_of_def)
next
  case (Some r)
  then obtain i ord where "index_find (ob_orders ob) ref = Some (Some i)"
    "index_deref (ob_orders ob) i = Some ord" "r = order_rest ord"
    by (rule book_live [OF assms]) blast
  then show ?thesis using Some by (simp add: shares_of_def qty_of_def order_rest_def)
qed

lemma best_levels_correct:
  assumes "book_inv ob"
  shows "best_bid ob = Some (side_best Buy (level_at (book_orders ob) Buy))"
    and "best_ask ob = Some (side_best Sell (level_at (book_orders ob) Sell))"
  using book_invD(2,3) [OF assms] ps.best_law [of "ob_bids ob"] ps.best_law [of "ob_asks ob"]
  by (simp_all add: best_bid_def best_ask_def store_ok_def)

lemma book_reserve_correct:
  assumes "book_inv ob"
  shows "book_inv (book_reserve ob)" and "book_orders (book_reserve ob) = book_orders ob"
proof -
  show orders: "book_orders (book_reserve ob) = book_orders ob"
    by (simp add: book_orders_def book_reserve_def)
  have "store_ok (reserve pl) side m" if "store_ok pl side m" for pl side m
    using that ensure_cells_correct [of pl] by (simp add: store_ok_def reserve_def same_frame_def)
  then show "book_inv (book_reserve ob)"
    using assms unfolding book_inv_def orders by (simp add: book_reserve_def)
qed

section \<open>Rebuilding the sides from the index\<close>

lemma distinct_nonzero:
  assumes "\<And>i j. i < length xs \<Longrightarrow> j < length xs \<Longrightarrow> xs ! i \<noteq> (0 :: u64) \<Longrightarrow> xs ! i = xs ! j \<Longrightarrow> i = j"
  shows "distinct (filter (\<lambda>x. x \<noteq> 0) xs)"
  using assms
proof (induction xs)
  case (Cons x xs)
  have tail: "i = j" if "i < length xs" "j < length xs" "xs ! i \<noteq> 0" "xs ! i = xs ! j" for i j
    using Cons.prems [of "Suc i" "Suc j"] that by simp
  have "x \<notin> set xs" if "x \<noteq> 0"
  proof
    assume "x \<in> set xs"
    then obtain j where "j < length xs" "xs ! j = x" by (auto simp: in_set_conv_nth)
    then show False using Cons.prems [of 0 "Suc j"] that by simp
  qed
  then show ?case using Cons.IH [OF tail] by auto
qed simp

lemma index_entries_keys: "map fst (index_entries idx) = filter (\<lambda>r. r \<noteq> 0) (map slot_ref (idx_slots idx))"
proof -
  have "map fst [(slot_ref s, slot_order s). s \<leftarrow> ss, slot_ref s \<noteq> 0] = filter (\<lambda>r. r \<noteq> 0) (map slot_ref ss)" for ss
    by (induction ss) simp_all
  then show ?thesis by (simp add: index_entries_def)
qed

lemma index_entries_distinct:
  assumes "index_inv idx"
  shows "distinct (map fst (index_entries idx))"
  unfolding index_entries_keys
proof (rule distinct_nonzero)
  fix i j assume *: "i < length (map slot_ref (idx_slots idx))" "j < length (map slot_ref (idx_slots idx))"
    "map slot_ref (idx_slots idx) ! i \<noteq> 0" "map slot_ref (idx_slots idx) ! i = map slot_ref (idx_slots idx) ! j"
  then have "idx_slots idx \<noteq> []" by auto
  then obtain k where "table_ok k (idx_slots idx)" using assms by (auto simp: index_inv_def sized_table_def)
  then show "i = j" using * by (simp add: table_ok_def)
qed

definition rebuilt :: "level omap \<Rightarrow> side \<Rightarrow> resting_map \<Rightarrow> bool" where
  "rebuilt computed side m \<longleftrightarrow> omap_inv computed \<and> omap_find computed = level_at m side"

lemma credit_add_level:
  "credit m ord = omap_set m (ord_price ord) (add_level (ord_price ord) (order_qty ord) (omap_find m (ord_price ord)))"
  by (simp add: credit_def add_level_def Let_def)

lemma rebuilt_credit:
  assumes "rebuilt computed side m" and "m r = None" and "side = (if order_buy ord then Buy else Sell)"
  shows "rebuilt (credit computed ord) side (m(r \<mapsto> order_rest ord))"
proof -
  have "order_rest ord = \<lparr>r_side = side, r_qty = unat (order_qty ord), r_price = ord_price ord\<rparr>"
    using assms(3) by (simp add: order_rest_def)
  then show ?thesis
    using assms(1) level_at_put [where m = m, OF assms(2), of side "order_qty ord" "ord_price ord"]
    by (simp add: rebuilt_def credit_add_level om.inv_put omap_find_set)
qed

lemma rebuilt_other:
  assumes "rebuilt computed side m" and "m r = None" and "r_side x \<noteq> side"
  shows "rebuilt computed side (m(r \<mapsto> x))"
  using assms level_at_other [of m r side "Some x"] by (simp add: rebuilt_def)

lemma fold_credit:
  assumes "distinct (map fst es)" and "\<And>r. r \<in> fst ` set es \<Longrightarrow> m r = None"
    and "rebuilt bids Buy m" and "rebuilt asks Sell m"
  shows "\<exists>bids' asks'. fold credit_side es (bids, asks) = (bids', asks') \<and>
      rebuilt bids' Buy (m ++ rest_map (map_of es)) \<and> rebuilt asks' Sell (m ++ rest_map (map_of es))"
  using assms
proof (induction es arbitrary: m bids asks)
  case Nil
  then show ?case by (simp add: rest_map_def [abs_def] map_add_def)
next
  case (Cons e es)
  obtain r ord where e: "e = (r, ord)" by (cases e)
  let ?m = "m(r \<mapsto> order_rest ord)"
  have r: "m r = None" using Cons.prems(2) e by simp
  let ?st = "credit_side e (bids, asks)"
  have st: "rebuilt (fst ?st) Buy ?m" "rebuilt (snd ?st) Sell ?m"
    using rebuilt_credit [where m = m, OF Cons.prems(3) r] rebuilt_credit [where m = m, OF Cons.prems(4) r]
      rebuilt_other [where m = m, OF Cons.prems(3) r] rebuilt_other [where m = m, OF Cons.prems(4) r] e
    by (auto simp: credit_side_def Let_def order_rest_side)
  have fresh: "?m r' = None" if "r' \<in> fst ` set es" for r'
    using that Cons.prems(1,2) e by auto
  have "m ++ rest_map (map_of (e # es)) = ?m ++ rest_map (map_of es)"
  proof
    fix r'
    have "map_of es r = None" using Cons.prems(1) e by (simp add: map_of_eq_None_iff)
    then show "(m ++ rest_map (map_of (e # es))) r' = (?m ++ rest_map (map_of es)) r'"
      using e by (auto simp: map_add_def rest_map_def split: option.split)
  qed
  moreover have "distinct (map fst es)" using Cons.prems(1) by simp
  from Cons.IH [OF this fresh st]
  have "\<exists>bids' asks'. fold credit_side es ?st = (bids', asks') \<and>
      rebuilt bids' Buy (?m ++ rest_map (map_of es)) \<and> rebuilt asks' Sell (?m ++ rest_map (map_of es))"
    unfolding prod.collapse .
  ultimately show ?case by (simp only: fold_simps)
qed

lemma rebuild_correct:
  assumes inv: "book_inv ob"
  obtains bids asks where "fold credit_side (index_entries (ob_orders ob)) ([], []) = (bids, asks)"
    and "rebuilt bids Buy (book_orders ob)" and "rebuilt asks Sell (book_orders ob)"
proof -
  have "rebuilt [] side Map.empty" for side by (simp add: rebuilt_def omap_inv_def omap_find_def fun_eq_iff)
  then show thesis
    using fold_credit [OF index_entries_distinct [OF book_invD(1) [OF inv]], of Map.empty "[]" "[]"] that
    by (auto simp: index_entries_live book_orders_def)
qed

section \<open>The runtime check\<close>

lemma side_matches_correct:
  assumes store: "store_ok pl side m" and computed: "rebuilt computed side m"
  shows "side_matches pl computed = Some (\<forall>l \<in> ran (level_at m side). lv_shares l \<noteq> 0)"
proof -
  have inv: "pl_inv pl" and lv: "pl_lv pl = level_at m side" using store by (simp_all add: store_ok_def)
  obtain ls where ls: "pl_levels pl = Some ls" "best_first (pl_side pl) ls" "set ls = ran (pl_lv pl)"
    using pl_levels_correct [OF inv] by blast
  have om: "omap_inv computed" "omap_find computed = pl_lv pl" using computed lv by (simp_all add: rebuilt_def)
  have price: "lv_price l = p \<and> lv_orders l \<noteq> 0" if "pl_lv pl p = Some l" for p l
    using pl_lv_price [OF inv that] pl_lv_orders [OF inv that] by simp
  have "distinct (map lv_price ls)"
    using ls(2) by (induction ls) (auto simp: best_first_def better_def split: if_splits)
  then have "length ls = card (lv_price ` ran (pl_lv pl))" using ls(3) by (metis distinct_card length_map set_map)
  also have "lv_price ` ran (pl_lv pl) = dom (pl_lv pl)" using price by (auto simp: ran_def dom_def image_iff)
  also have "card (dom (pl_lv pl)) = length computed"
    using om om.distinct_keys [OF om(1)] om.dom_find [OF om(1)] by (metis distinct_card length_map set_map)
  finally have len: "length ls = length computed" .
  have "level_matches computed l \<longleftrightarrow> lv_shares l \<noteq> 0" if l: "l \<in> set ls" for l
  proof -
    obtain p where "pl_lv pl p = Some l" using l ls(3) by (auto simp: ran_def)
    then show ?thesis using price om(2) by (auto simp: level_matches_def)
  qed
  then have "list_all (level_matches computed) ls \<longleftrightarrow> (\<forall>l \<in> set ls. lv_shares l \<noteq> 0)" by (auto simp: list_all_iff)
  then show ?thesis
    using ls len by (simp add: side_matches_def pl_check_invariants_correct [OF inv] lv)
qed

lemma check_invariants_correct:
  assumes inv: "book_inv ob"
  shows "check_invariants ob =
     Some (\<forall>ref ord. book_orders ob ref = Some ord \<longrightarrow> qty_at (book_orders ob) (r_side ord) (r_price ord) \<noteq> 0)"
proof -
  let ?m = "book_orders ob"
  note parts = book_invD [OF inv]
  obtain bids asks where r: "fold credit_side (index_entries (ob_orders ob)) ([], []) = (bids, asks)"
    "rebuilt bids Buy ?m" "rebuilt asks Sell ?m"
    by (rule rebuild_correct [OF inv])
  have fast: "check_invariants_fast ob"
    using parts(4-6) ix.count_law [OF parts(1)] by (simp add: check_invariants_fast_def book_orders_def)
  have nonzero: "(word_of_nat (qty_at ?m side p) :: u64) = 0 \<longleftrightarrow> qty_at ?m side p = 0" for side p
    unfolding word_unat_eq_iff unat_of_nat_64 [OF qty_at_bound [OF inv]] by simp
  have side: "(\<forall>l \<in> ran (level_at ?m side). lv_shares l \<noteq> 0) \<longleftrightarrow>
      (\<forall>ref ord. ?m ref = Some ord \<and> r_side ord = side \<longrightarrow> qty_at ?m side (r_price ord) \<noteq> 0)" for side
  proof
    assume all: "\<forall>l \<in> ran (level_at ?m side). lv_shares l \<noteq> 0"
    show "\<forall>ref ord. ?m ref = Some ord \<and> r_side ord = side \<longrightarrow> qty_at ?m side (r_price ord) \<noteq> 0"
    proof (intro allI impI)
      fix ref ord assume *: "?m ref = Some ord \<and> r_side ord = side"
      then have "refs_at ?m side (r_price ord) \<noteq> {}" by (auto simp: refs_at_def)
      then have "level_at ?m side (r_price ord) = Some \<lparr>lv_price = r_price ord,
          lv_shares = word_of_nat (qty_at ?m side (r_price ord)),
          lv_orders = word_of_nat (card (refs_at ?m side (r_price ord)))\<rparr>"
        by (simp add: level_at_def)
      from bspec [OF all ranI, OF this] show "qty_at ?m side (r_price ord) \<noteq> 0" by (simp add: nonzero)
    qed
  next
    assume all: "\<forall>ref ord. ?m ref = Some ord \<and> r_side ord = side \<longrightarrow> qty_at ?m side (r_price ord) \<noteq> 0"
    show "\<forall>l \<in> ran (level_at ?m side). lv_shares l \<noteq> 0"
    proof
      fix l assume "l \<in> ran (level_at ?m side)"
      then obtain p where p: "level_at ?m side p = Some l" by (auto simp: ran_def)
      then obtain ref where "ref \<in> refs_at ?m side p" by (auto simp: level_at_def split: if_splits)
      then have "qty_at ?m side p \<noteq> 0" using all by (auto simp: refs_at_def)
      then show "lv_shares l \<noteq> 0" using p nonzero [of side p] by (auto simp: level_at_def split: if_splits)
    qed
  qed
  have sides: "r_side ord = Buy \<or> r_side ord = Sell" for ord by (cases "r_side ord") simp_all
  have "check_invariants ob = Some ((\<forall>l \<in> ran (level_at ?m Buy). lv_shares l \<noteq> 0) \<and>
      (\<forall>l \<in> ran (level_at ?m Sell). lv_shares l \<noteq> 0))"
    using fast r side_matches_correct [OF parts(2) r(2)] side_matches_correct [OF parts(3) r(3)]
    by (simp add: check_invariants_def)
  moreover have "(\<forall>ref ord. ?m ref = Some ord \<and> r_side ord = side \<longrightarrow> qty_at ?m side (r_price ord) \<noteq> 0) \<longleftrightarrow>
      (\<forall>ref ord. ?m ref = Some ord \<and> r_side ord = side \<longrightarrow> qty_at ?m (r_side ord) (r_price ord) \<noteq> 0)" for side
    by auto
  moreover have "(\<forall>ref ord. ?m ref = Some ord \<longrightarrow> qty_at ?m (r_side ord) (r_price ord) \<noteq> 0) \<longleftrightarrow>
      (\<forall>ref ord. ?m ref = Some ord \<and> r_side ord = Buy \<longrightarrow> qty_at ?m (r_side ord) (r_price ord) \<noteq> 0) \<and>
      (\<forall>ref ord. ?m ref = Some ord \<and> r_side ord = Sell \<longrightarrow> qty_at ?m (r_side ord) (r_price ord) \<noteq> 0)"
    using sides by blast
  ultimately show ?thesis by (simp only: side)
qed

end
