(* ===== verification/Wire_Bytes.thy ===== *)
theory Wire_Bytes
  imports Prelude
begin

text \<open>
  The big endian readers of \<open>src/common/byte_reader.h\<close>. A pointer into a buffer is the list
  of the bytes from there to the end of the allocation, so \<open>p + k\<close> is \<open>drop k p\<close> and a read
  past the end has no result. The locale \<open>codec\<close> states what a reader and the bytes of a value
  promise each other, and is interpreted on each reader.
\<close>

section \<open>Readers\<close>

definition be_step :: "u8 \<Rightarrow> 'a::len word \<Rightarrow> 'a word" where
  "be_step b res = push_bit 8 res OR ucast b"

definition bytes_at :: "bytes \<Rightarrow> nat \<Rightarrow> bytes option" where
  "bytes_at p n = (if n \<le> length p then Some (take n p) else None)"

definition be16 :: "bytes \<Rightarrow> u16 option" where
  "be16 p = map_option (\<lambda>bs. ucast (fold be_step bs (0 :: u32))) (bytes_at p 2)"

definition be32 :: "bytes \<Rightarrow> u32 option" where
  "be32 p = map_option (\<lambda>bs. fold be_step bs 0) (bytes_at p 4)"

definition be48 :: "bytes \<Rightarrow> u64 option" where
  "be48 p = map_option (\<lambda>bs. fold be_step bs 0) (bytes_at p 6)"

definition be64 :: "bytes \<Rightarrow> u64 option" where
  "be64 p = map_option (\<lambda>bs. fold be_step bs 0) (bytes_at p 8)"

definition to_char :: "u8 \<Rightarrow> char" where
  "to_char b = char_of (unat b)"

definition char_at :: "bytes \<Rightarrow> nat \<Rightarrow> char option" where
  "char_at p i = map_option to_char (vget p i)"

definition of_chr :: "char \<Rightarrow> u8" where
  "of_chr c = word_of_nat (of_char c)"

section \<open>The bytes of a number\<close>

fun be_bytes :: "nat \<Rightarrow> 'a::len word \<Rightarrow> bytes" where
  "be_bytes 0 w = []"
| "be_bytes (Suc n) w = be_bytes n (drop_bit 8 w) @ [ucast w]"

lemma length_be_bytes [simp]: "length (be_bytes n w) = n"
  by (induction n arbitrary: w) simp_all

lemma fold_be_bytes: "fold be_step (be_bytes n w) 0 = take_bit (8 * n) w"
proof (induction n arbitrary: w)
  case (Suc n)
  have "fold be_step (be_bytes (Suc n) w) 0 = push_bit 8 (take_bit (8 * n) (drop_bit 8 w)) OR ucast (ucast w :: u8)"
    by (simp only: be_bytes.simps fold_append comp_apply Suc.IH fold_simps) (simp add: be_step_def)
  also have "\<dots> = take_bit (8 * Suc n) w"
    by (rule bit_word_eqI)
      (auto simp: bit_or_iff bit_push_bit_iff bit_take_bit_iff bit_drop_bit_eq bit_ucast_iff)
  finally show ?case .
qed simp

text \<open>The bytes are determined by the number they make.\<close>

lemma be_bytes_fold:
  assumes "8 * length bs \<le> LENGTH('a)"
  shows "be_bytes (length bs) (fold be_step bs (0 :: 'a::len word)) = bs"
  using assms
proof (induction bs rule: rev_induct)
  case (snoc b bs)
  let ?w = "fold be_step bs (0 :: 'a word)"
  have len: "8 \<le> LENGTH('a)" "8 * length bs + 8 \<le> LENGTH('a)" using snoc.prems by simp_all
  have top: "take_bit (8 * length bs) ?w = ?w"
    using fold_be_bytes [of "length bs" ?w] snoc.IH snoc.prems by simp
  have low: "ucast (push_bit 8 ?w OR ucast b) = b"
    using len(1) by (intro bit_word_eqI) (auto simp: bit_ucast_iff bit_or_iff bit_push_bit_iff)
  have "bit ?w n \<Longrightarrow> n < 8 * length bs" for n using top by (metis bit_take_bit_iff)
  then have high: "drop_bit 8 (push_bit 8 ?w OR ucast b) = ?w"
    using len by (intro bit_word_eqI)
      (fastforce simp: bit_drop_bit_eq bit_ucast_iff bit_or_iff bit_push_bit_iff dest: bit_imp_le_length)
  have "fold be_step (bs @ [b]) 0 = push_bit 8 ?w OR ucast b"
    by (simp only: fold_append comp_apply fold_simps) (simp add: be_step_def)
  then show ?case using snoc.IH snoc.prems low high by simp
qed simp

lemma bytes_at_append [simp]: "length xs = n \<Longrightarrow> bytes_at (xs @ ys) n = Some xs"
  by (simp add: bytes_at_def)

lemma bytes_at_eq_None: "bytes_at p n = None \<longleftrightarrow> length p < n"
  by (simp add: bytes_at_def)

lemma be16_bytes: "be16 (be_bytes 2 w @ rest) = Some (w :: u16)"
proof -
  have eq: "be_bytes 2 w = be_bytes 2 (ucast w :: u32)"
    by (simp add: numeral_2_eq_2) (auto intro!: bit_word_eqI simp: bit_ucast_iff bit_drop_bit_eq)
  have "take_bit 16 (ucast w :: u32) = ucast w"
    by (rule bit_word_eqI) (auto simp: bit_take_bit_iff bit_ucast_iff dest: bit_imp_le_length)
  moreover have "(ucast (ucast w :: u32) :: u16) = w"
    by (rule bit_word_eqI) (auto simp: bit_ucast_iff)
  ultimately show ?thesis using fold_be_bytes [of 2 "ucast w :: u32"] by (simp add: be16_def eq)
qed

lemma be32_bytes: "be32 (be_bytes 4 w @ rest) = Some w"
  using fold_be_bytes [of 4 w] by (simp add: be32_def take_bit_word_eq_self)

lemma be48_bytes: "be48 (be_bytes 6 w @ rest) = Some (take_bit 48 w)"
  using fold_be_bytes [of 6 w] by (simp add: be48_def)

lemma be64_bytes: "be64 (be_bytes 8 w @ rest) = Some w"
  using fold_be_bytes [of 8 w] by (simp add: be64_def take_bit_word_eq_self)

lemma be_None [simp]:
  "be16 p = None \<longleftrightarrow> length p < 2" "be32 p = None \<longleftrightarrow> length p < 4"
  "be48 p = None \<longleftrightarrow> length p < 6" "be64 p = None \<longleftrightarrow> length p < 8"
  by (simp_all add: be16_def be32_def be48_def be64_def bytes_at_eq_None)

lemma char_at_None [simp]: "char_at p i = None \<longleftrightarrow> length p \<le> i"
  by (simp add: char_at_def vget_def)

lemma to_char_of_chr [simp]: "to_char (of_chr c) = c"
  by (simp add: to_char_def of_chr_def unat_of_nat take_bit_eq_mod)

lemma of_chr_to_char [simp]: "of_chr (to_char b) = b"
proof -
  have "unat b < 256" using unsigned_less [of b, where ?'a = nat] by simp
  then show ?thesis by (simp add: of_chr_def to_char_def)
qed

section \<open>What a field of a layout promises\<close>

text \<open>
  A reader and the bytes it is the inverse of: every value that is well formed is read back
  from its bytes, and whatever is read is well formed and its bytes are those that were read.
\<close>

locale codec =
  fixes rd :: "bytes \<Rightarrow> 'a option" and wr :: "'a \<Rightarrow> bytes" and ok :: "'a \<Rightarrow> bool" and width :: nat
  assumes read_written: "ok a \<Longrightarrow> rd (wr a @ rest) = Some a"
    and written_read: "rd p = Some a \<Longrightarrow> ok a \<and> wr a @ drop width p = p"
    and length_written: "ok a \<Longrightarrow> length (wr a) = width"
begin

lemma well_formed: "rd p = Some a \<Longrightarrow> ok a"
  using written_read by blast

lemma reads_ok: "rd p \<noteq> None \<Longrightarrow> \<exists>a. rd p = Some a \<and> ok a"
  using well_formed by blast

lemma glue: "rd (drop k p) = Some a \<Longrightarrow> wr a @ drop (k + width) p = drop k p"
  using written_read [of "drop k p" a] by (simp add: add.commute)

lemma written: "rd p = Some a \<Longrightarrow> wr a = take width p"
  using written_read length_written by (metis append_eq_conv_conj)

lemma enough: "rd p = Some a \<Longrightarrow> width \<le> length p"
  using written_read length_written by (metis length_append le_add1)

text \<open>Nothing after the field matters, and different values have different bytes.\<close>

lemma only_its_bytes: "rd p = Some a \<Longrightarrow> rd (take width p @ rest) = Some a"
  using written well_formed read_written by metis

lemma same_value: "rd p = Some a \<Longrightarrow> rd q = Some a \<Longrightarrow> take width p = take width q"
  using written by metis

lemma read_iff: "rd p = Some a \<longleftrightarrow> ok a \<and> wr a @ drop width p = p"
  using written_read read_written by metis

end

lemma fold_take_codec:
  assumes "n \<le> length p" and "8 * n \<le> LENGTH('a)"
  shows "be_bytes n (fold be_step (take n p) (0 :: 'a::len word)) @ drop n p = p"
  using be_bytes_fold [of "take n p", where ?'a = 'a] assms by (simp add: min_absorb2)

interpretation be16: codec be16 "be_bytes 2" "\<lambda>_. True" 2
proof
  fix p and w :: u16
  assume "be16 p = Some w"
  then have len: "2 \<le> length p" and w: "w = ucast (fold be_step (take 2 p) (0 :: u32))"
    by (auto simp: be16_def bytes_at_def split: if_splits)
  have "be_bytes 2 (ucast (v :: u32) :: u16) = be_bytes 2 v" for v
    by (simp add: numeral_2_eq_2) (auto intro!: bit_word_eqI simp: bit_ucast_iff bit_drop_bit_eq)
  then show "True \<and> be_bytes 2 w @ drop 2 p = p" using fold_take_codec [OF len, where ?'a = 32] by (simp add: w)
qed (simp_all add: be16_bytes)

interpretation be32: codec be32 "be_bytes 4" "\<lambda>_. True" 4
proof
  fix p w
  assume "be32 p = Some w"
  then show "True \<and> be_bytes 4 w @ drop 4 p = p"
    using fold_take_codec [of 4 p, where ?'a = 32] by (auto simp: be32_def bytes_at_def split: if_splits)
qed (simp_all add: be32_bytes)

interpretation be64: codec be64 "be_bytes 8" "\<lambda>_. True" 8
proof
  fix p w
  assume "be64 p = Some w"
  then show "True \<and> be_bytes 8 w @ drop 8 p = p"
    using fold_take_codec [of 8 p, where ?'a = 64] by (auto simp: be64_def bytes_at_def split: if_splits)
qed (simp_all add: be64_bytes)

text \<open>Six bytes in a word of eight: the high bits are zero.\<close>

definition fits48 :: "u64 \<Rightarrow> bool" where
  "fits48 w \<longleftrightarrow> take_bit 48 w = w"

interpretation be48: codec be48 "be_bytes 6" fits48 6
proof
  fix p and w :: u64
  assume "be48 p = Some w"
  then have len: "6 \<le> length p" and w: "w = fold be_step (take 6 p) 0"
    by (auto simp: be48_def bytes_at_def split: if_splits)
  then have same: "be_bytes 6 w @ drop 6 p = p" using fold_take_codec [OF len, where ?'a = 64] by simp
  then have "be48 p = Some (take_bit 48 w)" using be48_bytes [of w "drop 6 p"] by simp
  then show "fits48 w \<and> be_bytes 6 w @ drop 6 p = p"
    using same \<open>be48 p = Some w\<close> by (simp add: fits48_def)
qed (simp_all add: be48_bytes fits48_def)

interpretation chr: codec "\<lambda>p. char_at p 0" "\<lambda>c. [of_chr c]" "\<lambda>_. True" 1
proof
  fix p c
  assume "char_at p 0 = Some c"
  then show "True \<and> [of_chr c] @ drop 1 p = p" by (cases p) (auto simp: char_at_def)
qed (simp_all add: char_at_def)

lemma char_at_drop: "char_at (drop k p) 0 = char_at p k"
  by (simp add: char_at_def vget_def)

text \<open>A reader that only takes what satisfies a test, such as the type byte of its message.\<close>

definition only_if :: "(bytes \<Rightarrow> bool) \<Rightarrow> (bytes \<Rightarrow> 'a option) \<Rightarrow> bytes \<Rightarrow> 'a option" where
  "only_if P rd p = (if P p then rd p else None)"

lemma only_if_Some: "only_if P rd p = Some a \<longleftrightarrow> P p \<and> rd p = Some a"
  by (simp add: only_if_def)

end
