(* ===== verification/Itch_Messages.thy ===== *)
theory Itch_Messages
  imports Wire_Bytes
begin

text \<open>
  The ITCH 5.0 messages: the type table of \<open>src/itch/message_type.h\<close>, the decoded structs of
  \<open>messages.h\<close> and the decoders of \<open>decoder.cc\<close>. A decoder gets a pointer to the type byte;
  \<open>None\<close> means it read past the end of the allocation.
\<close>

section \<open>Message types\<close>

datatype message_type =
    SystemEvent | StockDirectory | StockTradingAction | RegShoRestriction | MarketParticipantPos
  | AddOrder | AddOrderMpid | OrderExecuted | OrderExecutedWithPrice | OrderCancel
  | OrderDelete | OrderReplace | TradeNonCross | TradeCross | BrokenTrade

text \<open>The enumerator a type byte is, \<open>None\<close> for a value without a name.\<close>

definition message_type_of :: "char \<Rightarrow> message_type option" where
  "message_type_of c =
     (if c = CHR ''S'' then Some SystemEvent
      else if c = CHR ''R'' then Some StockDirectory
      else if c = CHR ''H'' then Some StockTradingAction
      else if c = CHR ''Y'' then Some RegShoRestriction
      else if c = CHR ''L'' then Some MarketParticipantPos
      else if c = CHR ''A'' then Some AddOrder
      else if c = CHR ''F'' then Some AddOrderMpid
      else if c = CHR ''E'' then Some OrderExecuted
      else if c = CHR ''C'' then Some OrderExecutedWithPrice
      else if c = CHR ''X'' then Some OrderCancel
      else if c = CHR ''D'' then Some OrderDelete
      else if c = CHR ''U'' then Some OrderReplace
      else if c = CHR ''P'' then Some TradeNonCross
      else if c = CHR ''Q'' then Some TradeCross
      else if c = CHR ''B'' then Some BrokenTrade
      else None)"

definition is_known :: "char \<Rightarrow> bool" where
  "is_known c \<longleftrightarrow> c \<in> set ''SRHYLAFECXDUPQB''"

definition expected_length :: "message_type option \<Rightarrow> size_t" where
  "expected_length t =
     (case t of
        Some SystemEvent \<Rightarrow> 12 | Some StockDirectory \<Rightarrow> 39 | Some StockTradingAction \<Rightarrow> 25
      | Some RegShoRestriction \<Rightarrow> 20 | Some MarketParticipantPos \<Rightarrow> 26 | Some AddOrder \<Rightarrow> 36
      | Some AddOrderMpid \<Rightarrow> 40 | Some OrderExecuted \<Rightarrow> 31 | Some OrderExecutedWithPrice \<Rightarrow> 36
      | Some OrderCancel \<Rightarrow> 23 | Some OrderDelete \<Rightarrow> 19 | Some OrderReplace \<Rightarrow> 35
      | Some TradeNonCross \<Rightarrow> 44 | Some TradeCross \<Rightarrow> 40 | Some BrokenTrade \<Rightarrow> 19
      | None \<Rightarrow> 0)"

section \<open>Decoded messages\<close>

type_synonym stock = "char list"

record header =
  stock_locate :: u16
  tracking_number :: u16
  timestamp :: u64

record system_event =
  se_header :: header
  se_event_code :: char

record stock_directory =
  sd_header :: header
  sd_stock :: stock
  sd_market_category :: char
  sd_round_lot_size :: u32

record add_order =
  ao_header :: header
  ao_order_ref :: u64
  ao_side :: char
  ao_shares :: u32
  ao_stock :: stock
  ao_price :: u32

record order_executed =
  oe_header :: header
  oe_order_ref :: u64
  oe_executed_shares :: u32
  oe_match_number :: u64
  oe_execution_price :: u32
  oe_printable :: bool

record order_cancel =
  oc_header :: header
  oc_order_ref :: u64
  oc_cancelled_shares :: u32

record order_delete =
  od_header :: header
  od_order_ref :: u64

record order_replace =
  or_header :: header
  or_original_order_ref :: u64
  or_new_order_ref :: u64
  or_shares :: u32
  or_price :: u32

record trade =
  tr_header :: header
  tr_order_ref :: u64
  tr_side :: char
  tr_shares :: u64
  tr_stock :: stock
  tr_price :: u32
  tr_match_number :: u64
  tr_has_order :: bool

text \<open>The messages no decoder fills.\<close>

record stock_trading_action =
  ta_header :: header
  ta_stock :: stock
  ta_trading_state :: char
  ta_reserved :: char
  ta_reason :: "char list"

record reg_sho_restriction =
  rs_header :: header
  rs_stock :: stock
  rs_reg_sho_action :: char

record market_participant_position =
  mp_header :: header
  mp_mpid :: "char list"
  mp_stock :: stock
  mp_primary_market_maker :: char
  mp_market_maker_mode :: char
  mp_market_participant_state :: char

record broken_trade =
  bt_header :: header
  bt_match_number :: u64

section \<open>Decoders\<close>

definition read_stock :: "bytes \<Rightarrow> stock option" where
  "read_stock p = map_option (map to_char) (bytes_at p 8)"

definition decode_header :: "bytes \<Rightarrow> header option" where
  "decode_header p =
     do { l \<leftarrow> be16 (drop 1 p); t \<leftarrow> be16 (drop 3 p); ts \<leftarrow> be48 (drop 5 p);
          Some \<lparr>stock_locate = l, tracking_number = t, timestamp = ts\<rparr> }"

definition decode_system_event :: "bytes \<Rightarrow> system_event option" where
  "decode_system_event p =
     do { h \<leftarrow> decode_header p; c \<leftarrow> char_at p 11;
          Some \<lparr>se_header = h, se_event_code = c\<rparr> }"

definition decode_stock_directory :: "bytes \<Rightarrow> stock_directory option" where
  "decode_stock_directory p =
     do { h \<leftarrow> decode_header p; st \<leftarrow> read_stock (drop 11 p); mc \<leftarrow> char_at p 19; rl \<leftarrow> be32 (drop 21 p);
          Some \<lparr>sd_header = h, sd_stock = st, sd_market_category = mc, sd_round_lot_size = rl\<rparr> }"

definition decode_add_order :: "bytes \<Rightarrow> add_order option" where
  "decode_add_order p =
     do { h \<leftarrow> decode_header p; r \<leftarrow> be64 (drop 11 p); s \<leftarrow> char_at p 19; q \<leftarrow> be32 (drop 20 p);
          st \<leftarrow> read_stock (drop 24 p); pr \<leftarrow> be32 (drop 32 p);
          Some \<lparr>ao_header = h, ao_order_ref = r, ao_side = s, ao_shares = q, ao_stock = st, ao_price = pr\<rparr> }"

definition decode_order_executed :: "bytes \<Rightarrow> order_executed option" where
  "decode_order_executed p =
     do { h \<leftarrow> decode_header p; r \<leftarrow> be64 (drop 11 p); q \<leftarrow> be32 (drop 19 p); m \<leftarrow> be64 (drop 23 p);
          let msg = \<lparr>oe_header = h, oe_order_ref = r, oe_executed_shares = q, oe_match_number = m,
                     oe_execution_price = 0, oe_printable = True\<rparr>;
          t \<leftarrow> char_at p 0;
          if t = CHR ''C'' then do {
            c \<leftarrow> char_at p 31; pr \<leftarrow> be32 (drop 32 p);
            Some (msg\<lparr>oe_printable := (c = CHR ''Y''), oe_execution_price := pr\<rparr>) }
          else Some msg }"

definition decode_order_cancel :: "bytes \<Rightarrow> order_cancel option" where
  "decode_order_cancel p =
     do { h \<leftarrow> decode_header p; r \<leftarrow> be64 (drop 11 p); q \<leftarrow> be32 (drop 19 p);
          Some \<lparr>oc_header = h, oc_order_ref = r, oc_cancelled_shares = q\<rparr> }"

definition decode_order_delete :: "bytes \<Rightarrow> order_delete option" where
  "decode_order_delete p =
     do { h \<leftarrow> decode_header p; r \<leftarrow> be64 (drop 11 p);
          Some \<lparr>od_header = h, od_order_ref = r\<rparr> }"

definition decode_order_replace :: "bytes \<Rightarrow> order_replace option" where
  "decode_order_replace p =
     do { h \<leftarrow> decode_header p; r \<leftarrow> be64 (drop 11 p); n \<leftarrow> be64 (drop 19 p);
          q \<leftarrow> be32 (drop 27 p); pr \<leftarrow> be32 (drop 31 p);
          Some \<lparr>or_header = h, or_original_order_ref = r, or_new_order_ref = n, or_shares = q, or_price = pr\<rparr> }"

definition decode_trade :: "bytes \<Rightarrow> trade option" where
  "decode_trade p =
     do { h \<leftarrow> decode_header p; t \<leftarrow> char_at p 0;
          if t = CHR ''P'' then do {
            r \<leftarrow> be64 (drop 11 p); s \<leftarrow> char_at p 19; q \<leftarrow> be32 (drop 20 p); st \<leftarrow> read_stock (drop 24 p);
            pr \<leftarrow> be32 (drop 32 p); m \<leftarrow> be64 (drop 36 p);
            Some \<lparr>tr_header = h, tr_order_ref = r, tr_side = s, tr_shares = ucast q, tr_stock = st,
                  tr_price = pr, tr_match_number = m, tr_has_order = True\<rparr> }
          else do {
            q \<leftarrow> be64 (drop 11 p); st \<leftarrow> read_stock (drop 19 p); pr \<leftarrow> be32 (drop 27 p); m \<leftarrow> be64 (drop 31 p);
            Some \<lparr>tr_header = h, tr_order_ref = 0, tr_side = CHR '' '', tr_shares = q, tr_stock = st,
                  tr_price = pr, tr_match_number = m, tr_has_order = False\<rparr> } }"

section \<open>Types and lengths\<close>

lemma is_known_iff: "is_known c \<longleftrightarrow> message_type_of c \<noteq> None"
  by (simp add: is_known_def message_type_of_def)

lemma expected_length_known: "is_known c \<longleftrightarrow> expected_length (message_type_of c) \<noteq> 0"
  by (simp add: is_known_def message_type_of_def expected_length_def)

section \<open>Where the decoders read\<close>

text \<open>Whether a decoder stays inside the allocation is a matter of its length alone.\<close>

lemma read_stock_None [simp]: "read_stock p = None \<longleftrightarrow> length p < 8"
  by (simp add: read_stock_def bytes_at_eq_None)

lemmas decode_None = Option.bind_eq_None_conv Let_def

lemma decode_header_None [simp]: "decode_header p = None \<longleftrightarrow> length p < 11"
  by (auto simp: decode_header_def decode_None)

lemma decode_system_event_None: "decode_system_event p = None \<longleftrightarrow> length p < 12"
  by (auto simp: decode_system_event_def decode_None)

lemma decode_stock_directory_None: "decode_stock_directory p = None \<longleftrightarrow> length p < 25"
  by (auto simp: decode_stock_directory_def decode_None)

lemma decode_add_order_None: "decode_add_order p = None \<longleftrightarrow> length p < 36"
  by (auto simp: decode_add_order_def decode_None)

lemma char_at_in: "char_at p i = Some c \<Longrightarrow> i < length p"
  by (metis char_at_None not_less option.distinct(1))

lemma decode_order_executed_None:
  "decode_order_executed p = None \<longleftrightarrow> length p < (if char_at p 0 = Some (CHR ''C'') then 36 else 31)"
  using char_at_None [of p 0] by (cases "char_at p 0") (auto simp: decode_order_executed_def decode_None)

lemma decode_order_cancel_None: "decode_order_cancel p = None \<longleftrightarrow> length p < 23"
  by (auto simp: decode_order_cancel_def decode_None)

lemma decode_order_delete_None: "decode_order_delete p = None \<longleftrightarrow> length p < 19"
  by (auto simp: decode_order_delete_def decode_None)

lemma decode_order_replace_None: "decode_order_replace p = None \<longleftrightarrow> length p < 35"
  by (auto simp: decode_order_replace_def decode_None)

lemma decode_trade_None:
  "decode_trade p = None \<longleftrightarrow> length p < (if char_at p 0 = Some (CHR ''P'') then 44 else 39)"
  using char_at_None [of p 0] by (cases "char_at p 0") (auto simp: decode_trade_def decode_None)

end
