(* ===== verification/Book_Set.thy ===== *)
theory Book_Set
  imports Book_View Itch_Messages
begin

text \<open>
  All symbols by stock locate, \<open>src/book/book_set.cc\<close>: three tables that grow together, the
  registration of a locate, and the sweeps over every book. Its meaning is a partial map from
  locates to books.
\<close>

record book_set =
  bs_books :: "order_book list"
  bs_symbols :: "stock list"
  bs_known :: "bool list"
  bs_registered :: size_t

definition new_book_set :: book_set where
  "new_book_set = \<lparr>bs_books = [], bs_symbols = [], bs_known = [], bs_registered = 0\<rparr>"

definition resize :: "'a list \<Rightarrow> nat \<Rightarrow> 'a \<Rightarrow> 'a list" where
  "resize xs n d = take n xs @ replicate (n - length xs) d"

definition no_stock :: stock where
  "no_stock = replicate 8 (CHR 0x00)"

section \<open>Operations\<close>

definition on_stock_directory :: "stock_directory \<Rightarrow> book_set \<Rightarrow> book_set option" where
  "on_stock_directory msg bs =
     (let locate = unat (stock_locate (sd_header msg));
          bs = (if locate \<ge> length (bs_books bs)
                then bs\<lparr>bs_books := resize (bs_books bs) (locate + 1) new_book,
                        bs_symbols := resize (bs_symbols bs) (locate + 1) no_stock,
                        bs_known := resize (bs_known bs) (locate + 1) False\<rparr>
                else bs)
      in do {
        k \<leftarrow> vget (bs_known bs) locate;
        let bs = (if \<not> k then bs\<lparr>bs_registered := bs_registered bs + 1\<rparr> else bs);
        symbols \<leftarrow> vset (bs_symbols bs) locate (sd_stock msg);
        known \<leftarrow> vset (bs_known bs) locate True;
        Some (bs\<lparr>bs_symbols := symbols, bs_known := known\<rparr>) })"

definition bs_book :: "book_set \<Rightarrow> u16 \<Rightarrow> order_book option" where
  "bs_book bs locate = vget (bs_books bs) (unat locate)"

text \<open>A member function called through the reference \<open>book\<close> returned.\<close>

definition bs_put_book :: "book_set \<Rightarrow> u16 \<Rightarrow> order_book \<Rightarrow> book_set option" where
  "bs_put_book bs locate b = map_option (\<lambda>books. bs\<lparr>bs_books := books\<rparr>) (vset (bs_books bs) (unat locate) b)"

definition bs_is_known :: "book_set \<Rightarrow> u16 \<Rightarrow> bool" where
  "bs_is_known bs locate \<longleftrightarrow> unat locate < length (bs_known bs) \<and> bs_known bs ! unat locate"

definition bs_symbol :: "book_set \<Rightarrow> u16 \<Rightarrow> stock option" where
  "bs_symbol bs locate = (if \<not> bs_is_known bs locate then Some [] else vget (bs_symbols bs) (unat locate))"

definition bs_size :: "book_set \<Rightarrow> size_t" where
  "bs_size bs = bs_registered bs"

definition bs_resting_shares :: "book_set \<Rightarrow> u64" where
  "bs_resting_shares bs = fold (\<lambda>b total. total + resting_shares b) (bs_books bs) 0"

definition bs_check_invariants_fast :: "book_set \<Rightarrow> bool" where
  "bs_check_invariants_fast bs \<longleftrightarrow> list_all check_invariants_fast (bs_books bs)"

text \<open>The sweep; its state is false once a book has failed.\<close>

definition sweep_book :: "book_set \<Rightarrow> nat \<Rightarrow> bool \<Rightarrow> bool option" where
  "sweep_book bs i ok =
     (if \<not> ok then Some False
      else do {
        k \<leftarrow> vget (bs_known bs) i;
        if k then do { b \<leftarrow> vget (bs_books bs) i; check_invariants b } else Some True })"

definition bs_check_invariants :: "book_set \<Rightarrow> bool option" where
  "bs_check_invariants bs =
     (if length (bs_known bs) \<noteq> length (bs_books bs) \<or> length (bs_symbols bs) \<noteq> length (bs_books bs)
      then Some False
      else foldM (sweep_book bs) [0..<length (bs_books bs)] True)"

section \<open>Meaning\<close>

definition bs_view :: "book_set \<Rightarrow> u16 \<rightharpoonup> resting_map" where
  "bs_view bs locate =
     (if bs_is_known bs locate then Some (book_orders (bs_books bs ! unat locate)) else None)"

definition registered :: "book_set \<Rightarrow> nat set" where
  "registered bs = {i. i < length (bs_known bs) \<and> bs_known bs ! i}"

text \<open>\<open>n\<close> bounds the live orders of any book.\<close>

definition bs_inv :: "nat \<Rightarrow> book_set \<Rightarrow> bool" where
  "bs_inv n bs \<longleftrightarrow>
     length (bs_known bs) = length (bs_books bs) \<and> length (bs_symbols bs) = length (bs_books bs) \<and>
     length (bs_books bs) \<le> 65536 \<and>
     bs_registered bs = word_of_nat (card (registered bs)) \<and>
     (\<forall>b \<in> set (bs_books bs). book_inv b \<and> card (dom (book_orders b)) \<le> n) \<and>
     (\<forall>i < length (bs_books bs). \<not> bs_known bs ! i \<longrightarrow> book_orders (bs_books bs ! i) = Map.empty)"

lemma bs_inv_mono: "bs_inv m bs \<Longrightarrow> m \<le> n \<Longrightarrow> bs_inv n bs"
  by (auto simp: bs_inv_def)

lemma bs_inv_new [simp]: "bs_inv n new_book_set"
  by (simp add: bs_inv_def new_book_set_def registered_def)

lemma bs_view_new [simp]: "bs_view new_book_set = Map.empty"
  by (simp add: bs_view_def bs_is_known_def new_book_set_def fun_eq_iff)

lemma bs_known_book:
  assumes "bs_inv n bs" and "bs_is_known bs locate"
  shows "unat locate < length (bs_books bs)" and "bs_book bs locate = Some (bs_books bs ! unat locate)"
    and "book_inv (bs_books bs ! unat locate)" and "card (dom (book_orders (bs_books bs ! unat locate))) \<le> n"
    and "bs_view bs locate = Some (book_orders (bs_books bs ! unat locate))"
  using assms by (auto simp: bs_inv_def bs_is_known_def bs_book_def bs_view_def)

lemma finite_registered [simp]: "finite (registered bs)"
  by (rule finite_subset [of _ "{..<length (bs_known bs)}"]) (auto simp: registered_def)

text \<open>Updating the book of a known locate.\<close>

lemma bs_put_book_correct:
  assumes inv: "bs_inv n bs" and known: "bs_is_known bs locate"
    and b: "book_inv b" "card (dom (book_orders b)) \<le> n"
  shows "\<exists>bs'. bs_put_book bs locate b = Some bs' \<and> bs_inv n bs' \<and>
      bs_view bs' = (bs_view bs)(locate \<mapsto> book_orders b)"
proof -
  let ?bs = "bs\<lparr>bs_books := (bs_books bs)[unat locate := b]\<rparr>"
  have lt: "unat locate < length (bs_books bs)" by (rule bs_known_book(1) [OF inv known])
  then have "bs_put_book bs locate b = Some ?bs" by (simp add: bs_put_book_def)
  moreover have "bs_inv n ?bs"
  proof -
    have "\<forall>x \<in> set ((bs_books bs)[unat locate := b]). book_inv x \<and> card (dom (book_orders x)) \<le> n"
      using inv b set_update_subset_insert [of "bs_books bs" "unat locate" b] by (auto simp: bs_inv_def)
    moreover have "\<forall>i < length (bs_books bs). \<not> bs_known bs ! i \<longrightarrow>
        book_orders ((bs_books bs)[unat locate := b] ! i) = Map.empty"
      using inv known by (auto simp: bs_inv_def bs_is_known_def nth_list_update)
    ultimately show ?thesis using inv by (simp add: bs_inv_def registered_def)
  qed
  moreover have "bs_view ?bs = (bs_view bs)(locate \<mapsto> book_orders b)"
  proof
    fix l
    have "unat l = unat locate \<longleftrightarrow> l = locate" by (simp add: word_unat_eq_iff)
    then show "bs_view ?bs l = ((bs_view bs)(locate \<mapsto> book_orders b)) l"
      using known lt by (auto simp: bs_view_def bs_is_known_def nth_list_update)
  qed
  ultimately show ?thesis by blast
qed

section \<open>Registration\<close>

definition spec_register :: "u16 \<Rightarrow> (u16 \<rightharpoonup> resting_map) \<Rightarrow> (u16 \<rightharpoonup> resting_map)" where
  "spec_register locate M = M(locate \<mapsto> (case M locate of None \<Rightarrow> Map.empty | Some m \<Rightarrow> m))"

definition grown :: "nat \<Rightarrow> book_set \<Rightarrow> book_set" where
  "grown n bs =
     (if n \<ge> length (bs_books bs)
      then bs\<lparr>bs_books := resize (bs_books bs) (n + 1) new_book,
              bs_symbols := resize (bs_symbols bs) (n + 1) no_stock,
              bs_known := resize (bs_known bs) (n + 1) False\<rparr>
      else bs)"

lemma length_resize [simp]: "length (resize xs n d) = n"
  by (simp add: resize_def)

lemma nth_resize: "i < n \<Longrightarrow> resize xs n d ! i = (if i < length xs then xs ! i else d)"
  by (auto simp: resize_def nth_append)

lemma set_resize: "set (resize xs n d) \<subseteq> insert d (set xs)"
  by (auto simp: resize_def dest: in_set_takeD)

lemma grown_correct:
  assumes inv: "bs_inv n bs" and k: "k < 65536"
  shows "bs_inv n (grown k bs)" and "bs_view (grown k bs) = bs_view bs" and "k < length (bs_books (grown k bs))"
    and "registered (grown k bs) = registered bs" and "bs_registered (grown k bs) = bs_registered bs"
proof -
  have len: "length (bs_known bs) = length (bs_books bs)" "length (bs_symbols bs) = length (bs_books bs)"
    using inv by (simp_all add: bs_inv_def)
  show "k < length (bs_books (grown k bs))" by (simp add: grown_def)
  show reg: "registered (grown k bs) = registered bs"
    using len by (auto simp: registered_def grown_def nth_resize split: if_splits)
  show cnt: "bs_registered (grown k bs) = bs_registered bs" by (simp add: grown_def)
  have set: "set (bs_books (grown k bs)) \<subseteq> insert new_book (set (bs_books bs))"
    using set_resize [of "bs_books bs" "k + 1" new_book] by (auto simp: grown_def)
  have "book_inv b \<and> card (dom (book_orders b)) \<le> n" if "b \<in> set (bs_books (grown k bs))" for b
    using that set inv book_inv_new book_orders_new by (auto simp: bs_inv_def)
  moreover have "book_orders (bs_books (grown k bs) ! i) = Map.empty"
    if "i < length (bs_books (grown k bs))" "\<not> bs_known (grown k bs) ! i" for i
    using that inv len book_orders_new by (auto simp: grown_def nth_resize bs_inv_def split: if_splits)
  ultimately show "bs_inv n (grown k bs)"
    using inv k len reg cnt by (simp add: bs_inv_def) (simp add: grown_def)
  show "bs_view (grown k bs) = bs_view bs"
    using len by (auto simp: fun_eq_iff bs_view_def bs_is_known_def grown_def nth_resize split: if_splits)
qed

lemma on_stock_directory_correct:
  assumes inv: "bs_inv n bs"
  shows "\<exists>bs'. on_stock_directory msg bs = Some bs' \<and> bs_inv n bs' \<and>
      bs_view bs' = spec_register (stock_locate (sd_header msg)) (bs_view bs) \<and>
      bs_symbol bs' (stock_locate (sd_header msg)) = Some (sd_stock msg)"
proof -
  let ?l = "stock_locate (sd_header msg)"
  let ?k = "unat ?l"
  let ?bs = "grown ?k bs"
  note g = grown_correct [OF inv unat_lt_16, of ?l]
  have len: "length (bs_known ?bs) = length (bs_books ?bs)" "length (bs_symbols ?bs) = length (bs_books ?bs)"
    using g(1) by (simp_all add: bs_inv_def)
  let ?bs' = "?bs\<lparr>bs_registered := (if bs_known ?bs ! ?k then bs_registered bs else bs_registered bs + 1),
      bs_symbols := (bs_symbols ?bs)[?k := sd_stock msg], bs_known := (bs_known ?bs)[?k := True]\<rparr>"
  have run: "on_stock_directory msg bs = Some ?bs'"
    unfolding on_stock_directory_def Let_def grown_def [symmetric]
    using g(3,5) len by (auto simp: Let_def)
  have reg: "registered ?bs' = insert ?k (registered bs)"
    unfolding g(4) [symmetric] using g(3) len by (auto simp: registered_def nth_list_update)
  have memb: "bs_known ?bs ! ?k \<longleftrightarrow> ?k \<in> registered bs"
    unfolding g(4) [symmetric] using g(3) len by (simp add: registered_def)
  have "bs_registered ?bs' = word_of_nat (card (insert ?k (registered bs)))"
    using inv memb by (simp add: bs_inv_def card_insert_if add.commute)
  moreover have "\<not> (bs_known ?bs)[?k := True] ! i \<Longrightarrow> i < length (bs_books ?bs) \<Longrightarrow>
      book_orders (bs_books ?bs ! i) = Map.empty" for i
    using g(1,3) len by (auto simp: bs_inv_def nth_list_update split: if_splits)
  ultimately have inv': "bs_inv n ?bs'"
    using g(1) reg by (simp add: bs_inv_def)
  have "bs_view ?bs' l = spec_register ?l (bs_view ?bs) l" for l
  proof (cases "l = ?l")
    case True
    have "bs_view ?bs ?l = None \<Longrightarrow> book_orders (bs_books ?bs ! ?k) = Map.empty"
      using g(1,3) len by (auto simp: bs_view_def bs_is_known_def bs_inv_def split: if_splits)
    moreover have "bs_view ?bs ?l = Some m \<Longrightarrow> book_orders (bs_books ?bs ! ?k) = m" for m
      by (auto simp: bs_view_def split: if_splits)
    moreover have "bs_view ?bs' ?l = Some (book_orders (bs_books ?bs ! ?k))"
      using g(3) len by (simp add: bs_view_def bs_is_known_def)
    ultimately show ?thesis using True by (simp add: spec_register_def split: option.split)
  next
    case False
    then have "unat l \<noteq> ?k" by (simp add: word_unat_eq_iff)
    then show ?thesis using False by (simp add: spec_register_def bs_view_def bs_is_known_def)
  qed
  then have "bs_view ?bs' = spec_register ?l (bs_view bs)" unfolding g(2) [symmetric] by (rule ext)
  moreover have "bs_symbol ?bs' ?l = Some (sd_stock msg)"
    using g(3) len by (simp add: bs_symbol_def bs_is_known_def)
  ultimately show ?thesis using run inv' by blast
qed

section \<open>The sweeps\<close>

definition no_empty_level :: "resting_map \<Rightarrow> bool" where
  "no_empty_level m \<longleftrightarrow> (\<forall>ref ord. m ref = Some ord \<longrightarrow> qty_at m (r_side ord) (r_price ord) \<noteq> 0)"

lemma book_fast: "book_inv b \<Longrightarrow> check_invariants_fast b"
  using ix.count_law [of "ob_orders b"]
  by (simp add: book_inv_def check_invariants_fast_def book_orders_def)

lemma bs_check_invariants_fast_correct: "bs_inv n bs \<Longrightarrow> bs_check_invariants_fast bs"
  using book_fast by (auto simp: bs_check_invariants_fast_def bs_inv_def list_all_iff)

lemma sweep_books:
  assumes inv: "bs_inv n bs" and k: "k \<le> length (bs_books bs)"
  shows "foldM (sweep_book bs) [0..<k] True =
     Some (\<forall>i < k. bs_known bs ! i \<longrightarrow> no_empty_level (book_orders (bs_books bs ! i)))"
  using k
proof (induction k)
  case (Suc k)
  have lt: "k < length (bs_books bs)" "k < length (bs_known bs)" using Suc.prems inv by (simp_all add: bs_inv_def)
  have "book_inv (bs_books bs ! k)" using inv lt(1) by (simp add: bs_inv_def)
  then have "sweep_book bs k ok =
      Some (ok \<and> (bs_known bs ! k \<longrightarrow> no_empty_level (book_orders (bs_books bs ! k))))" for ok
    using lt by (simp add: sweep_book_def check_invariants_correct no_empty_level_def)
  moreover have "foldM (sweep_book bs) [0..<Suc k] True =
      do { ok \<leftarrow> foldM (sweep_book bs) [0..<k] True; sweep_book bs k ok }"
    by (simp add: foldM_snoc)
  ultimately show ?case using Suc by (auto simp: less_Suc_eq)
qed simp

lemma bs_check_invariants_correct:
  assumes inv: "bs_inv n bs"
  shows "bs_check_invariants bs = Some (\<forall>l m. bs_view bs l = Some m \<longrightarrow> no_empty_level m)"
proof -
  have len: "length (bs_known bs) = length (bs_books bs)" "length (bs_symbols bs) = length (bs_books bs)"
    "length (bs_books bs) \<le> 65536"
    using inv by (simp_all add: bs_inv_def)
  have "(\<forall>i < length (bs_books bs). bs_known bs ! i \<longrightarrow> no_empty_level (book_orders (bs_books bs ! i))) \<longleftrightarrow>
      (\<forall>l m. bs_view bs l = Some m \<longrightarrow> no_empty_level m)"
  proof (intro iffI allI impI)
    fix l m assume all: "\<forall>i < length (bs_books bs). bs_known bs ! i \<longrightarrow> no_empty_level (book_orders (bs_books bs ! i))"
      and m: "bs_view bs l = Some m"
    then show "no_empty_level m" using len by (auto simp: bs_view_def bs_is_known_def split: if_splits)
  next
    fix i assume all: "\<forall>l m. bs_view bs l = Some m \<longrightarrow> no_empty_level m" and i: "i < length (bs_books bs)" "bs_known bs ! i"
    have "unat (word_of_nat i :: u16) = i" using i(1) len(3) by (simp add: unat_of_nat take_bit_eq_mod)
    then have "bs_view bs (word_of_nat i) = Some (book_orders (bs_books bs ! i))"
      using i len by (simp add: bs_view_def bs_is_known_def)
    then show "no_empty_level (book_orders (bs_books bs ! i))" using all by blast
  qed
  then show ?thesis
    using len sweep_books [OF inv order.refl] by (simp add: bs_check_invariants_def)
qed

text \<open>The total over all books.\<close>

definition view_total :: "(u16 \<rightharpoonup> resting_map) \<Rightarrow> nat" where
  "view_total M = (\<Sum>l \<in> dom M. total_qty (the (M l)))"

lemma finite_view [simp]: "finite (dom (M :: u16 \<rightharpoonup> resting_map))"
  by (rule finite_subset [of _ UNIV]) simp_all

lemma view_total_empty [simp]: "view_total Map.empty = 0"
  by (simp add: view_total_def)

lemma view_total_put:
  "view_total (M(l \<mapsto> m)) + (case M l of None \<Rightarrow> 0 | Some old \<Rightarrow> total_qty old) = view_total M + total_qty m"
proof -
  have other: "(\<Sum>k \<in> dom M - {l}. total_qty (the ((M(l \<mapsto> m)) k))) = (\<Sum>k \<in> dom M - {l}. total_qty (the (M k)))"
    by (rule sum.cong) auto
  have "view_total (M(l \<mapsto> m)) = total_qty m + (\<Sum>k \<in> dom M - {l}. total_qty (the ((M(l \<mapsto> m)) k)))"
  proof -
    have dom: "dom (M(l \<mapsto> m)) = insert l (dom M)" by simp
    have "sum f (insert l (dom M)) = f l + sum f (dom M - {l})" for f :: "u16 \<Rightarrow> nat"
      by (rule sum.insert_remove [OF finite_view])
    then show ?thesis unfolding view_total_def dom by simp
  qed
  moreover have "view_total M = (case M l of None \<Rightarrow> 0 | Some old \<Rightarrow> total_qty old) +
      (\<Sum>k \<in> dom M - {l}. total_qty (the (M k)))"
    unfolding view_total_def
    by (cases "M l") (auto simp: domIff sum.remove [of "dom M" l])
  ultimately show ?thesis using other by simp
qed

lemma fold_resting:
  "fold (\<lambda>b total. total + resting_shares b) bs t = t + (\<Sum>b \<leftarrow> bs. resting_shares b)"
  by (induction bs arbitrary: t) (simp_all add: add.assoc)

lemma bs_resting_shares_correct:
  assumes inv: "bs_inv n bs"
  shows "bs_resting_shares bs = word_of_nat (view_total (bs_view bs))"
proof -
  let ?n = "length (bs_books bs)"
  have len: "length (bs_known bs) = ?n" "?n \<le> 65536" using inv by (simp_all add: bs_inv_def)
  have book: "resting_shares (bs_books bs ! i) = word_of_nat (total_qty (book_orders (bs_books bs ! i)))"
    if "i < ?n" for i
    using that inv by (simp add: bs_inv_def resting_shares_def book_invD(4))
  have fits: "unat (word_of_nat i :: u16) = i" if "i < ?n" for i
    using that len(2) by (simp add: unat_of_nat take_bit_eq_mod)
  have dom: "dom (bs_view bs) = word_of_nat ` registered bs"
  proof (intro set_eqI iffI)
    fix l assume "l \<in> dom (bs_view bs)"
    then have "unat l \<in> registered bs" by (auto simp: bs_view_def bs_is_known_def registered_def split: if_splits)
    then show "l \<in> word_of_nat ` registered bs" by (metis image_eqI of_nat_unat ucast_id)
  next
    fix l assume "l \<in> (word_of_nat ` registered bs :: u16 set)"
    then show "l \<in> dom (bs_view bs)"
      using len fits by (auto simp: bs_view_def bs_is_known_def registered_def)
  qed
  have inj: "inj_on (word_of_nat :: nat \<Rightarrow> u16) (registered bs)"
    by (rule inj_on_inverseI [of _ unat]) (use fits len in \<open>auto simp: registered_def\<close>)
  have view: "total_qty (the (bs_view bs (word_of_nat i))) = total_qty (book_orders (bs_books bs ! i))"
    if "i \<in> registered bs" for i
    using that fits len by (auto simp: bs_view_def bs_is_known_def registered_def)
  have "bs_resting_shares bs = (\<Sum>b \<leftarrow> bs_books bs. resting_shares b)"
    by (simp add: bs_resting_shares_def fold_resting)
  also have "\<dots> = (\<Sum>i < ?n. resting_shares (bs_books bs ! i))"
    by (simp add: sum_list_sum_nth atLeast0LessThan)
  also have "\<dots> = (\<Sum>i < ?n. word_of_nat (total_qty (book_orders (bs_books bs ! i))))"
    by (rule sum.cong) (simp_all add: book)
  also have "\<dots> = (\<Sum>i \<in> registered bs. word_of_nat (total_qty (book_orders (bs_books bs ! i))))"
    by (rule sum.mono_neutral_right) (use inv len in \<open>auto simp: registered_def bs_inv_def\<close>)
  also have "\<dots> = word_of_nat (\<Sum>i \<in> registered bs. total_qty (book_orders (bs_books bs ! i)))" by simp
  also have "(\<Sum>i \<in> registered bs. total_qty (book_orders (bs_books bs ! i))) = view_total (bs_view bs)"
    unfolding view_total_def dom using view by (simp add: sum.reindex [OF inj])
  finally show ?thesis .
qed

end
