(* ===== verification/Framing.thy ===== *)
theory Framing
  imports Wire_Bytes
begin

text \<open>
  The length prefixed walk of \<open>src/itch/framing.cc\<close>: \<open>Framer\<close> with its unsigned offset
  arithmetic, the loop its clients run, and the list of messages a buffer holds.
\<close>

section \<open>The framer\<close>

record message_view =
  mv_data :: bytes
  mv_size :: size_t

record framer =
  fr_data :: bytes
  fr_size :: size_t
  fr_pos :: size_t

definition new_framer :: "bytes \<Rightarrow> size_t \<Rightarrow> framer" where
  "new_framer data n = \<lparr>fr_data = data, fr_size = n, fr_pos = 0\<rparr>"

text \<open>\<open>Some (None, _)\<close> is the result false.\<close>

definition framer_next :: "framer \<Rightarrow> (message_view option \<times> framer) option" where
  "framer_next fr =
     (if fr_size fr - fr_pos fr < 2 then Some (None, fr)
      else do {
        msg_len \<leftarrow> be16 (drop (unat (fr_pos fr)) (fr_data fr));
        if msg_len = 0 then Some (None, fr)
        else if fr_size fr - fr_pos fr - 2 < ucast msg_len then Some (None, fr)
        else Some (Some \<lparr>mv_data = drop (unat (fr_pos fr) + 2) (fr_data fr), mv_size = ucast msg_len\<rparr>,
                   fr\<lparr>fr_pos := fr_pos fr + (2 + ucast msg_len)\<rparr>) })"

definition framer_offset :: "framer \<Rightarrow> size_t" where
  "framer_offset fr = fr_pos fr"

definition framer_exhausted :: "framer \<Rightarrow> bool" where
  "framer_exhausted fr \<longleftrightarrow> fr_pos fr = fr_size fr"

text \<open>
  \<open>while (framer.next(mv)) body\<close>. The body says whether the loop goes on (\<open>False\<close> is a
  \<open>break\<close>).
\<close>

partial_function (option) framer_walk ::
    "(message_view \<Rightarrow> 's \<Rightarrow> (bool \<times> 's) option) \<Rightarrow> framer \<Rightarrow> 's \<Rightarrow> (framer \<times> 's) option" where
  "framer_walk body fr s =
     do { (mv, fr) \<leftarrow> framer_next fr;
          case mv of
            None \<Rightarrow> Some (fr, s)
          | Some v \<Rightarrow> do { (go, s) \<leftarrow> body v s;
                          if go then framer_walk body fr s else Some (fr, s) } }"

declare framer_walk.simps [code]

section \<open>The messages of a buffer\<close>

text \<open>The message views in the \<open>n\<close> bytes at \<open>p\<close>.\<close>

function frame_views :: "nat \<Rightarrow> bytes \<Rightarrow> message_view list" where
  "frame_views n p =
     (if n < 2 then []
      else case be16 p of
        None \<Rightarrow> []
      | Some len \<Rightarrow>
          if len = 0 \<or> n - 2 < unat len then []
          else \<lparr>mv_data = drop 2 p, mv_size = ucast len\<rparr> #
               frame_views (n - 2 - unat len) (drop (2 + unat len) p))"
  by auto
termination by (relation "measure fst") auto

declare frame_views.simps [simp del]

text \<open>The same as bytes, read off the list: the messages and what is left over.\<close>

function split_frames :: "bytes \<Rightarrow> bytes list \<times> bytes" where
  "split_frames bs =
     (case be16 bs of
        None \<Rightarrow> ([], bs)
      | Some len \<Rightarrow>
          if len = 0 \<or> length bs < 2 + unat len then ([], bs)
          else (let (fs, rest) = split_frames (drop (2 + unat len) bs)
                in (take (unat len) (drop 2 bs) # fs, rest)))"
  by auto
termination by (relation "measure length") auto

declare split_frames.simps [simp del]

definition view_bytes :: "message_view \<Rightarrow> bytes" where
  "view_bytes v = take (unat (mv_size v)) (mv_data v)"

definition frames_length :: "message_view list \<Rightarrow> nat" where
  "frames_length vs = (\<Sum>v \<leftarrow> vs. 2 + unat (mv_size v))"

fun walk_views :: "(message_view \<Rightarrow> 's \<Rightarrow> (bool \<times> 's) option) \<Rightarrow> message_view list \<Rightarrow> 's \<Rightarrow> (message_view list \<times> 's) option" where
  "walk_views body [] s = Some ([], s)"
| "walk_views body (v # vs) s =
     do { (go, s) \<leftarrow> body v s;
          if go then map_option (\<lambda>(taken, s). (v # taken, s)) (walk_views body vs s)
          else Some ([v], s) }"

section \<open>The framer against the list of messages\<close>

definition fr_ok :: "framer \<Rightarrow> bool" where
  "fr_ok fr \<longleftrightarrow> unat (fr_size fr) \<le> length (fr_data fr) \<and> fr_pos fr \<le> fr_size fr"

definition fr_left :: "framer \<Rightarrow> nat" where
  "fr_left fr = unat (fr_size fr) - unat (fr_pos fr)"

definition fr_views :: "framer \<Rightarrow> message_view list" where
  "fr_views fr = frame_views (fr_left fr) (drop (unat (fr_pos fr)) (fr_data fr))"

lemma unat_ucast_16_64: "unat (ucast (len :: u16) :: u64) = unat len"
  using unat_lt_16 [of len] by (simp add: unsigned_ucast_eq take_bit_nat_eq_self_iff)

lemma be16_take: "2 \<le> n \<Longrightarrow> be16 (take n p) = be16 p"
  by (simp add: be16_def bytes_at_def min_def)

lemma frame_step:
  assumes ok: "fr_ok fr"
  shows "framer_next fr =
     (case fr_views fr of
        [] \<Rightarrow> Some (None, fr)
      | v # vs \<Rightarrow> Some (Some v, fr\<lparr>fr_pos := fr_pos fr + word_of_nat (2 + unat (mv_size v))\<rparr>))"
    and "fr_views fr = v # vs \<Longrightarrow>
      fr_ok (fr\<lparr>fr_pos := fr_pos fr + word_of_nat (2 + unat (mv_size v))\<rparr>) \<and>
      fr_views (fr\<lparr>fr_pos := fr_pos fr + word_of_nat (2 + unat (mv_size v))\<rparr>) = vs \<and>
      unat (fr_pos fr + word_of_nat (2 + unat (mv_size v))) = unat (fr_pos fr) + (2 + unat (mv_size v))"
proof -
  let ?p = "drop (unat (fr_pos fr)) (fr_data fr)"
  have le: "fr_pos fr \<le> fr_size fr" "unat (fr_size fr) \<le> length (fr_data fr)" "unat (fr_pos fr) \<le> unat (fr_size fr)"
    using ok by (auto simp: fr_ok_def word_le_nat_alt)
  have left: "unat (fr_size fr - fr_pos fr) = fr_left fr" using unat_sub [OF le(1)] by (simp add: fr_left_def)
  have two: "fr_size fr - fr_pos fr < 2 \<longleftrightarrow> fr_left fr < 2" by (simp add: word_less_nat_alt left)
  show "framer_next fr =
     (case fr_views fr of
        [] \<Rightarrow> Some (None, fr)
      | v # vs \<Rightarrow> Some (Some v, fr\<lparr>fr_pos := fr_pos fr + word_of_nat (2 + unat (mv_size v))\<rparr>))"
  proof (cases "fr_left fr < 2")
    case True
    then show ?thesis by (simp add: framer_next_def two fr_views_def frame_views.simps)
  next
    case False
    then have "2 \<le> length ?p" using le by (simp add: fr_left_def)
    then obtain len where len: "be16 ?p = Some len" using be_None(1) [of ?p] by fastforce
    have "2 \<le> fr_size fr - fr_pos fr" using False two by simp
    from unat_sub [OF this] have "unat (fr_size fr - fr_pos fr - 2) = fr_left fr - 2" by (simp add: left)
    then have "fr_size fr - fr_pos fr - 2 < ucast len \<longleftrightarrow> fr_left fr - 2 < unat len"
      by (simp add: word_less_nat_alt unat_ucast_16_64)
    then show ?thesis
      using False len
      by (simp add: framer_next_def two fr_views_def frame_views.simps [of _ ?p] unat_ucast_16_64 add.commute)
  qed
  assume v: "fr_views fr = v # vs"
  then have n: "2 \<le> fr_left fr" by (auto simp: fr_views_def frame_views.simps [of _ ?p] split: if_splits)
  obtain len where len: "be16 ?p = Some len" "unat len \<le> fr_left fr - 2" "mv_size v = ucast len"
    "vs = frame_views (fr_left fr - 2 - unat len) (drop (2 + unat len) ?p)"
    using v n unfolding fr_views_def frame_views.simps [of _ ?p] by (auto split: option.splits if_splits)
  let ?n = "2 + unat (mv_size v)"
  have size: "unat (mv_size v) = unat len" using len(3) by (simp add: unat_ucast_16_64)
  have sum: "unat (fr_pos fr) + ?n \<le> unat (fr_size fr)" using len(2) n size by (simp add: fr_left_def)
  then have lt: "unat (fr_pos fr) + ?n < 2 ^ 64" using unat_lt_64 [of "fr_size fr"] by simp
  then have "unat (word_of_nat (unat (fr_pos fr) + ?n) :: u64) = unat (fr_pos fr) + ?n" by (rule unat_of_nat_64)
  then have pos: "unat (fr_pos fr + word_of_nat ?n) = unat (fr_pos fr) + ?n" by (simp only: of_nat_add of_nat_unat ucast_id)
  define pos' where "pos' = fr_pos fr + word_of_nat ?n"
  have pos': "unat pos' = unat (fr_pos fr) + ?n" unfolding pos'_def by (rule pos)
  then have "pos' \<le> fr_size fr" using sum by (simp add: word_le_nat_alt)
  then have "fr_ok (fr\<lparr>fr_pos := pos'\<rparr>)" using le(2) by (simp add: fr_ok_def)
  moreover have "fr_views (fr\<lparr>fr_pos := pos'\<rparr>) = vs"
    unfolding len(4) by (simp add: fr_views_def fr_left_def pos' size add.commute add.left_commute)
  ultimately show "fr_ok (fr\<lparr>fr_pos := fr_pos fr + word_of_nat ?n\<rparr>) \<and>
      fr_views (fr\<lparr>fr_pos := fr_pos fr + word_of_nat ?n\<rparr>) = vs \<and>
      unat (fr_pos fr + word_of_nat ?n) = unat (fr_pos fr) + ?n"
    using pos unfolding pos'_def by blast
qed

text \<open>The loop of a client is the fold over the messages, and its offset counts what it took.\<close>

lemma framer_walk_correct:
  assumes "fr_ok fr"
  shows "framer_walk body fr s =
     map_option (\<lambda>(taken, s'). (fr\<lparr>fr_pos := fr_pos fr + word_of_nat (frames_length taken)\<rparr>, s'))
       (walk_views body (fr_views fr) s)"
  using assms
proof (induction "fr_views fr" arbitrary: fr s)
  case Nil
  then show ?case
    using frame_step(1) [OF Nil.prems] by (subst framer_walk.simps) (simp add: frames_length_def flip: Nil.hyps)
next
  case (Cons v vs)
  define fr' where "fr' = fr\<lparr>fr_pos := fr_pos fr + word_of_nat (2 + unat (mv_size v))\<rparr>"
  have views: "fr_views fr = v # vs" using Cons.hyps(2) by simp
  have run: "framer_next fr = Some (Some v, fr')"
    unfolding frame_step(1) [OF Cons.prems] views fr'_def by simp
  have fr': "fr_ok fr'" "fr_views fr' = vs"
    unfolding fr'_def using frame_step(2) [OF Cons.prems views] by blast+
  have IH: "framer_walk body fr' t = map_option (\<lambda>(taken, s'). (fr'\<lparr>fr_pos := fr_pos fr' + word_of_nat (frames_length taken)\<rparr>, s'))
       (walk_views body vs t)" for t
    using Cons.hyps(1) [of fr' t] fr' by simp
  show ?case
  proof (cases "body v s")
    case None
    then show ?thesis unfolding views by (subst framer_walk.simps) (simp add: run)
  next
    case (Some gs)
    obtain go t where gs: "gs = (go, t)" by (cases gs)
    have "walk_views body (v # vs) s = (if go then map_option (\<lambda>(taken, s). (v # taken, s)) (walk_views body vs t)
        else Some ([v], t))"
      using Some gs by simp
    moreover have "framer_walk body fr s = (if go then framer_walk body fr' t else Some (fr', t))"
      using Some gs by (subst framer_walk.simps) (simp add: run)
    ultimately show ?thesis
      unfolding views IH
      by (cases "walk_views body vs t") (auto simp: fr'_def frames_length_def ac_simps)
  qed
qed

text \<open>The messages are the ones the list parser finds, and the rest is what it leaves.\<close>

lemma frame_views_split:
  assumes "n \<le> length p"
  shows "map view_bytes (frame_views n p) = fst (split_frames (take n p))"
    and "frames_length (frame_views n p) + length (snd (split_frames (take n p))) = n"
proof -
  have "map view_bytes (frame_views n p) = fst (split_frames (take n p)) \<and>
      frames_length (frame_views n p) + length (snd (split_frames (take n p))) = n"
    using assms
  proof (induction n p rule: frame_views.induct)
    case (1 n p)
    show ?case
    proof (cases "n < 2")
      case True
      then have none: "be16 (take n p) = None" unfolding be_None by simp
      have "split_frames (take n p) = ([], take n p)"
        unfolding split_frames.simps [of "take n p"] none by simp
      then show ?thesis using True 1(2) by (simp add: frame_views.simps [of n] frames_length_def)
    next
      case False
      then obtain len where len: "be16 p = Some len" using 1(2) be_None(1) [of p] by fastforce
      then have len': "be16 (take n p) = Some len" using False by (simp add: be16_take)
      show ?thesis
      proof (cases "len = 0 \<or> n - 2 < unat len")
        case True
        then have "len = 0 \<or> length (take n p) < 2 + unat len" using 1(2) by auto
        then show ?thesis
          using True False len len' 1(2)
          by (simp add: frame_views.simps [of n] split_frames.simps [of "take n p"] frames_length_def)
      next
        case fits: False
        let ?n = "n - 2 - unat len" and ?p = "drop (2 + unat len) p"
        have IH: "map view_bytes (frame_views ?n ?p) = fst (split_frames (take ?n ?p)) \<and>
            frames_length (frame_views ?n ?p) + length (snd (split_frames (take ?n ?p))) = ?n"
          using 1(1) [OF False len] fits 1(2) by simp
        have views: "frame_views n p = \<lparr>mv_data = drop 2 p, mv_size = ucast len\<rparr> # frame_views ?n ?p"
          using fits False len by (simp add: frame_views.simps [of n])
        have rest: "drop (2 + unat len) (take n p) = take ?n ?p" by (simp add: drop_take)
        have "\<not> (len = 0 \<or> length (take n p) < 2 + unat len)" using fits False 1(2) by auto
        then have "split_frames (take n p) =
            (take (unat len) (drop 2 (take n p)) # fst (split_frames (take ?n ?p)), snd (split_frames (take ?n ?p)))"
          unfolding split_frames.simps [of "take n p"] len' option.case if_not_P rest
          by (simp add: case_prod_unfold Let_def)
        moreover have "take (unat len) (drop 2 (take n p)) = take (unat len) (drop 2 p)"
          using fits False by (simp add: drop_take min_def)
        moreover have "view_bytes \<lparr>mv_data = drop 2 p, mv_size = ucast len\<rparr> = take (unat len) (drop 2 p)"
          by (simp add: view_bytes_def unat_ucast_16_64)
        moreover have "frames_length (frame_views n p) = 2 + unat len + frames_length (frame_views ?n ?p)"
          unfolding views by (simp add: frames_length_def unat_ucast_16_64)
        moreover have "2 + unat len \<le> n" using fits False by auto
        ultimately show ?thesis using conjunct1 [OF IH] conjunct2 [OF IH] by (simp add: views)
      qed
    qed
  qed
  then show "map view_bytes (frame_views n p) = fst (split_frames (take n p))"
    and "frames_length (frame_views n p) + length (snd (split_frames (take n p))) = n" by blast+
qed

text \<open>Every view is inside the buffer and names at least the type byte.\<close>

lemma frame_views_inside:
  "n \<le> length p \<Longrightarrow> v \<in> set (frame_views n p) \<Longrightarrow>
     mv_size v \<noteq> 0 \<and> unat (mv_size v) \<le> length (mv_data v) \<and> unat (mv_size v) < 65536"
proof (induction n p rule: frame_views.induct)
  case (1 n p)
  have two: "\<not> n < 2" using 1(3) by (auto simp: frame_views.simps [of n])
  then obtain len where len16: "be16 p = Some len"
    using 1(3) by (cases "be16 p") (auto simp: frame_views.simps [of n])
  have fits: "\<not> (len = 0 \<or> n - 2 < unat len)"
    using 1(3) two len16 by (auto simp: frame_views.simps [of n])
  note len = two len16 fits
  have v: "v = \<lparr>mv_data = drop 2 p, mv_size = ucast len\<rparr> \<or>
      v \<in> set (frame_views (n - 2 - unat len) (drop (2 + unat len) p))"
    using 1(3) len by (simp add: frame_views.simps [of n])
  show ?case
  proof (cases "v = \<lparr>mv_data = drop 2 p, mv_size = ucast len\<rparr>")
    case True
    have "unat (ucast len :: u64) \<noteq> 0" unfolding unat_ucast_16_64 using len(3) by (auto simp: unat_gt_0)
    then have "(ucast len :: u64) \<noteq> 0" by auto
    moreover have "unat len \<le> length p - 2" using len(3) 1(2) by linarith
    ultimately show ?thesis using True unat_lt_16 [of len] by (simp add: unat_ucast_16_64)
  next
    case False
    then show ?thesis using 1(1) [OF len] v 1(2) len by simp
  qed
qed

text \<open>Where the walk over a whole buffer stops.\<close>

definition framer_end :: "framer \<Rightarrow> framer" where
  "framer_end fr = fr\<lparr>fr_pos := fr_pos fr + word_of_nat (frames_length (fr_views fr))\<rparr>"

lemma split_frames_rest: "\<exists>xs. bs = xs @ snd (split_frames bs)"
proof (induction bs rule: split_frames.induct)
  case (1 bs)
  show ?case
  proof (cases "be16 bs")
    case None
    then show ?thesis unfolding split_frames.simps [of bs] by (simp only: option.case snd_conv) blast
  next
    case (Some len)
    show ?thesis
    proof (cases "len = 0 \<or> length bs < 2 + unat len")
      case True
      then show ?thesis using Some by (simp add: split_frames.simps [of bs])
    next
      case False
      then obtain xs where "drop (2 + unat len) bs = xs @ snd (split_frames (drop (2 + unat len) bs))"
        using 1 [OF Some] by blast
      then have "bs = (take (2 + unat len) bs @ xs) @ snd (split_frames (drop (2 + unat len) bs))"
        by (metis append.assoc append_take_drop_id)
      moreover have "snd (split_frames bs) = snd (split_frames (drop (2 + unat len) bs))"
        using Some False by (simp add: split_frames.simps [of bs] case_prod_unfold Let_def)
      ultimately show ?thesis by metis
    qed
  qed
qed

lemma framer_end_correct:
  assumes ok: "fr_ok fr"
  defines "rest \<equiv> snd (split_frames (take (fr_left fr) (drop (unat (fr_pos fr)) (fr_data fr))))"
  shows "unat (framer_offset (framer_end fr)) = unat (framer_offset fr) + frames_length (fr_views fr)"
    and "drop (unat (framer_offset (framer_end fr))) (take (unat (fr_size fr)) (fr_data fr)) = rest"
    and "framer_exhausted (framer_end fr) \<longleftrightarrow> rest = []"
proof -
  let ?p = "drop (unat (fr_pos fr)) (fr_data fr)"
  have le: "unat (fr_pos fr) \<le> unat (fr_size fr)" "unat (fr_size fr) \<le> length (fr_data fr)"
    using ok by (auto simp: fr_ok_def word_le_nat_alt)
  then have "fr_left fr \<le> length ?p" by (simp add: fr_left_def)
  from frame_views_split(2) [OF this] have sum: "frames_length (fr_views fr) + length rest = fr_left fr"
    by (simp add: rest_def fr_views_def)
  then have "unat (fr_pos fr) + frames_length (fr_views fr) < 2 ^ 64"
    using le unat_lt_64 [of "fr_size fr"] unfolding fr_left_def by simp
  then have "unat (word_of_nat (unat (fr_pos fr) + frames_length (fr_views fr)) :: u64) =
      unat (fr_pos fr) + frames_length (fr_views fr)" by (rule unat_of_nat_64)
  then have pos: "unat (fr_pos (framer_end fr)) = unat (fr_pos fr) + frames_length (fr_views fr)"
    by (simp add: framer_end_def of_nat_add)
  then show "unat (framer_offset (framer_end fr)) = unat (framer_offset fr) + frames_length (fr_views fr)"
    by (simp add: framer_offset_def)
  have "fr_size (framer_end fr) = fr_size fr" by (simp add: framer_end_def)
  then show "framer_exhausted (framer_end fr) \<longleftrightarrow> rest = []"
    using pos sum le(1) unfolding framer_exhausted_def word_unat_eq_iff fr_left_def
    by (cases rest) simp_all
  obtain xs where xs: "take (fr_left fr) ?p = xs @ rest" using split_frames_rest unfolding rest_def by blast
  then have "length xs = frames_length (fr_views fr)"
    using sum \<open>fr_left fr \<le> length ?p\<close> by (metis add_right_cancel length_append length_take min.absorb2)
  moreover have "drop (unat (fr_pos fr)) (take (unat (fr_size fr)) (fr_data fr)) = xs @ rest"
    using xs by (simp add: fr_left_def drop_take)
  ultimately show "drop (unat (framer_offset (framer_end fr))) (take (unat (fr_size fr)) (fr_data fr)) = rest"
    using pos by (simp add: framer_offset_def flip: drop_drop) (metis append_eq_conv_conj drop_drop add.commute)
qed

definition frame :: "bytes \<Rightarrow> bytes" where
  "frame msg = be_bytes 2 (word_of_nat (length msg) :: u16) @ msg"

lemma split_frames_frame:
  assumes "msg \<noteq> []" and "length msg < 65536"
  shows "split_frames (frame msg @ rest) = (msg # fst (split_frames rest), snd (split_frames rest))"
proof -
  let ?len = "word_of_nat (length msg) :: u16"
  have len: "unat ?len = length msg" using assms(2) by (simp add: unat_of_nat take_bit_eq_mod)
  then have "?len \<noteq> 0" using assms(1) by (metis length_0_conv unat_0)
  moreover have "be16 (frame msg @ rest) = Some ?len" by (simp add: frame_def be16_bytes)
  ultimately show ?thesis
    by (simp add: split_frames.simps [of "frame msg @ rest"] len) (simp add: frame_def case_prod_unfold)
qed

lemma split_frames_framed:
  assumes "\<forall>m \<in> set msgs. m \<noteq> [] \<and> length m < 65536"
  shows "split_frames (concat (map frame msgs)) = (msgs, [])"
  using assms
proof (induction msgs)
  case Nil
  then show ?case by (simp add: split_frames.simps [of "[]"] be16_def bytes_at_def)
next
  case (Cons m msgs)
  then show ?case using split_frames_frame [of m "concat (map frame msgs)"] by simp
qed

lemma new_framer_ok: "unat n \<le> length data \<Longrightarrow> fr_ok (new_framer data n)"
  by (simp add: fr_ok_def new_framer_def)

lemma new_framer_views: "fr_views (new_framer data n) = frame_views (unat n) data"
  by (simp add: fr_views_def fr_left_def new_framer_def)

text \<open>A body without \<open>break\<close>: the loop is a fold and ends at the first byte it cannot frame.\<close>

lemma walk_views_all:
  "walk_views (\<lambda>v s. map_option (Pair True) (f v s)) vs s = map_option (Pair vs) (foldM f vs s)"
  by (induction vs arbitrary: s)
    (auto split: Option.bind_split simp: map_option.compositionality comp_def intro!: Option.option.map_cong)

section \<open>The interface to what handles the messages\<close>

text \<open>
  The loop over a buffer relies on its body for one message at a time: the body never asks to stop
  and implements a specification. \<open>apply_message\<close> and the loop of the feed handler are such bodies.
\<close>

locale message_handler =
  fixes body :: "message_view \<Rightarrow> 's \<Rightarrow> (bool \<times> 's) option" and inv :: "nat \<Rightarrow> 's \<Rightarrow> bool" and view :: "'s \<Rightarrow> 'v"
    and spec :: "message_view \<Rightarrow> 'v \<Rightarrow> 'v" and ok :: "message_view \<Rightarrow> bool" and limit :: nat
  assumes handles: "inv n s \<Longrightarrow> n + 1 < limit \<Longrightarrow> ok m \<Longrightarrow>
    \<exists>s'. body m s = Some (True, s') \<and> inv (n + 1) s' \<and> view s' = spec m (view s)"

sublocale message_handler \<subseteq> steps: counted_steps "\<lambda>m s. map_option snd (body m s)" inv view spec ok limit
  by unfold_locales (use handles in fastforce)

context message_handler begin

lemma walk_views_goes_on:
  assumes "inv n s" and "n + length vs < limit" and "\<forall>v \<in> set vs. ok v"
  shows "walk_views body vs s = map_option (Pair vs) (foldM (\<lambda>m s. map_option snd (body m s)) vs s)"
  using assms
proof (induction vs arbitrary: n s)
  case (Cons v vs)
  have "n + 1 < limit" "ok v" using Cons.prems(2,3) by simp_all
  from handles [OF Cons.prems(1) this] obtain s1 where s1: "body v s = Some (True, s1)" "inv (n + 1) s1" by blast
  have "n + 1 + length vs < limit" "\<forall>v \<in> set vs. ok v" using Cons.prems(2,3) by simp_all
  from Cons.IH [OF s1(2) this] show ?case using s1(1) by (simp add: option.map_comp comp_def)
qed simp

text \<open>A whole buffer: the loop ends after its last message, in the state of the specification.\<close>

lemma walk_refines:
  assumes "unat n \<le> length data" and "inv k s" and "k + length (frame_views (unat n) data) < limit"
    and "\<forall>v \<in> set (frame_views (unat n) data). ok v"
  obtains s' where "framer_walk body (new_framer data n) s =
      Some ((new_framer data n)\<lparr>fr_pos := word_of_nat (frames_length (frame_views (unat n) data))\<rparr>, s')"
    and "inv (k + length (frame_views (unat n) data)) s'"
    and "view s' = fold spec (frame_views (unat n) data) (view s)"
proof -
  obtain s' where s': "foldM (\<lambda>m s. map_option snd (body m s)) (frame_views (unat n) data) s = Some s'"
    "inv (k + length (frame_views (unat n) data)) s'"
    "view s' = fold spec (frame_views (unat n) data) (view s)"
    by (rule steps.fold_refines [OF assms(2-4)])
  have "framer_walk body (new_framer data n) s =
      Some ((new_framer data n)\<lparr>fr_pos := word_of_nat (frames_length (frame_views (unat n) data))\<rparr>, s')"
    unfolding framer_walk_correct [OF new_framer_ok [OF assms(1)]] new_framer_views
      walk_views_goes_on [OF assms(2-4)] s'(1) by (simp add: new_framer_def)
  then show thesis using s'(2,3) by (rule that)
qed

end

end
