(* ===== verification/Itch_Wire.thy ===== *)
theory Itch_Wire
  imports Itch_Messages
begin

text \<open>
  The layouts of the ITCH messages written out as byte lists, and the proof that each decoder
  of \<open>src/itch/decoder.cc\<close> inverts its layout whatever follows in the buffer. The layouts are
  the specification: the program only decodes. Under its type byte every decoder is a \<open>codec\<close> of
  its layout, so it loses nothing of the bytes it reads and returns only well-typed values.
\<close>

section \<open>Layouts\<close>

definition wire_header :: "char \<Rightarrow> header \<Rightarrow> bytes" where
  "wire_header t h =
     of_chr t # be_bytes 2 (stock_locate h) @ be_bytes 2 (tracking_number h) @ be_bytes 6 (timestamp h)"

definition wire_stock :: "stock \<Rightarrow> bytes" where
  "wire_stock st = map of_chr st"

definition wire_system_event :: "system_event \<Rightarrow> bytes" where
  "wire_system_event m = wire_header (CHR ''S'') (se_header m) @ [of_chr (se_event_code m)]"

definition wire_stock_directory :: "bytes \<Rightarrow> u8 \<Rightarrow> stock_directory \<Rightarrow> bytes" where
  "wire_stock_directory tail financial m =
     wire_header (CHR ''R'') (sd_header m) @ wire_stock (sd_stock m) @
     [of_chr (sd_market_category m), financial] @ be_bytes 4 (sd_round_lot_size m) @ tail"

definition wire_add_order :: "char \<Rightarrow> add_order \<Rightarrow> bytes" where
  "wire_add_order t m =
     wire_header t (ao_header m) @ be_bytes 8 (ao_order_ref m) @ [of_chr (ao_side m)] @
     be_bytes 4 (ao_shares m) @ wire_stock (ao_stock m) @ be_bytes 4 (ao_price m)"

definition wire_order_executed :: "order_executed \<Rightarrow> bytes" where
  "wire_order_executed m =
     wire_header (CHR ''E'') (oe_header m) @ be_bytes 8 (oe_order_ref m) @ be_bytes 4 (oe_executed_shares m) @
     be_bytes 8 (oe_match_number m)"

definition wire_order_executed_price :: "order_executed \<Rightarrow> bytes" where
  "wire_order_executed_price m =
     wire_header (CHR ''C'') (oe_header m) @ be_bytes 8 (oe_order_ref m) @ be_bytes 4 (oe_executed_shares m) @
     be_bytes 8 (oe_match_number m) @ [of_chr (if oe_printable m then CHR ''Y'' else CHR ''N'')] @
     be_bytes 4 (oe_execution_price m)"

definition wire_order_cancel :: "order_cancel \<Rightarrow> bytes" where
  "wire_order_cancel m =
     wire_header (CHR ''X'') (oc_header m) @ be_bytes 8 (oc_order_ref m) @ be_bytes 4 (oc_cancelled_shares m)"

definition wire_order_delete :: "order_delete \<Rightarrow> bytes" where
  "wire_order_delete m = wire_header (CHR ''D'') (od_header m) @ be_bytes 8 (od_order_ref m)"

definition wire_order_replace :: "order_replace \<Rightarrow> bytes" where
  "wire_order_replace m =
     wire_header (CHR ''U'') (or_header m) @ be_bytes 8 (or_original_order_ref m) @
     be_bytes 8 (or_new_order_ref m) @ be_bytes 4 (or_shares m) @ be_bytes 4 (or_price m)"

definition wire_trade :: "trade \<Rightarrow> bytes" where
  "wire_trade m =
     wire_header (CHR ''P'') (tr_header m) @ be_bytes 8 (tr_order_ref m) @ [of_chr (tr_side m)] @
     be_bytes 4 (tr_shares m) @ wire_stock (tr_stock m) @ be_bytes 4 (tr_price m) @ be_bytes 8 (tr_match_number m)"

definition wire_cross :: "char \<Rightarrow> trade \<Rightarrow> bytes" where
  "wire_cross cross_type m =
     wire_header (CHR ''Q'') (tr_header m) @ be_bytes 8 (tr_shares m) @ wire_stock (tr_stock m) @
     be_bytes 4 (tr_price m) @ be_bytes 8 (tr_match_number m) @ [of_chr cross_type]"

definition header_ok :: "header \<Rightarrow> bool" where
  "header_ok h \<longleftrightarrow> fits48 (timestamp h)"

section \<open>Reading a layout\<close>

lemma length_wire_header [simp]: "length (wire_header t h) = 11"
  by (simp add: wire_header_def)

lemma length_wire_stock [simp]: "length (wire_stock st) = length st"
  by (simp add: wire_stock_def)

lemma decode_wire_header:
  assumes "header_ok h"
  shows "decode_header (wire_header t h @ rest) = Some h"
  using assms
  by (simp add: decode_header_def wire_header_def be16_bytes be48_bytes header_ok_def fits48_def)

lemma read_wire_stock: "length st = 8 \<Longrightarrow> read_stock (wire_stock st @ rest) = Some st"
  by (simp add: read_stock_def wire_stock_def comp_def)

lemma wire_type: "char_at (wire_header t h) 0 = Some t"
  by (simp add: wire_header_def char_at_def)

lemma char_at_append: "char_at (xs @ ys) i = (if i < length xs then char_at xs i else char_at ys (i - length xs))"
  by (auto simp: char_at_def vget_def nth_append)

lemma char_at_Cons_0: "char_at (x # xs) 0 = Some (to_char x)"
  by (simp add: char_at_def)

lemmas wire_read = decode_wire_header read_wire_stock be16_bytes be32_bytes be48_bytes be64_bytes
  char_at_append char_at_Cons_0 wire_type Let_def

section \<open>The round trips\<close>

lemma decode_wire_stock_directory:
  assumes "header_ok (sd_header m)" and "length (sd_stock m) = 8"
  shows "decode_stock_directory (wire_stock_directory tail fin m) = Some m"
  using assms by (simp add: decode_stock_directory_def wire_stock_directory_def wire_read)

lemma decode_wire_add_order:
  assumes "header_ok (ao_header m)" and "length (ao_stock m) = 8"
  shows "decode_add_order (wire_add_order t m @ rest) = Some m"
  using assms by (simp add: decode_add_order_def wire_add_order_def wire_read)

lemma decode_wire_order_executed:
  assumes "header_ok (oe_header m)" and "oe_execution_price m = 0" and "oe_printable m"
  shows "decode_order_executed (wire_order_executed m @ rest) = Some m"
  using assms by (simp add: decode_order_executed_def wire_order_executed_def wire_read)

lemma decode_wire_order_executed_price:
  assumes "header_ok (oe_header m)"
  shows "decode_order_executed (wire_order_executed_price m @ rest) = Some m"
  using assms by (simp add: decode_order_executed_def wire_order_executed_price_def wire_read)

lemma decode_wire_order_cancel:
  assumes "header_ok (oc_header m)"
  shows "decode_order_cancel (wire_order_cancel m @ rest) = Some m"
  using assms by (simp add: decode_order_cancel_def wire_order_cancel_def wire_read)

lemma decode_wire_order_delete:
  assumes "header_ok (od_header m)"
  shows "decode_order_delete (wire_order_delete m @ rest) = Some m"
  using assms by (simp add: decode_order_delete_def wire_order_delete_def wire_read)

lemma decode_wire_order_replace:
  assumes "header_ok (or_header m)"
  shows "decode_order_replace (wire_order_replace m @ rest) = Some m"
  using assms by (simp add: decode_order_replace_def wire_order_replace_def wire_read)

lemma decode_wire_trade:
  assumes "header_ok (tr_header m)" and "length (tr_stock m) = 8" and "tr_has_order m"
    and "tr_shares m < 2 ^ 32"
  shows "decode_trade (wire_trade m @ rest) = Some m"
proof -
  have "be_bytes 4 (tr_shares m) = be_bytes 4 (ucast (tr_shares m) :: u32)"
    by (simp add: eval_nat_numeral) (auto intro!: bit_word_eqI simp: bit_ucast_iff bit_drop_bit_eq)
  moreover have "ucast (ucast (tr_shares m) :: u32) = tr_shares m"
  proof (rule bit_word_eqI)
    fix i
    have "take_bit 32 (tr_shares m) = tr_shares m"
      using assms(4) by (simp add: take_bit_eq_mod word_unat_eq_iff unat_mod word_less_nat_alt)
    then have "bit (tr_shares m) i \<Longrightarrow> i < 32" by (metis bit_take_bit_iff)
    then show "bit (ucast (ucast (tr_shares m) :: u32) :: u64) i \<longleftrightarrow> bit (tr_shares m) i"
      by (auto simp: bit_ucast_iff dest: bit_imp_le_length)
  qed
  ultimately show ?thesis using assms by (simp add: decode_trade_def wire_trade_def wire_read)
qed

lemma decode_wire_cross:
  assumes "header_ok (tr_header m)" and "length (tr_stock m) = 8" and "\<not> tr_has_order m"
    and "tr_order_ref m = 0" and "tr_side m = CHR '' ''"
  shows "decode_trade (wire_cross c m @ rest) = Some m"
  using assms by (simp add: decode_trade_def wire_cross_def wire_read)

section \<open>What is read is what was sent\<close>

text \<open>
  The decoders trust the type byte they are dispatched on. Under its type byte every decoder is
  the inverse of its layout on all the bytes it reads.
\<close>

definition typed :: "char \<Rightarrow> (bytes \<Rightarrow> 'a option) \<Rightarrow> bytes \<Rightarrow> 'a option" where
  "typed t = only_if (\<lambda>p. char_at p 0 = Some t)"

lemma typed_Some: "typed t rd p = Some a \<longleftrightarrow> char_at p 0 = Some t \<and> rd p = Some a"
  by (simp add: typed_def only_if_Some)

interpretation stock: codec read_stock wire_stock "\<lambda>st. length st = 8" 8
proof
  fix p st
  assume "read_stock p = Some st"
  then show "length st = 8 \<and> wire_stock st @ drop 8 p = p"
    by (auto simp: read_stock_def wire_stock_def bytes_at_def comp_def min_absorb2 split: if_splits)
qed (simp_all add: read_wire_stock)

lemmas read_fields = typed_Some char_at_drop bind_eq_Some_conv Let_def

interpretation hdr: codec "typed t decode_header" "wire_header t" header_ok 11 for t
proof
  fix p h
  assume "typed t decode_header p = Some h"
  then obtain l k ts where f: "char_at p 0 = Some t" "be16 (drop 1 p) = Some l" "be16 (drop 3 p) = Some k"
    "be48 (drop 5 p) = Some ts" and h: "h = \<lparr>stock_locate = l, tracking_number = k, timestamp = ts\<rparr>"
    by (auto simp: decode_header_def read_fields)
  have "be_bytes 2 l @ drop 3 p = drop 1 p" using be16.glue [OF f(2)] by (simp add: numeral_3_eq_3)
  moreover have "be_bytes 2 k @ drop 5 p = drop 3 p" using be16.glue [OF f(3)] by simp
  ultimately show "header_ok h \<and> wire_header t h @ drop 11 p = p"
    using be48.glue [OF f(4)] be48.well_formed [OF f(4)]
      chr.written_read [of p t] f(1)
    by (simp add: h wire_header_def header_ok_def)
qed (simp_all add: typed_Some decode_wire_header wire_read)

definition add_order_ok :: "add_order \<Rightarrow> bool" where
  "add_order_ok m \<longleftrightarrow> header_ok (ao_header m) \<and> length (ao_stock m) = 8"

interpretation adds: codec "typed t decode_add_order" "wire_add_order t" add_order_ok 36 for t
proof
  fix p m
  assume "typed t decode_add_order p = Some m"
  then obtain h r s q st pr where f: "typed t decode_header p = Some h" "be64 (drop 11 p) = Some r"
    "char_at (drop 19 p) 0 = Some s" "be32 (drop 20 p) = Some q" "read_stock (drop 24 p) = Some st"
    "be32 (drop 32 p) = Some pr" and m: "m = \<lparr>ao_header = h, ao_order_ref = r, ao_side = s, ao_shares = q,
      ao_stock = st, ao_price = pr\<rparr>"
    by (auto simp: decode_add_order_def read_fields)
  show "add_order_ok m \<and> wire_add_order t m @ drop 36 p = p"
    using hdr.written_read [OF f(1)] be64.glue [OF f(2)] chr.glue [OF f(3)] be32.glue [OF f(4)] stock.glue [OF f(5)]
      be32.glue [OF f(6)] stock.well_formed [OF f(5)]
    by (simp add: m wire_add_order_def add_order_ok_def)
qed (simp_all add: typed_Some decode_wire_add_order add_order_ok_def, simp_all add: wire_add_order_def wire_read)

interpretation events: codec "typed (CHR ''S'') decode_system_event" wire_system_event "\<lambda>m. header_ok (se_header m)" 12
proof
  fix p m
  assume "typed (CHR ''S'') decode_system_event p = Some m"
  then obtain h c where f: "typed (CHR ''S'') decode_header p = Some h" "char_at (drop 11 p) 0 = Some c"
    and m: "m = \<lparr>se_header = h, se_event_code = c\<rparr>"
    by (auto simp: decode_system_event_def read_fields)
  show "header_ok (se_header m) \<and> wire_system_event m @ drop 12 p = p"
    using hdr.written_read [OF f(1)] chr.glue [OF f(2)] by (simp add: m wire_system_event_def)
qed (simp_all add: typed_Some wire_system_event_def decode_system_event_def wire_read)

text \<open>The directory skips the byte after the market category and all that follows the lot size.\<close>

definition directory_ok :: "stock_directory \<Rightarrow> bool" where
  "directory_ok m \<longleftrightarrow> header_ok (sd_header m) \<and> length (sd_stock m) = 8"

interpretation dirs: codec "only_if (\<lambda>p. char_at p 20 = Some (to_char fin)) (typed (CHR ''R'') decode_stock_directory)"
  "wire_stock_directory [] fin" directory_ok 25 for fin
proof
  fix p m
  assume "only_if (\<lambda>p. char_at p 20 = Some (to_char fin)) (typed (CHR ''R'') decode_stock_directory) p = Some m"
  then obtain h st mc rl where f: "typed (CHR ''R'') decode_header p = Some h" "read_stock (drop 11 p) = Some st"
    "char_at (drop 19 p) 0 = Some mc" "char_at (drop 20 p) 0 = Some (to_char fin)" "be32 (drop 21 p) = Some rl"
    and m: "m = \<lparr>sd_header = h, sd_stock = st, sd_market_category = mc, sd_round_lot_size = rl\<rparr>"
    by (auto simp: only_if_Some decode_stock_directory_def read_fields)
  show "directory_ok m \<and> wire_stock_directory [] fin m @ drop 25 p = p"
    using hdr.written_read [OF f(1)] stock.glue [OF f(2)] chr.glue [OF f(3)] chr.glue [OF f(4)] be32.glue [OF f(5)]
      stock.well_formed [OF f(2)]
    by (simp add: m wire_stock_directory_def directory_ok_def)
next
  fix m rest
  assume "directory_ok m"
  moreover have "wire_stock_directory [] fin m @ rest = wire_stock_directory rest fin m"
    by (simp add: wire_stock_directory_def)
  ultimately show "only_if (\<lambda>p. char_at p 20 = Some (to_char fin)) (typed (CHR ''R'') decode_stock_directory)
      (wire_stock_directory [] fin m @ rest) = Some m"
    by (simp add: only_if_Some typed_Some directory_ok_def decode_wire_stock_directory)
      (simp add: wire_stock_directory_def wire_read, simp add: char_at_def)
qed (simp add: directory_ok_def wire_stock_directory_def)

definition executed_ok :: "order_executed \<Rightarrow> bool" where
  "executed_ok m \<longleftrightarrow> header_ok (oe_header m) \<and> oe_execution_price m = 0 \<and> oe_printable m"

interpretation execs: codec "typed (CHR ''E'') decode_order_executed" wire_order_executed executed_ok 31
proof
  fix p m
  assume "typed (CHR ''E'') decode_order_executed p = Some m"
  then obtain h r q n where f: "typed (CHR ''E'') decode_header p = Some h" "be64 (drop 11 p) = Some r"
    "be32 (drop 19 p) = Some q" "be64 (drop 23 p) = Some n"
    and m: "m = \<lparr>oe_header = h, oe_order_ref = r, oe_executed_shares = q, oe_match_number = n,
      oe_execution_price = 0, oe_printable = True\<rparr>"
    by (auto simp: decode_order_executed_def read_fields)
  show "executed_ok m \<and> wire_order_executed m @ drop 31 p = p"
    using hdr.written_read [OF f(1)] be64.glue [OF f(2)] be32.glue [OF f(3)] be64.glue [OF f(4)]
    by (simp add: m wire_order_executed_def executed_ok_def)
qed (simp_all add: typed_Some executed_ok_def decode_wire_order_executed, simp_all add: wire_order_executed_def wire_read)

text \<open>The flag of an execution with a price is a byte of which only Y is told from the rest.\<close>

definition flag_set :: "bytes \<Rightarrow> bool" where
  "flag_set p \<longleftrightarrow> char_at p 31 = Some (CHR ''Y'') \<or> char_at p 31 = Some (CHR ''N'')"

interpretation priced: codec "only_if flag_set (typed (CHR ''C'') decode_order_executed)" wire_order_executed_price
  "\<lambda>m. header_ok (oe_header m)" 36
proof
  fix p m
  assume "only_if flag_set (typed (CHR ''C'') decode_order_executed) p = Some m"
  then obtain h r q n c pr where f: "typed (CHR ''C'') decode_header p = Some h" "be64 (drop 11 p) = Some r"
    "be32 (drop 19 p) = Some q" "be64 (drop 23 p) = Some n" "char_at (drop 31 p) 0 = Some c" "be32 (drop 32 p) = Some pr"
    and m: "m = \<lparr>oe_header = h, oe_order_ref = r, oe_executed_shares = q, oe_match_number = n,
      oe_execution_price = pr, oe_printable = (c = CHR ''Y'')\<rparr>" and flag: "c \<noteq> CHR ''Y'' \<Longrightarrow> c = CHR ''N''"
    by (auto simp: only_if_Some flag_set_def decode_order_executed_def read_fields)
  show "header_ok (oe_header m) \<and> wire_order_executed_price m @ drop 36 p = p"
    using hdr.written_read [OF f(1)] be64.glue [OF f(2)] be32.glue [OF f(3)] be64.glue [OF f(4)] chr.glue [OF f(5)]
      be32.glue [OF f(6)] flag
    by (cases "c = CHR ''Y''") (simp_all add: m wire_order_executed_price_def)
next
  fix m :: order_executed and rest
  assume "header_ok (oe_header m)"
  then show "only_if flag_set (typed (CHR ''C'') decode_order_executed) (wire_order_executed_price m @ rest) = Some m"
    by (simp add: only_if_Some typed_Some decode_wire_order_executed_price)
      (simp add: flag_set_def wire_order_executed_price_def wire_read)
qed (simp add: wire_order_executed_price_def)

interpretation cancels: codec "typed (CHR ''X'') decode_order_cancel" wire_order_cancel "\<lambda>m. header_ok (oc_header m)" 23
proof
  fix p m
  assume "typed (CHR ''X'') decode_order_cancel p = Some m"
  then obtain h r q where f: "typed (CHR ''X'') decode_header p = Some h" "be64 (drop 11 p) = Some r"
    "be32 (drop 19 p) = Some q" and m: "m = \<lparr>oc_header = h, oc_order_ref = r, oc_cancelled_shares = q\<rparr>"
    by (auto simp: decode_order_cancel_def read_fields)
  show "header_ok (oc_header m) \<and> wire_order_cancel m @ drop 23 p = p"
    using hdr.written_read [OF f(1)] be64.glue [OF f(2)] be32.glue [OF f(3)] by (simp add: m wire_order_cancel_def)
qed (simp_all add: typed_Some decode_wire_order_cancel, simp_all add: wire_order_cancel_def wire_read)

interpretation deletes: codec "typed (CHR ''D'') decode_order_delete" wire_order_delete "\<lambda>m. header_ok (od_header m)" 19
proof
  fix p m
  assume "typed (CHR ''D'') decode_order_delete p = Some m"
  then obtain h r where f: "typed (CHR ''D'') decode_header p = Some h" "be64 (drop 11 p) = Some r"
    and m: "m = \<lparr>od_header = h, od_order_ref = r\<rparr>"
    by (auto simp: decode_order_delete_def read_fields)
  show "header_ok (od_header m) \<and> wire_order_delete m @ drop 19 p = p"
    using hdr.written_read [OF f(1)] be64.glue [OF f(2)] by (simp add: m wire_order_delete_def)
qed (simp_all add: typed_Some decode_wire_order_delete, simp_all add: wire_order_delete_def wire_read)

interpretation replaces: codec "typed (CHR ''U'') decode_order_replace" wire_order_replace "\<lambda>m. header_ok (or_header m)" 35
proof
  fix p m
  assume "typed (CHR ''U'') decode_order_replace p = Some m"
  then obtain h r n q pr where f: "typed (CHR ''U'') decode_header p = Some h" "be64 (drop 11 p) = Some r"
    "be64 (drop 19 p) = Some n" "be32 (drop 27 p) = Some q" "be32 (drop 31 p) = Some pr"
    and m: "m = \<lparr>or_header = h, or_original_order_ref = r, or_new_order_ref = n, or_shares = q, or_price = pr\<rparr>"
    by (auto simp: decode_order_replace_def read_fields)
  show "header_ok (or_header m) \<and> wire_order_replace m @ drop 35 p = p"
    using hdr.written_read [OF f(1)] be64.glue [OF f(2)] be64.glue [OF f(3)] be32.glue [OF f(4)] be32.glue [OF f(5)]
    by (simp add: m wire_order_replace_def)
qed (simp_all add: typed_Some decode_wire_order_replace, simp_all add: wire_order_replace_def wire_read)

text \<open>A trade names its order and has a 32 bit share count; a cross has neither order nor side.\<close>

definition trade_ok :: "trade \<Rightarrow> bool" where
  "trade_ok m \<longleftrightarrow> header_ok (tr_header m) \<and> length (tr_stock m) = 8 \<and> tr_has_order m \<and> tr_shares m < 2 ^ 32"

definition cross_ok :: "trade \<Rightarrow> bool" where
  "cross_ok m \<longleftrightarrow> header_ok (tr_header m) \<and> length (tr_stock m) = 8 \<and> \<not> tr_has_order m \<and> tr_order_ref m = 0 \<and>
     tr_side m = CHR '' ''"

lemma widened_shares:
  "be_bytes 4 (ucast (q :: u32) :: u64) = be_bytes 4 q" "(ucast q :: u64) < 2 ^ 32"
proof -
  show "be_bytes 4 (ucast q :: u64) = be_bytes 4 q"
    by (simp add: eval_nat_numeral) (auto intro!: bit_word_eqI simp: bit_ucast_iff bit_drop_bit_eq)
  have "unat q < 2 ^ 32" using unsigned_less [of q, where ?'a = nat] by simp
  then show "(ucast q :: u64) < 2 ^ 32" by (simp add: word_less_nat_alt unsigned_ucast_eq take_bit_nat_eq_self)
qed

interpretation trades: codec "typed (CHR ''P'') decode_trade" wire_trade trade_ok 44
proof
  fix p m
  assume "typed (CHR ''P'') decode_trade p = Some m"
  then obtain h r s q st pr n where f: "typed (CHR ''P'') decode_header p = Some h" "be64 (drop 11 p) = Some r"
    "char_at (drop 19 p) 0 = Some s" "be32 (drop 20 p) = Some q" "read_stock (drop 24 p) = Some st"
    "be32 (drop 32 p) = Some pr" "be64 (drop 36 p) = Some n"
    and m: "m = \<lparr>tr_header = h, tr_order_ref = r, tr_side = s, tr_shares = ucast q, tr_stock = st, tr_price = pr,
      tr_match_number = n, tr_has_order = True\<rparr>"
    by (auto simp: decode_trade_def read_fields)
  show "trade_ok m \<and> wire_trade m @ drop 44 p = p"
    using hdr.written_read [OF f(1)] be64.glue [OF f(2)] chr.glue [OF f(3)] be32.glue [OF f(4)] stock.glue [OF f(5)]
      be32.glue [OF f(6)] be64.glue [OF f(7)] stock.well_formed [OF f(5)] widened_shares [of q]
    by (simp add: m wire_trade_def trade_ok_def)
qed (simp_all add: typed_Some trade_ok_def decode_wire_trade, simp_all add: wire_trade_def wire_read)

interpretation crosses: codec "only_if (\<lambda>p. char_at p 39 = Some c) (typed (CHR ''Q'') decode_trade)" "wire_cross c" cross_ok 40
  for c
proof
  fix p m
  assume "only_if (\<lambda>p. char_at p 39 = Some c) (typed (CHR ''Q'') decode_trade) p = Some m"
  then obtain h q st pr n where f: "typed (CHR ''Q'') decode_header p = Some h" "be64 (drop 11 p) = Some q"
    "read_stock (drop 19 p) = Some st" "be32 (drop 27 p) = Some pr" "be64 (drop 31 p) = Some n"
    "char_at (drop 39 p) 0 = Some c"
    and m: "m = \<lparr>tr_header = h, tr_order_ref = 0, tr_side = CHR '' '', tr_shares = q, tr_stock = st, tr_price = pr,
      tr_match_number = n, tr_has_order = False\<rparr>"
    by (auto simp: only_if_Some decode_trade_def read_fields)
  show "cross_ok m \<and> wire_cross c m @ drop 40 p = p"
    using hdr.written_read [OF f(1)] be64.glue [OF f(2)] stock.glue [OF f(3)] be32.glue [OF f(4)] be64.glue [OF f(5)]
      chr.glue [OF f(6)] stock.well_formed [OF f(3)]
    by (simp add: m wire_cross_def cross_ok_def)
next
  fix m rest
  assume "cross_ok m"
  then show "only_if (\<lambda>p. char_at p 39 = Some c) (typed (CHR ''Q'') decode_trade) (wire_cross c m @ rest) = Some m"
    by (simp add: only_if_Some typed_Some cross_ok_def decode_wire_cross) (simp add: wire_cross_def wire_read)
qed (simp add: cross_ok_def wire_cross_def)

section \<open>What the decoders return\<close>

lemma typed_None: "typed t rd p = None \<longleftrightarrow> char_at p 0 = Some t \<longrightarrow> rd p = None"
  by (simp add: typed_def only_if_def)

lemma only_if_None: "only_if P rd p = None \<longleftrightarrow> P p \<longrightarrow> rd p = None"
  by (simp add: only_if_def)

lemma executed_header: "decode_order_executed p = Some m \<Longrightarrow> decode_header p = Some (oe_header m)"
  by (auto simp: decode_order_executed_def read_fields split: if_splits)

lemma char_at_Some: "i < length p \<Longrightarrow> \<exists>c. char_at p i = Some c"
  by (simp add: char_at_def)

lemmas decode_lengths = decode_system_event_None decode_stock_directory_None decode_add_order_None
  decode_order_executed_None decode_order_cancel_None decode_order_delete_None decode_order_replace_None
  decode_trade_None

lemma decodes_typed:
  assumes "char_at p 0 = Some t"
  shows "11 \<le> length p \<Longrightarrow> \<exists>h. decode_header p = Some h \<and> header_ok h"
    and "t = CHR ''S'' \<Longrightarrow> 12 \<le> length p \<Longrightarrow> \<exists>m. decode_system_event p = Some m \<and> header_ok (se_header m)"
    and "t = CHR ''R'' \<Longrightarrow> 25 \<le> length p \<Longrightarrow> \<exists>m. decode_stock_directory p = Some m \<and> directory_ok m"
    and "36 \<le> length p \<Longrightarrow> \<exists>m. decode_add_order p = Some m \<and> add_order_ok m"
    and "t = CHR ''E'' \<Longrightarrow> 31 \<le> length p \<Longrightarrow> \<exists>m. decode_order_executed p = Some m \<and> executed_ok m"
    and "t = CHR ''C'' \<Longrightarrow> 36 \<le> length p \<Longrightarrow> \<exists>m. decode_order_executed p = Some m \<and> header_ok (oe_header m)"
    and "t = CHR ''X'' \<Longrightarrow> 23 \<le> length p \<Longrightarrow> \<exists>m. decode_order_cancel p = Some m \<and> header_ok (oc_header m)"
    and "t = CHR ''D'' \<Longrightarrow> 19 \<le> length p \<Longrightarrow> \<exists>m. decode_order_delete p = Some m \<and> header_ok (od_header m)"
    and "t = CHR ''U'' \<Longrightarrow> 35 \<le> length p \<Longrightarrow> \<exists>m. decode_order_replace p = Some m \<and> header_ok (or_header m)"
    and "t = CHR ''P'' \<Longrightarrow> 44 \<le> length p \<Longrightarrow> \<exists>m. decode_trade p = Some m \<and> trade_ok m"
    and "t = CHR ''Q'' \<Longrightarrow> 40 \<le> length p \<Longrightarrow> \<exists>m. decode_trade p = Some m \<and> cross_ok m"
proof -
  note typed = assms typed_None typed_Some decode_lengths only_if_None only_if_Some
  show "11 \<le> length p \<Longrightarrow> \<exists>h. decode_header p = Some h \<and> header_ok h"
    using hdr.reads_ok [of t p] by (simp add: typed)
  then show "t = CHR ''C'' \<Longrightarrow> 36 \<le> length p \<Longrightarrow> \<exists>m. decode_order_executed p = Some m \<and> header_ok (oe_header m)"
    using executed_header [of p] decode_order_executed_None [of p] assms by fastforce
  show "t = CHR ''S'' \<Longrightarrow> 12 \<le> length p \<Longrightarrow> \<exists>m. decode_system_event p = Some m \<and> header_ok (se_header m)"
    using events.reads_ok [of p] by (simp add: typed)
  show "36 \<le> length p \<Longrightarrow> \<exists>m. decode_add_order p = Some m \<and> add_order_ok m"
    using adds.reads_ok [of t p] by (simp add: typed)
  show "t = CHR ''E'' \<Longrightarrow> 31 \<le> length p \<Longrightarrow> \<exists>m. decode_order_executed p = Some m \<and> executed_ok m"
    using execs.reads_ok [of p] by (simp add: typed)
  show "t = CHR ''X'' \<Longrightarrow> 23 \<le> length p \<Longrightarrow> \<exists>m. decode_order_cancel p = Some m \<and> header_ok (oc_header m)"
    using cancels.reads_ok [of p] by (simp add: typed)
  show "t = CHR ''D'' \<Longrightarrow> 19 \<le> length p \<Longrightarrow> \<exists>m. decode_order_delete p = Some m \<and> header_ok (od_header m)"
    using deletes.reads_ok [of p] by (simp add: typed)
  show "t = CHR ''U'' \<Longrightarrow> 35 \<le> length p \<Longrightarrow> \<exists>m. decode_order_replace p = Some m \<and> header_ok (or_header m)"
    using replaces.reads_ok [of p] by (simp add: typed)
  show "t = CHR ''P'' \<Longrightarrow> 44 \<le> length p \<Longrightarrow> \<exists>m. decode_trade p = Some m \<and> trade_ok m"
    using trades.reads_ok [of p] by (simp add: typed)
  show "\<exists>m. decode_trade p = Some m \<and> cross_ok m" if t: "t = CHR ''Q''" and len: "40 \<le> length p"
  proof -
    obtain c where "char_at p 39 = Some c" using char_at_Some [of 39 p] len by auto
    then show ?thesis using crosses.reads_ok [of c p] t len by (simp add: typed)
  qed
  show "\<exists>m. decode_stock_directory p = Some m \<and> directory_ok m" if t: "t = CHR ''R''" and len: "25 \<le> length p"
  proof -
    obtain c where "char_at p 20 = Some c" using char_at_Some [of 20 p] len by auto
    then show ?thesis using dirs.reads_ok [of "of_chr c" p] t len by (simp add: typed)
  qed
qed

end
