(* ===== verification/Replay.thy ===== *)
theory Replay
  imports Book_Set Framing Itch_Wire
begin

text \<open>
  The offline pipeline of \<open>src/book/replay.cc\<close>: \<open>apply_message\<close> decodes one framed message and
  folds it into the book it names, \<open>replay\<close> walks a whole buffer. The counters are 64 bit words
  as in the code.
\<close>

section \<open>The pipeline\<close>

record replay_stats =
  rs_messages :: u64
  rs_unknown_type :: u64
  rs_length_mismatch :: u64
  rs_unknown_locate :: u64
  rs_applied :: u64
  rs_unknown_ref :: u64
  rs_duplicate_ref :: u64
  rs_clamped_reduce :: u64

definition new_stats :: replay_stats where
  "new_stats = \<lparr>rs_messages = 0, rs_unknown_type = 0, rs_length_mismatch = 0, rs_unknown_locate = 0,
     rs_applied = 0, rs_unknown_ref = 0, rs_duplicate_ref = 0, rs_clamped_reduce = 0\<rparr>"

definition stats_clean :: "replay_stats \<Rightarrow> bool" where
  "stats_clean st \<longleftrightarrow> rs_length_mismatch st = 0 \<and> rs_unknown_locate st = 0 \<and> rs_unknown_ref st = 0 \<and>
     rs_duplicate_ref st = 0 \<and> rs_clamped_reduce st = 0"

definition to_side :: "char \<Rightarrow> side" where
  "to_side c = (if c = CHR ''S'' then Sell else Buy)"

definition tally :: "apply_result \<Rightarrow> replay_stats \<Rightarrow> replay_stats" where
  "tally r st =
     (case r of
        Applied \<Rightarrow> st\<lparr>rs_applied := rs_applied st + 1\<rparr>
      | UnknownRef \<Rightarrow> st\<lparr>rs_unknown_ref := rs_unknown_ref st + 1\<rparr>
      | DuplicateRef \<Rightarrow> st\<lparr>rs_duplicate_ref := rs_duplicate_ref st + 1\<rparr>
      | ClampedReduce \<Rightarrow> st\<lparr>rs_clamped_reduce := rs_clamped_reduce st + 1\<rparr>)"

text \<open>The inner switch: decode by type and call the book.\<close>

definition dispatch :: "char \<Rightarrow> bytes \<Rightarrow> order_book \<Rightarrow> (apply_result option \<times> order_book) option" where
  "dispatch type p b =
     (if type = CHR ''A'' \<or> type = CHR ''F'' then do {
        m \<leftarrow> decode_add_order p;
        map_option (apfst Some) (book_add (ao_order_ref m) (to_side (ao_side m)) (ao_shares m) (ao_price m) b) }
      else if type = CHR ''E'' \<or> type = CHR ''C'' then do {
        m \<leftarrow> decode_order_executed p;
        map_option (apfst Some) (book_reduce (oe_order_ref m) (oe_executed_shares m) b) }
      else if type = CHR ''X'' then do {
        m \<leftarrow> decode_order_cancel p;
        map_option (apfst Some) (book_reduce (oc_order_ref m) (oc_cancelled_shares m) b) }
      else if type = CHR ''D'' then do {
        m \<leftarrow> decode_order_delete p;
        map_option (apfst Some) (book_remove (od_order_ref m) b) }
      else if type = CHR ''U'' then do {
        m \<leftarrow> decode_order_replace p;
        map_option (apfst Some)
          (book_replace (or_original_order_ref m) (or_new_order_ref m) (or_shares m) (or_price m) b) }
      else Some (None, b))"

definition moves_book :: "char \<Rightarrow> bool" where
  "moves_book type \<longleftrightarrow> type \<in> set ''AFECXDU''"

definition apply_message ::
    "message_view \<Rightarrow> book_set \<times> replay_stats \<Rightarrow> (book_set \<times> replay_stats) option" where
  "apply_message mv = (\<lambda>(books, stats). do {
     let stats = stats\<lparr>rs_messages := rs_messages stats + 1\<rparr>;
     type \<leftarrow> char_at (mv_data mv) 0;
     if \<not> is_known type then Some (books, stats\<lparr>rs_unknown_type := rs_unknown_type stats + 1\<rparr>)
     else do {
       let stats = (if expected_length (message_type_of type) \<noteq> mv_size mv
                    then stats\<lparr>rs_length_mismatch := rs_length_mismatch stats + 1\<rparr> else stats);
       if type = CHR ''R'' then do {
         msg \<leftarrow> decode_stock_directory (mv_data mv);
         books \<leftarrow> on_stock_directory msg books;
         Some (books, stats) }
       else if \<not> moves_book type then Some (books, stats)
       else do {
         h \<leftarrow> decode_header (mv_data mv);
         let locate = stock_locate h;
         if \<not> bs_is_known books locate
         then Some (books, stats\<lparr>rs_unknown_locate := rs_unknown_locate stats + 1\<rparr>)
         else do {
           b \<leftarrow> bs_book books locate;
           (r, b) \<leftarrow> dispatch type (mv_data mv) b;
           books \<leftarrow> bs_put_book books locate b;
           Some (books, case r of None \<Rightarrow> stats | Some r \<Rightarrow> tally r stats) } } } })"

definition replay :: "book_set \<Rightarrow> bytes \<Rightarrow> size_t \<Rightarrow> (book_set \<times> replay_stats) option" where
  "replay books data n =
     map_option snd (framer_walk (\<lambda>mv s. map_option (Pair True) (apply_message mv s))
                       (new_framer data n) (books, new_stats))"

section \<open>Order events and their specification\<close>

datatype order_event =
    EvAdd u64 side u32 u32
  | EvReduce u64 u32
  | EvRemove u64
  | EvReplace u64 u64 u32 u32

definition run_event :: "order_event \<Rightarrow> order_book \<Rightarrow> (apply_result \<times> order_book) option" where
  "run_event ev b =
     (case ev of
        EvAdd r side s p \<Rightarrow> book_add r side s p b
      | EvReduce r s \<Rightarrow> book_reduce r s b
      | EvRemove r \<Rightarrow> book_remove r b
      | EvReplace r r' s p \<Rightarrow> book_replace r r' s p b)"

definition spec_event :: "order_event \<Rightarrow> resting_map \<Rightarrow> apply_result \<times> resting_map" where
  "spec_event ev m =
     (case ev of
        EvAdd r side s p \<Rightarrow> spec_add r side s p m
      | EvReduce r s \<Rightarrow> spec_reduce r s m
      | EvRemove r \<Rightarrow> spec_remove r m
      | EvReplace r r' s p \<Rightarrow> spec_replace r r' s p m)"

text \<open>A quantity must leave the side bit free.\<close>

definition ev_ok :: "order_event \<Rightarrow> bool" where
  "ev_ok ev \<longleftrightarrow>
     (case ev of EvAdd r side s p \<Rightarrow> s < 2 ^ 31 | EvReplace r r' s p \<Rightarrow> s < 2 ^ 31 | _ \<Rightarrow> True)"

definition decode_event :: "char \<Rightarrow> bytes \<Rightarrow> order_event option" where
  "decode_event type p =
     (if type = CHR ''A'' \<or> type = CHR ''F'' then
        map_option (\<lambda>m. EvAdd (ao_order_ref m) (to_side (ao_side m)) (ao_shares m) (ao_price m)) (decode_add_order p)
      else if type = CHR ''E'' \<or> type = CHR ''C'' then
        map_option (\<lambda>m. EvReduce (oe_order_ref m) (oe_executed_shares m)) (decode_order_executed p)
      else if type = CHR ''X'' then
        map_option (\<lambda>m. EvReduce (oc_order_ref m) (oc_cancelled_shares m)) (decode_order_cancel p)
      else if type = CHR ''D'' then
        map_option (\<lambda>m. EvRemove (od_order_ref m)) (decode_order_delete p)
      else if type = CHR ''U'' then
        map_option (\<lambda>m. EvReplace (or_original_order_ref m) (or_new_order_ref m) (or_shares m) (or_price m))
          (decode_order_replace p)
      else None)"

lemma dispatch_event:
  assumes "moves_book type"
  shows "dispatch type p b =
     do { ev \<leftarrow> decode_event type p; map_option (apfst Some) (run_event ev b) }"
  using assms unfolding moves_book_def dispatch_def decode_event_def
  by (auto simp: run_event_def map_option_case split: option.split)

lemma card_spec_event:
  "card (dom (snd (spec_event ev m))) \<le> card (dom m) + 1"
proof -
  have put: "card (dom (m'(r \<mapsto> x))) \<le> card (dom m') + 1" for m' :: resting_map and r x
    by (simp add: card_insert_if)
  have del: "card (dom (m(r := None))) \<le> card (dom m)" for r
    by (rule card_mono) auto
  have keep: "card (dom (m(r \<mapsto> x))) = card (dom m)" if "m r = Some y" for r x y
    using that by (simp add: insert_absorb domI)
  show ?thesis
  proof (cases ev)
    case (EvAdd r side s p)
    then show ?thesis using put [of m r] by (simp add: spec_event_def spec_add_def)
  next
    case (EvReduce r s)
    then show ?thesis using del [of r] keep [of r]
      by (auto simp: spec_event_def spec_reduce_def le_SucI split: option.split)
  next
    case (EvRemove r)
    then show ?thesis using del [of r] by (simp add: spec_event_def spec_remove_def le_SucI)
  next
    case (EvReplace r r' s p)
    then show ?thesis
      using put [of "m(r := None)" r'] del [of r]
      by (auto simp: spec_event_def spec_replace_def spec_add_def le_SucI split: option.split)
  qed
qed

lemma run_event_correct:
  assumes inv: "book_inv b" and ok: "ev_ok ev" and room: "card (dom (book_orders b)) + 1 < 2 ^ 32"
  shows "\<exists>b'. run_event ev b = Some (fst (spec_event ev (book_orders b)), b') \<and> book_inv b' \<and>
      book_orders b' = snd (spec_event ev (book_orders b))"
proof (cases ev)
  case (EvAdd r side s p)
  then show ?thesis
    using book_add_correct [OF inv room, of s r side p] ok by (simp add: run_event_def spec_event_def ev_ok_def)
next
  case (EvReduce r s)
  then show ?thesis using book_reduce_correct [OF inv, of r s] by (simp add: run_event_def spec_event_def)
next
  case (EvRemove r)
  then show ?thesis using book_remove_correct [OF inv, of r] by (simp add: run_event_def spec_event_def)
next
  case (EvReplace r r' s p)
  then show ?thesis
    using book_replace_correct [OF inv, of s r r' p] ok by (simp add: run_event_def spec_event_def ev_ok_def)
qed

section \<open>Messages and their specification\<close>

text \<open>
  A message of a known type that has at least the length of its type: a longer one is counted as a
  mismatch and decoded all the same. \<open>message_ok\<close> also asks for quantities below \<open>2 ^ 31\<close>,
  which \<open>flat_hash_map.h\<close> asserts in a debug build only.
\<close>

definition message_ok :: "message_view \<Rightarrow> bool" where
  "message_ok mv \<longleftrightarrow>
     (\<exists>type. char_at (mv_data mv) 0 = Some type \<and>
        (is_known type \<longrightarrow>
           expected_length (message_type_of type) \<le> mv_size mv \<and> unat (mv_size mv) \<le> length (mv_data mv) \<and>
           (\<forall>ev. decode_event type (mv_data mv) = Some ev \<longrightarrow> ev_ok ev)))"

lemma message_ok_code [code]:
  "message_ok mv = (case char_at (mv_data mv) 0 of None \<Rightarrow> False
     | Some type \<Rightarrow> is_known type \<longrightarrow>
         expected_length (message_type_of type) \<le> mv_size mv \<and> unat (mv_size mv) \<le> length (mv_data mv) \<and>
         (case decode_event type (mv_data mv) of None \<Rightarrow> True | Some ev \<Rightarrow> ev_ok ev))"
  by (cases "char_at (mv_data mv) 0") (auto simp: message_ok_def simp del: char_at_None split: option.split)

type_synonym market = "u16 \<rightharpoonup> resting_map"

definition count_mismatch :: "message_view \<Rightarrow> char \<Rightarrow> replay_stats \<Rightarrow> replay_stats" where
  "count_mismatch mv type st =
     (if expected_length (message_type_of type) \<noteq> mv_size mv
      then st\<lparr>rs_length_mismatch := rs_length_mismatch st + 1\<rparr> else st)"

definition spec_message :: "message_view \<Rightarrow> market \<times> replay_stats \<Rightarrow> market \<times> replay_stats" where
  "spec_message mv = (\<lambda>(M, st).
     let st = st\<lparr>rs_messages := rs_messages st + 1\<rparr>;
         type = the (char_at (mv_data mv) 0);
         locate = stock_locate (the (decode_header (mv_data mv)));
         counted = count_mismatch mv type st
     in if \<not> is_known type then (M, st\<lparr>rs_unknown_type := rs_unknown_type st + 1\<rparr>)
        else if type = CHR ''R'' then (spec_register locate M, counted)
        else case decode_event type (mv_data mv) of
            None \<Rightarrow> (M, counted)
          | Some ev \<Rightarrow>
              (case M locate of
                 None \<Rightarrow> (M, counted\<lparr>rs_unknown_locate := rs_unknown_locate counted + 1\<rparr>)
               | Some m \<Rightarrow> (let (r, m') = spec_event ev m in (M(locate \<mapsto> m'), tally r counted))))"

lemma moves_known: "moves_book type \<Longrightarrow> is_known type"
  by (auto simp: moves_book_def is_known_def)

lemma decode_event_None_iff:
  assumes "char_at p 0 = Some type" and "is_known type"
    and "unat (expected_length (message_type_of type)) \<le> length p"
  shows "decode_event type p = None \<longleftrightarrow> \<not> moves_book type" and "\<exists>h. decode_header p = Some h"
proof -
  have "type \<in> set ''SRHYLAFECXDUPQB''" using assms(2) by (simp add: is_known_def)
  then show "decode_event type p = None \<longleftrightarrow> \<not> moves_book type"
    using assms(1,3)
    by (auto simp: decode_event_def moves_book_def message_type_of_def expected_length_def
        decode_add_order_None decode_order_executed_None decode_order_cancel_None
        decode_order_delete_None decode_order_replace_None)
  have "11 \<le> length p"
    using \<open>type \<in> _\<close> assms(3) by (auto simp: message_type_of_def expected_length_def)
  then have "decode_header p \<noteq> None" by simp
  then show "\<exists>h. decode_header p = Some h" by blast
qed

lemma directory_header:
  assumes "decode_stock_directory p = Some msg"
  shows "decode_header p = Some (sd_header msg)"
  using assms by (auto simp: decode_stock_directory_def split: Option.bind_splits)

text \<open>A message of a known type, once it is counted.\<close>

lemma apply_message_known:
  assumes "char_at (mv_data mv) 0 = Some type" and "is_known type"
  shows "apply_message mv (books, stats) =
     (let stats = count_mismatch mv type (stats\<lparr>rs_messages := rs_messages stats + 1\<rparr>)
      in if type = CHR ''R'' then do {
           msg \<leftarrow> decode_stock_directory (mv_data mv);
           books \<leftarrow> on_stock_directory msg books;
           Some (books, stats) }
         else if \<not> moves_book type then Some (books, stats)
         else do {
           h \<leftarrow> decode_header (mv_data mv);
           if \<not> bs_is_known books (stock_locate h)
           then Some (books, stats\<lparr>rs_unknown_locate := rs_unknown_locate stats + 1\<rparr>)
           else do {
             b \<leftarrow> bs_book books (stock_locate h);
             (r, b) \<leftarrow> dispatch type (mv_data mv) b;
             books \<leftarrow> bs_put_book books (stock_locate h) b;
             Some (books, case r of None \<Rightarrow> stats | Some r \<Rightarrow> tally r stats) } })"
proof -
  define st where "st = stats\<lparr>rs_messages := rs_messages stats + 1\<rparr>"
  show ?thesis
    unfolding apply_message_def prod.case Let_def st_def [symmetric] count_mismatch_def
    using assms by simp
qed

text \<open>A directory message, and an order message, of a known type and its length.\<close>

lemma apply_directory:
  assumes inv: "bs_inv n books" and type: "char_at (mv_data mv) 0 = Some (CHR ''R'')"
    and len: "unat (expected_length (message_type_of (CHR ''R''))) \<le> length (mv_data mv)"
  shows "\<exists>books' stats'. apply_message mv (books, stats) = Some (books', stats') \<and> bs_inv (n + 1) books' \<and>
      (bs_view books', stats') = spec_message mv (bs_view books, stats)"
proof -
  have known: "is_known (CHR ''R'')" by (simp add: is_known_def)
  have "25 \<le> length (mv_data mv)" using len by (simp add: message_type_of_def expected_length_def)
  then obtain msg where msg: "decode_stock_directory (mv_data mv) = Some msg"
    using decode_stock_directory_None [of "mv_data mv"] by fastforce
  obtain books' where "on_stock_directory msg books = Some books'" "bs_inv n books'"
    "bs_view books' = spec_register (stock_locate (sd_header msg)) (bs_view books)"
    using on_stock_directory_correct [OF inv, of msg] by blast
  then show ?thesis
    using type known msg directory_header [OF msg] bs_inv_mono [of n books' "n + 1"]
    by (simp add: apply_message_known spec_message_def Let_def)
qed

lemma apply_order:
  assumes inv: "bs_inv n books" and room: "n + 1 < 2 ^ 32"
    and type: "char_at (mv_data mv) 0 = Some type" "is_known type"
    and other: "type \<noteq> CHR ''R''" and moves: "moves_book type" and h: "decode_header (mv_data mv) = Some h"
    and ev: "decode_event type (mv_data mv) = Some ev" "ev_ok ev"
  shows "\<exists>books' stats'. apply_message mv (books, stats) = Some (books', stats') \<and> bs_inv (n + 1) books' \<and>
      (bs_view books', stats') = spec_message mv (bs_view books, stats)"
proof -
  let ?stats = "count_mismatch mv type (stats\<lparr>rs_messages := rs_messages stats + 1\<rparr>)"
  have inv': "bs_inv (n + 1) books" by (rule bs_inv_mono [OF inv]) simp
  show ?thesis
  proof (cases "bs_is_known books (stock_locate h)")
    case False
    then have "bs_view books (stock_locate h) = None" by (simp add: bs_view_def)
    then show ?thesis
      using type other inv' moves ev h False
      by (simp add: apply_message_known spec_message_def Let_def)
  next
    case known: True
    note b = bs_known_book [OF inv known]
    let ?b = "bs_books books ! unat (stock_locate h)"
    have "card (dom (book_orders ?b)) + 1 < 2 ^ 32" using b(4) room by linarith
    from run_event_correct [OF b(3) ev(2) this] obtain b'
      where b': "run_event ev ?b = Some (fst (spec_event ev (book_orders ?b)), b')" "book_inv b'"
      "book_orders b' = snd (spec_event ev (book_orders ?b))" by blast
    have "card (dom (book_orders b')) \<le> n + 1"
      using card_spec_event [of ev "book_orders ?b"] b(4) b'(3) by simp
    from bs_put_book_correct [OF inv' known b'(2) this] obtain books'
      where books': "bs_put_book books (stock_locate h) b' = Some books'" "bs_inv (n + 1) books'"
      "bs_view books' = (bs_view books)(stock_locate h \<mapsto> book_orders b')" by blast
    have "dispatch type (mv_data mv) ?b = Some (Some (fst (spec_event ev (book_orders ?b))), b')"
      unfolding dispatch_event [OF moves] ev(1) using b'(1) by simp
    then have "apply_message mv (books, stats) =
        Some (books', tally (fst (spec_event ev (book_orders ?b))) ?stats)"
      using type other moves h known b(2) books'(1) by (simp add: apply_message_known Let_def)
    moreover have "spec_message mv (bs_view books, stats) =
        ((bs_view books)(stock_locate h \<mapsto> book_orders b'), tally (fst (spec_event ev (book_orders ?b))) ?stats)"
      using type other ev(1) h b(5) b'(3) by (simp add: spec_message_def Let_def case_prod_unfold)
    ultimately show ?thesis using books'(2,3) by simp
  qed
qed

lemma apply_message_correct:
  assumes inv: "bs_inv n books" and room: "n + 1 < 2 ^ 32" and ok: "message_ok mv"
  shows "\<exists>books' stats'. apply_message mv (books, stats) = Some (books', stats') \<and> bs_inv (n + 1) books' \<and>
      (bs_view books', stats') = spec_message mv (bs_view books, stats)"
proof -
  obtain type where type: "char_at (mv_data mv) 0 = Some type" and known: "is_known type \<Longrightarrow>
      expected_length (message_type_of type) \<le> mv_size mv \<and> unat (mv_size mv) \<le> length (mv_data mv) \<and>
      (\<forall>ev. decode_event type (mv_data mv) = Some ev \<longrightarrow> ev_ok ev)"
    using ok by (auto simp: message_ok_def)
  have inv': "bs_inv (n + 1) books" by (rule bs_inv_mono [OF inv]) simp
  show ?thesis
  proof (cases "is_known type")
    case False
    then show ?thesis using type inv' by (simp add: apply_message_def spec_message_def)
  next
    case True
    have len: "unat (expected_length (message_type_of type)) \<le> length (mv_data mv)"
      and evs: "\<And>ev. decode_event type (mv_data mv) = Some ev \<Longrightarrow> ev_ok ev"
      using known [OF True] by (auto simp: word_le_nat_alt)
    note decode = decode_event_None_iff [OF type True len]
    obtain h where h: "decode_header (mv_data mv) = Some h" using decode(2) by blast
    consider "type = CHR ''R''" | "type \<noteq> CHR ''R''" "\<not> moves_book type"
      | ev where "type \<noteq> CHR ''R''" "moves_book type" "decode_event type (mv_data mv) = Some ev"
      using decode(1) by fastforce
    then show ?thesis
    proof cases
      case 1
      from apply_directory [OF inv type [unfolded 1] len [unfolded 1]] show ?thesis .
    next
      case 2
      then show ?thesis using type True inv' decode(1)
        by (simp add: apply_message_known spec_message_def Let_def)
    next
      case 3
      from apply_order [OF inv room type True 3(1,2) h 3(3) evs [OF 3(3)]] show ?thesis .
    qed
  qed
qed

interpretation am: message_handler "\<lambda>mv s. map_option (Pair True) (apply_message mv s)"
  "\<lambda>n (books, stats). bs_inv n books" "\<lambda>(books, stats). (bs_view books, stats)" spec_message message_ok "2 ^ 32"
  by unfold_locales (use apply_message_correct in \<open>fastforce simp: case_prod_unfold\<close>)

lemma replay_folds:
  assumes "unat n \<le> length data"
  shows "replay books data n = foldM apply_message (frame_views (unat n) data) (books, new_stats)"
  unfolding replay_def framer_walk_correct [OF new_framer_ok [OF assms]] walk_views_all new_framer_views
  by (cases "foldM apply_message (frame_views (unat n) data) (books, new_stats)") simp_all

lemma apply_messages:
  assumes "length vs < 2 ^ 32" and "\<forall>v \<in> set vs. message_ok v"
  obtains books stats where "foldM apply_message vs (new_book_set, new_stats) = Some (books, stats)"
    and "bs_inv (length vs) books" and "(bs_view books, stats) = fold spec_message vs (Map.empty, new_stats)"
proof -
  let ?s = "(new_book_set, new_stats)"
  have "case ?s of (books, stats) \<Rightarrow> bs_inv 0 books" "0 + length vs < 2 ^ 32" using assms(1) by simp_all
  from am.steps.fold_refines [OF this assms(2)] obtain books stats where
    "foldM (\<lambda>m s. map_option snd (map_option (Pair True) (apply_message m s))) vs ?s = Some (books, stats)"
    "bs_inv (length vs) books" "(bs_view books, stats) = fold spec_message vs (bs_view new_book_set, new_stats)"
    by auto
  then show thesis by (intro that [of books stats]) (simp_all add: option.map_comp comp_def option.map_ident)
qed

lemma replay_correct:
  assumes "unat n \<le> length data" and "length (frame_views (unat n) data) < 2 ^ 32"
    and "\<forall>v \<in> set (frame_views (unat n) data). message_ok v"
  shows "\<exists>books stats. replay new_book_set data n = Some (books, stats) \<and>
      bs_inv (length (frame_views (unat n) data)) books \<and>
      (bs_view books, stats) = fold spec_message (frame_views (unat n) data) (Map.empty, new_stats)"
  unfolding replay_folds [OF assms(1)] by (rule apply_messages [OF assms(2,3)]) blast

section \<open>Messages of the wrong length\<close>

text \<open>How many bytes of its buffer the decoder of a type reads, and a message that has fewer.\<close>

definition bytes_read :: "char \<Rightarrow> nat" where
  "bytes_read type =
     (if type \<in> set ''AFC'' then 36 else if type = CHR ''U'' then 35 else if type = CHR ''E'' then 31
      else if type = CHR ''R'' then 25 else if type = CHR ''X'' then 23 else if type = CHR ''D'' then 19 else 0)"

lemma dispatch_short:
  assumes "char_at p 0 = Some type" and "moves_book type" and "length p < bytes_read type"
  shows "dispatch type p b = None"
proof -
  have "decode_event type p = None"
    using assms
    by (auto simp: decode_event_def bytes_read_def moves_book_def decode_add_order_None
        decode_order_executed_None decode_order_cancel_None decode_order_delete_None decode_order_replace_None)
  then show ?thesis using dispatch_event [OF assms(2)] by simp
qed

lemma apply_message_short:
  assumes type: "char_at (mv_data mv) 0 = Some type" and moves: "type = CHR ''R'' \<or> moves_book type"
    and short: "length (mv_data mv) < bytes_read type"
    and known: "\<And>h. decode_header (mv_data mv) = Some h \<Longrightarrow> type = CHR ''R'' \<or> bs_is_known books (stock_locate h)"
  shows "apply_message mv (books, stats) = None"
proof (cases "type = CHR ''R''")
  case True
  then have "decode_stock_directory (mv_data mv) = None"
    using short by (simp add: decode_stock_directory_None bytes_read_def)
  then show ?thesis using type True by (simp add: apply_message_known is_known_def Let_def)
next
  case False
  then have "moves_book type" using moves by simp
  note short = dispatch_short [OF type this short] and kn = moves_known [OF this]
  show ?thesis
    using known False short \<open>moves_book type\<close>
    by (cases "decode_header (mv_data mv)")
      (auto simp: apply_message_known [OF type kn] Let_def Option.bind_eq_None_conv simp del: decode_header_None)
qed

text \<open>The size of a message only moves the counter of mismatches; all else comes from the buffer.\<close>

definition forget_mismatch :: "book_set \<times> replay_stats \<Rightarrow> book_set \<times> replay_stats" where
  "forget_mismatch = apsnd (\<lambda>st. st\<lparr>rs_length_mismatch := 0\<rparr>)"

lemma tally_forget: "(tally r st)\<lparr>rs_length_mismatch := 0\<rparr> = tally r (st\<lparr>rs_length_mismatch := 0\<rparr>)"
  by (simp add: tally_def split: apply_result.split)

lemma apply_message_size:
  "map_option forget_mismatch (apply_message (mv\<lparr>mv_size := k\<rparr>) s) = map_option forget_mismatch (apply_message mv s)"
proof (cases "char_at (mv_data mv) 0")
  case None
  then show ?thesis by (cases s) (simp add: apply_message_def Let_def del: char_at_None)
next
  case (Some type)
  obtain books stats where s: "s = (books, stats)" by (cases s)
  show ?thesis
  proof (cases "is_known type")
    case False
    then show ?thesis using Some by (simp add: apply_message_def s)
  next
    case True
    have type: "char_at (mv_data (mv\<lparr>mv_size := k\<rparr>)) 0 = Some type" using Some by simp
    define st1 where "st1 = count_mismatch (mv\<lparr>mv_size := k\<rparr>) type (stats\<lparr>rs_messages := rs_messages stats + 1\<rparr>)"
    define st2 where "st2 = count_mismatch mv type (stats\<lparr>rs_messages := rs_messages stats + 1\<rparr>)"
    have same: "st1\<lparr>rs_length_mismatch := 0\<rparr> = st2\<lparr>rs_length_mismatch := 0\<rparr>"
      and locate: "rs_unknown_locate st1 = rs_unknown_locate st2"
      "st1\<lparr>rs_unknown_locate := c, rs_length_mismatch := 0\<rparr> = st2\<lparr>rs_unknown_locate := c, rs_length_mismatch := 0\<rparr>" for c
      by (simp_all add: st1_def st2_def count_mismatch_def)
    have result: "(case r of None \<Rightarrow> st1 | Some r \<Rightarrow> tally r st1)\<lparr>rs_length_mismatch := 0\<rparr> =
        (case r of None \<Rightarrow> st2 | Some r \<Rightarrow> tally r st2)\<lparr>rs_length_mismatch := 0\<rparr>" for r
      using same by (cases r) (simp_all add: tally_forget)
    show ?thesis
      unfolding s apply_message_known [OF Some True] apply_message_known [OF type True]
        st1_def [symmetric] st2_def [symmetric] Let_def
      by (simp add: forget_mismatch_def same locate result map_option_bind case_prod_unfold
          if_distrib [of "map_option _"] cong: Option.bind_cong if_cong)
  qed
qed

end
