(* ===== verification/Feed_Handler.thy ===== *)
theory Feed_Handler
  imports Replay
begin

text \<open>
  The offline driver \<open>apps/feed_handler/main.cc\<close>: its own walk over the messages, the audit it
  keeps beside the books, and the verdict it ends with. The parameter \<open>debug\<close> is the build
  without \<open>NDEBUG\<close>, which samples the full check.
\<close>

section \<open>State\<close>

record audit =
  au_applied :: size_t
  au_unknown_ref :: size_t
  au_duplicate_ref :: size_t
  au_clamped_reduce :: size_t
  au_shares_added :: u64
  au_shares_executed :: u64
  au_shares_cancelled :: u64
  au_shares_deleted :: u64

definition new_audit :: audit where
  "new_audit = \<lparr>au_applied = 0, au_unknown_ref = 0, au_duplicate_ref = 0, au_clamped_reduce = 0,
     au_shares_added = 0, au_shares_executed = 0, au_shares_cancelled = 0, au_shares_deleted = 0\<rparr>"

definition audit_tally :: "apply_result \<Rightarrow> audit \<Rightarrow> audit" where
  "audit_tally r au =
     (case r of
        Applied \<Rightarrow> au\<lparr>au_applied := au_applied au + 1\<rparr>
      | UnknownRef \<Rightarrow> au\<lparr>au_unknown_ref := au_unknown_ref au + 1\<rparr>
      | DuplicateRef \<Rightarrow> au\<lparr>au_duplicate_ref := au_duplicate_ref au + 1\<rparr>
      | ClampedReduce \<Rightarrow> au\<lparr>au_clamped_reduce := au_clamped_reduce au + 1\<rparr>)"

definition expected_resting :: "audit \<Rightarrow> u64" where
  "expected_resting au =
     au_shares_added au - au_shares_executed au - au_shares_cancelled au - au_shares_deleted au"

record feed_state =
  fs_books :: book_set
  fs_counts :: "char \<rightharpoonup> size_t"
  fs_audit :: audit
  fs_messages :: size_t
  fs_unknown_type :: size_t
  fs_length_mismatch :: size_t
  fs_unknown_locate :: size_t
  fs_invariants_ok :: bool

definition new_feed :: feed_state where
  "new_feed = \<lparr>fs_books = new_book_set, fs_counts = Map.empty, fs_audit = new_audit, fs_messages = 0,
     fs_unknown_type = 0, fs_length_mismatch = 0, fs_unknown_locate = 0, fs_invariants_ok = True\<rparr>"

definition kInvariantInterval :: size_t where
  "kInvariantInterval = 250000"

section \<open>One message\<close>

text \<open>Each case of the switch: nothing but a counter for an unknown locate, else the book and the audit.\<close>

definition on_known ::
    "u16 \<Rightarrow> (order_book \<Rightarrow> audit \<Rightarrow> (order_book \<times> audit) option) \<Rightarrow> feed_state \<Rightarrow> feed_state option" where
  "on_known locate f fs =
     (if \<not> bs_is_known (fs_books fs) locate then Some (fs\<lparr>fs_unknown_locate := fs_unknown_locate fs + 1\<rparr>)
      else do {
        b \<leftarrow> bs_book (fs_books fs) locate;
        (b, au) \<leftarrow> f b (fs_audit fs);
        books \<leftarrow> bs_put_book (fs_books fs) locate b;
        Some (fs\<lparr>fs_books := books, fs_audit := au\<rparr>) })"

definition audited_add :: "add_order \<Rightarrow> order_book \<Rightarrow> audit \<Rightarrow> (order_book \<times> audit) option" where
  "audited_add m b au =
     do { (r, b) \<leftarrow> book_add (ao_order_ref m) (to_side (ao_side m)) (ao_shares m) (ao_price m) b;
          let au = audit_tally r au;
          Some (b, if r = Applied then au\<lparr>au_shares_added := au_shares_added au + ucast (ao_shares m)\<rparr> else au) }"

definition audited_execute :: "order_executed \<Rightarrow> order_book \<Rightarrow> audit \<Rightarrow> (order_book \<times> audit) option" where
  "audited_execute m b au =
     do { before \<leftarrow> shares_of b (oe_order_ref m);
          (r, b) \<leftarrow> book_reduce (oe_order_ref m) (oe_executed_shares m) b;
          after \<leftarrow> shares_of b (oe_order_ref m);
          let au = audit_tally r au;
          Some (b, au\<lparr>au_shares_executed := au_shares_executed au + ucast (before - after)\<rparr>) }"

definition audited_cancel :: "order_cancel \<Rightarrow> order_book \<Rightarrow> audit \<Rightarrow> (order_book \<times> audit) option" where
  "audited_cancel m b au =
     do { before \<leftarrow> shares_of b (oc_order_ref m);
          (r, b) \<leftarrow> book_reduce (oc_order_ref m) (oc_cancelled_shares m) b;
          after \<leftarrow> shares_of b (oc_order_ref m);
          let au = audit_tally r au;
          Some (b, au\<lparr>au_shares_cancelled := au_shares_cancelled au + ucast (before - after)\<rparr>) }"

definition audited_delete :: "order_delete \<Rightarrow> order_book \<Rightarrow> audit \<Rightarrow> (order_book \<times> audit) option" where
  "audited_delete m b au =
     do { q \<leftarrow> shares_of b (od_order_ref m);
          let au = au\<lparr>au_shares_deleted := au_shares_deleted au + ucast q\<rparr>;
          (r, b) \<leftarrow> book_remove (od_order_ref m) b;
          Some (b, audit_tally r au) }"

definition audited_replace :: "order_replace \<Rightarrow> order_book \<Rightarrow> audit \<Rightarrow> (order_book \<times> audit) option" where
  "audited_replace m b au =
     do { killed \<leftarrow> shares_of b (or_original_order_ref m);
          (r, b) \<leftarrow> book_replace (or_original_order_ref m) (or_new_order_ref m) (or_shares m) (or_price m) b;
          let au = audit_tally r au;
          Some (b, if r = Applied
                   then au\<lparr>au_shares_deleted := au_shares_deleted au + ucast killed,
                           au_shares_added := au_shares_added au + ucast (or_shares m)\<rparr>
                   else au) }"

definition feed_switch :: "char \<Rightarrow> bytes \<Rightarrow> u16 \<Rightarrow> feed_state \<Rightarrow> feed_state option" where
  "feed_switch type p locate fs =
     (if type = CHR ''A'' \<or> type = CHR ''F'' then do { m \<leftarrow> decode_add_order p; on_known locate (audited_add m) fs }
      else if type = CHR ''E'' \<or> type = CHR ''C'' then
        do { m \<leftarrow> decode_order_executed p; on_known locate (audited_execute m) fs }
      else if type = CHR ''X'' then do { m \<leftarrow> decode_order_cancel p; on_known locate (audited_cancel m) fs }
      else if type = CHR ''D'' then do { m \<leftarrow> decode_order_delete p; on_known locate (audited_delete m) fs }
      else if type = CHR ''U'' then do { m \<leftarrow> decode_order_replace p; on_known locate (audited_replace m) fs }
      else Some fs)"

text \<open>The checks after the switch; the result false is the \<open>break\<close>.\<close>

definition feed_check :: "bool \<Rightarrow> u16 \<Rightarrow> feed_state \<Rightarrow> (bool \<times> feed_state) option" where
  "feed_check debug locate fs =
     do { slow \<leftarrow> (if bs_is_known (fs_books fs) locate
                  then map_option (\<lambda>b. \<not> check_invariants_fast b) (bs_book (fs_books fs) locate)
                  else Some False);
          if slow then Some (False, fs\<lparr>fs_invariants_ok := False\<rparr>)
          else if debug \<and> fs_messages fs mod kInvariantInterval = 0 then do {
            ok \<leftarrow> bs_check_invariants (fs_books fs);
            Some (if ok then (True, fs) else (False, fs\<lparr>fs_invariants_ok := False\<rparr>)) }
          else Some (True, fs) }"

definition feed_message :: "bool \<Rightarrow> message_view \<Rightarrow> feed_state \<Rightarrow> (bool \<times> feed_state) option" where
  "feed_message debug mv fs = do {
     let fs = fs\<lparr>fs_messages := fs_messages fs + 1\<rparr>;
     type \<leftarrow> char_at (mv_data mv) 0;
     let fs = fs\<lparr>fs_counts := (fs_counts fs)(type \<mapsto>
                 (case fs_counts fs type of None \<Rightarrow> 0 | Some c \<Rightarrow> c) + 1)\<rparr>;
     if \<not> is_known type then Some (True, fs\<lparr>fs_unknown_type := fs_unknown_type fs + 1\<rparr>)
     else do {
       let fs = (if expected_length (message_type_of type) \<noteq> mv_size mv
                 then fs\<lparr>fs_length_mismatch := fs_length_mismatch fs + 1\<rparr> else fs);
       if type = CHR ''R'' then do {
         msg \<leftarrow> decode_stock_directory (mv_data mv);
         books \<leftarrow> on_stock_directory msg (fs_books fs);
         Some (True, fs\<lparr>fs_books := books\<rparr>) }
       else do {
         h \<leftarrow> decode_header (mv_data mv);
         fs \<leftarrow> feed_switch type (mv_data mv) (stock_locate h) fs;
         feed_check debug (stock_locate h) fs } } }"

section \<open>The run and its verdict\<close>

text \<open>The first ten symbols with a two sided market.\<close>

definition top_entry ::
    "book_set \<Rightarrow> nat \<Rightarrow> (stock \<times> level \<times> level) list \<Rightarrow> (stock \<times> level \<times> level) list option" where
  "top_entry bs locate shown =
     (if 10 \<le> length shown then Some shown
      else (let l16 = word_of_nat locate :: u16 in
        if \<not> bs_is_known bs l16 then Some shown
        else do {
          b \<leftarrow> bs_book bs l16;
          bid \<leftarrow> best_bid b;
          ask \<leftarrow> best_ask b;
          case (bid, ask) of
            (Some bid, Some ask) \<Rightarrow> map_option (\<lambda>sym. shown @ [(sym, bid, ask)]) (bs_symbol bs l16)
          | _ \<Rightarrow> Some shown }))"

definition top_of_book :: "book_set \<Rightarrow> (stock \<times> level \<times> level) list option" where
  "top_of_book bs = foldM (top_entry bs) [1..<65536] []"

record feed_report =
  fe_state :: feed_state
  fe_consumed :: size_t
  fe_leftover :: size_t
  fe_exact :: bool
  fe_resting :: u64
  fe_expected :: u64
  fe_top :: "(stock \<times> level \<times> level) list"
  fe_exit :: nat

definition feed_main :: "bool \<Rightarrow> bytes \<Rightarrow> feed_report option" where
  "feed_main debug file =
     do { (framer, fs) \<leftarrow> framer_walk (feed_message debug) (new_framer file (word_of_nat (length file))) new_feed;
          ok \<leftarrow> bs_check_invariants (fs_books fs);
          let fs = (if ok then fs else fs\<lparr>fs_invariants_ok := False\<rparr>);
          let resting = bs_resting_shares (fs_books fs);
          let expected = expected_resting (fs_audit fs);
          let au = fs_audit fs;
          top \<leftarrow> top_of_book (fs_books fs);
          Some \<lparr>fe_state = fs, fe_consumed = framer_offset framer,
                fe_leftover = word_of_nat (length file) - framer_offset framer,
                fe_exact = framer_exhausted framer, fe_resting = resting, fe_expected = expected, fe_top = top,
                fe_exit = (if fs_invariants_ok fs \<and> resting = expected \<and> fs_unknown_type fs = 0 \<and>
                              fs_length_mismatch fs = 0 \<and> fs_unknown_locate fs = 0 \<and>
                              au_unknown_ref au = 0 \<and> au_duplicate_ref au = 0 \<and> au_clamped_reduce au = 0
                           then 0 else 1)\<rparr> }"

end
