(* ===== verification/Feed_Laws.thy ===== *)
theory Feed_Laws
  imports Feed_Handler
begin

text \<open>
  The driver against the pipeline: on a well formed stream it builds the books \<open>replay\<close> builds
  and counts what \<open>replay\<close> counts, its checks never fire, and its audit conserves shares.
\<close>

section \<open>What an event does to the resting quantity\<close>

definition keeps_shares :: "order_event \<Rightarrow> bool" where
  "keeps_shares ev \<longleftrightarrow> (case ev of EvReplace r r' s p \<Rightarrow> r' \<noteq> 0 | _ \<Rightarrow> True)"

lemma total_spec_add:
  "total_qty (snd (spec_add r side s p m)) =
     total_qty m + (if fst (spec_add r side s p m) = Applied then unat s else 0)"
  by (auto simp: spec_add_def total_qty_put)

lemma qty_of_None: "m r = None \<Longrightarrow> qty_of m r = 0"
  by (simp add: qty_of_def)

lemma qty_of_Some: "m r = Some ord \<Longrightarrow> qty_of m r = r_qty ord"
  by (simp add: qty_of_def)

lemma total_spec_reduce:
  fixes r :: u64 and s :: u32 and m :: resting_map
  defines "m' \<equiv> snd (spec_reduce r s m)"
  shows "total_qty m = total_qty m' + (qty_of m r - qty_of m' r)" and "qty_of m' r \<le> qty_of m r"
proof -
  have "total_qty m = total_qty m' + (qty_of m r - qty_of m' r) \<and> qty_of m' r \<le> qty_of m r"
  proof (cases "m r")
    case None
    then show ?thesis by (simp add: m'_def spec_reduce_def)
  next
    case (Some ord)
    show ?thesis
    proof (cases "unat s \<ge> r_qty ord")
      case True
      then have "m' = m(r := None)" using Some by (simp add: m'_def spec_reduce_def)
      then show ?thesis using total_qty_del [where m = m, OF Some] Some by (simp add: qty_of_def)
    next
      case False
      then have "m' = m(r \<mapsto> ord\<lparr>r_qty := r_qty ord - unat s\<rparr>)" using Some by (simp add: m'_def spec_reduce_def)
      then show ?thesis
        using total_qty_upd [where m = m, OF Some, of "ord\<lparr>r_qty := r_qty ord - unat s\<rparr>"] Some False
        by (simp add: qty_of_def)
    qed
  qed
  then show "total_qty m = total_qty m' + (qty_of m r - qty_of m' r)" and "qty_of m' r \<le> qty_of m r" by blast+
qed

lemma total_spec_remove: "total_qty m = total_qty (snd (spec_remove r m)) + qty_of m r"
proof (cases "m r")
  case None
  then show ?thesis by (simp add: spec_remove_def qty_of_def)
next
  case (Some ord)
  then show ?thesis using total_qty_del [where m = m, OF Some] by (simp add: spec_remove_def qty_of_def)
qed

lemma total_spec_replace:
  assumes "r' \<noteq> 0"
  shows "total_qty (snd (spec_replace r r' s p m)) + (if fst (spec_replace r r' s p m) = Applied then qty_of m r else 0) =
     total_qty m + (if fst (spec_replace r r' s p m) = Applied then unat s else 0)"
proof (cases "m r")
  case None
  then show ?thesis by (simp add: spec_replace_def)
next
  case (Some ord)
  show ?thesis
  proof (cases "r' \<noteq> r \<and> m r' \<noteq> None")
    case True
    then show ?thesis using Some by (simp add: spec_replace_def)
  next
    case False
    then have "spec_replace r r' s p m =
        (Applied, (m(r := None))(r' \<mapsto> \<lparr>r_side = r_side ord, r_qty = unat s, r_price = p\<rparr>))"
      using Some assms by (auto simp: spec_replace_def spec_add_def)
    then show ?thesis
      using total_qty_del [where m = m, OF Some] total_qty_put [of "m(r := None)" r'] False Some
      by (auto simp: qty_of_def)
  qed
qed

section \<open>The audited operations\<close>

definition results :: "audit \<Rightarrow> size_t \<times> size_t \<times> size_t \<times> size_t" where
  "results au = (au_applied au, au_unknown_ref au, au_duplicate_ref au, au_clamped_reduce au)"

text \<open>\<open>f\<close> runs the event, counts its result, and keeps the share account.\<close>

definition audits :: "(order_book \<Rightarrow> audit \<Rightarrow> (order_book \<times> audit) option) \<Rightarrow> order_event \<Rightarrow> bool" where
  "audits f ev \<longleftrightarrow>
     (\<forall>b au. book_inv b \<and> ev_ok ev \<and> card (dom (book_orders b)) + 1 < 2 ^ 32 \<longrightarrow>
        (\<exists>r b' au'. f b au = Some (b', au') \<and> run_event ev b = Some (r, b') \<and>
           results au' = results (audit_tally r au) \<and>
           (keeps_shares ev \<longrightarrow> expected_resting au' + word_of_nat (total_qty (book_orders b)) =
                              expected_resting au + word_of_nat (total_qty (book_orders b')))))"

lemma expected_tally [simp]: "expected_resting (audit_tally r au) = expected_resting au"
  by (simp add: expected_resting_def audit_tally_def split: apply_result.split)

lemma shares_tally [simp]:
  "au_shares_added (audit_tally r au) = au_shares_added au"
  "au_shares_executed (audit_tally r au) = au_shares_executed au"
  "au_shares_cancelled (audit_tally r au) = au_shares_cancelled au"
  "au_shares_deleted (audit_tally r au) = au_shares_deleted au"
  by (simp_all add: audit_tally_def split: apply_result.split)

lemma results_tally_deleted [simp]:
  "results (audit_tally r (au\<lparr>au_shares_deleted := x\<rparr>)) = results (audit_tally r au)"
  by (simp add: audit_tally_def results_def split: apply_result.split)

lemma shares_of_word:
  assumes "book_inv b"
  obtains q where "shares_of b r = Some q" and "ucast q = (word_of_nat (qty_of (book_orders b) r) :: u64)"
    and "unat q = qty_of (book_orders b) r"
proof -
  obtain q where "shares_of b r = Some q" "unat q = qty_of (book_orders b) r"
    using shares_of_exact [OF assms, of r] by blast
  then show thesis using that [of q] by (metis of_nat_unat)
qed

lemma audits_add: "audits (audited_add m) (EvAdd (ao_order_ref m) (to_side (ao_side m)) (ao_shares m) (ao_price m))"
  unfolding audits_def
proof (intro allI impI)
  fix b au
  let ?ev = "EvAdd (ao_order_ref m) (to_side (ao_side m)) (ao_shares m) (ao_price m)"
  assume *: "book_inv b \<and> ev_ok ?ev \<and> card (dom (book_orders b)) + 1 < 2 ^ 32"
  then obtain b' where b': "run_event ?ev b = Some (fst (spec_event ?ev (book_orders b)), b')"
    "book_orders b' = snd (spec_event ?ev (book_orders b))"
    using run_event_correct [of b ?ev] by blast
  then show "\<exists>r b' au'. audited_add m b au = Some (b', au') \<and> run_event ?ev b = Some (r, b') \<and>
      results au' = results (audit_tally r au) \<and>
      (keeps_shares ?ev \<longrightarrow> expected_resting au' + word_of_nat (total_qty (book_orders b)) =
         expected_resting au + word_of_nat (total_qty (book_orders b')))"
    using total_spec_add [of "ao_order_ref m" "to_side (ao_side m)" "ao_shares m" "ao_price m" "book_orders b"]
    by (auto simp: audited_add_def run_event_def spec_event_def Let_def results_def expected_resting_def
        algebra_simps)
qed

lemma reduce_account:
  assumes "book_inv b" and "card (dom (book_orders b)) + 1 < 2 ^ 32"
  obtains b' before after where
    "run_event (EvReduce r s) b = Some (fst (spec_reduce r s (book_orders b)), b')"
    and "shares_of b r = Some before" and "shares_of b' r = Some after"
    and "word_of_nat (total_qty (book_orders b)) = (word_of_nat (total_qty (book_orders b')) :: u64) + ucast (before - after)"
proof -
  have "ev_ok (EvReduce r s)" by (simp add: ev_ok_def)
  from run_event_correct [OF assms(1) this assms(2)] obtain b'
    where b': "run_event (EvReduce r s) b = Some (fst (spec_reduce r s (book_orders b)), b')" "book_inv b'"
    "book_orders b' = snd (spec_reduce r s (book_orders b))"
    by (auto simp: spec_event_def)
  obtain before where before: "shares_of b r = Some before" "unat before = qty_of (book_orders b) r"
    by (rule shares_of_word [OF assms(1)])
  obtain after where after: "shares_of b' r = Some after" "unat after = qty_of (book_orders b') r"
    by (rule shares_of_word [OF b'(2)])
  note t = total_spec_reduce [where r = r and s = s and m = "book_orders b", folded b'(3)]
  have "after \<le> before" using t(2) before(2) after(2) by (simp add: word_le_nat_alt)
  then have "unat (before - after) = qty_of (book_orders b) r - qty_of (book_orders b') r"
    using before(2) after(2) by (simp add: unat_sub)
  then have "ucast (before - after) = (word_of_nat (qty_of (book_orders b) r - qty_of (book_orders b') r) :: u64)"
    by (metis of_nat_unat)
  moreover have "word_of_nat (total_qty (book_orders b)) =
      (word_of_nat (total_qty (book_orders b')) :: u64) + word_of_nat (qty_of (book_orders b) r - qty_of (book_orders b') r)"
    using t(1) by (metis of_nat_add)
  ultimately show thesis using that b'(1) before(1) after(1) by simp
qed

lemma audits_reduce:
  assumes f: "\<And>b au. f b au = do {
      before \<leftarrow> shares_of b r; (x, b) \<leftarrow> book_reduce r s b; after \<leftarrow> shares_of b r;
      Some (b, g (before - after) (audit_tally x au)) }"
    and g: "\<And>d au. results (g d au) = results au" "\<And>d au. expected_resting (g d au) = expected_resting au - ucast d"
  shows "audits f (EvReduce r s)"
  unfolding audits_def
proof (intro allI impI)
  fix b au
  let ?ev = "EvReduce r s"
  assume *: "book_inv b \<and> ev_ok ?ev \<and> card (dom (book_orders b)) + 1 < 2 ^ 32"
  then obtain b' before after where run: "run_event ?ev b = Some (fst (spec_reduce r s (book_orders b)), b')"
    and shares: "shares_of b r = Some before" "shares_of b' r = Some after"
    and total: "word_of_nat (total_qty (book_orders b)) = (word_of_nat (total_qty (book_orders b')) :: u64) + ucast (before - after)"
    by (elim conjE) (rule reduce_account)
  let ?au = "g (before - after) (audit_tally (fst (spec_reduce r s (book_orders b))) au)"
  have "f b au = Some (b', ?au)" using run shares unfolding f by (simp add: run_event_def)
  moreover have "expected_resting ?au + word_of_nat (total_qty (book_orders b)) =
      expected_resting au + word_of_nat (total_qty (book_orders b'))"
    unfolding g(2) expected_tally total by simp
  ultimately show "\<exists>r b' au'. f b au = Some (b', au') \<and> run_event ?ev b = Some (r, b') \<and>
      results au' = results (audit_tally r au) \<and>
      (keeps_shares ?ev \<longrightarrow> expected_resting au' + word_of_nat (total_qty (book_orders b)) =
         expected_resting au + word_of_nat (total_qty (book_orders b')))"
    using run g(1) by blast
qed

lemma audits_execute: "audits (audited_execute m) (EvReduce (oe_order_ref m) (oe_executed_shares m))"
  by (rule audits_reduce [where g = "\<lambda>d au. au\<lparr>au_shares_executed := au_shares_executed au + ucast d\<rparr>"])
    (simp_all add: audited_execute_def Let_def results_def expected_resting_def)

lemma audits_cancel: "audits (audited_cancel m) (EvReduce (oc_order_ref m) (oc_cancelled_shares m))"
  by (rule audits_reduce [where g = "\<lambda>d au. au\<lparr>au_shares_cancelled := au_shares_cancelled au + ucast d\<rparr>"])
    (simp_all add: audited_cancel_def Let_def results_def expected_resting_def)

lemma audits_delete: "audits (audited_delete m) (EvRemove (od_order_ref m))"
  unfolding audits_def
proof (intro allI impI)
  fix b au
  let ?ev = "EvRemove (od_order_ref m)"
  assume *: "book_inv b \<and> ev_ok ?ev \<and> card (dom (book_orders b)) + 1 < 2 ^ 32"
  then obtain b' where b': "run_event ?ev b = Some (fst (spec_event ?ev (book_orders b)), b')"
    "book_orders b' = snd (spec_event ?ev (book_orders b))"
    using run_event_correct [of b ?ev] by blast
  obtain q where q: "shares_of b (od_order_ref m) = Some q"
    "ucast q = (word_of_nat (qty_of (book_orders b) (od_order_ref m)) :: u64)"
    using * by (elim conjE) (rule shares_of_word)
  have "word_of_nat (total_qty (book_orders b)) = (word_of_nat (total_qty (book_orders b')) :: u64) + ucast q"
    using total_spec_remove [of "book_orders b" "od_order_ref m"] b'(2) unfolding q(2) spec_event_def
    by (metis of_nat_add order_event.simps(19))
  then show "\<exists>r b' au'. audited_delete m b au = Some (b', au') \<and> run_event ?ev b = Some (r, b') \<and>
      results au' = results (audit_tally r au) \<and>
      (keeps_shares ?ev \<longrightarrow> expected_resting au' + word_of_nat (total_qty (book_orders b)) =
         expected_resting au + word_of_nat (total_qty (book_orders b')))"
    using b'(1) q(1)
    by (auto simp: audited_delete_def run_event_def Let_def expected_resting_def algebra_simps)
qed

lemma audits_replace:
  "audits (audited_replace m)
     (EvReplace (or_original_order_ref m) (or_new_order_ref m) (or_shares m) (or_price m))"
  unfolding audits_def
proof (intro allI impI)
  fix b au
  let ?r = "or_original_order_ref m" and ?r' = "or_new_order_ref m"
  let ?ev = "EvReplace ?r ?r' (or_shares m) (or_price m)"
  assume *: "book_inv b \<and> ev_ok ?ev \<and> card (dom (book_orders b)) + 1 < 2 ^ 32"
  then obtain b' where b': "run_event ?ev b = Some (fst (spec_event ?ev (book_orders b)), b')"
    "book_orders b' = snd (spec_event ?ev (book_orders b))"
    using run_event_correct [of b ?ev] by blast
  obtain q where q: "shares_of b ?r = Some q" "ucast q = (word_of_nat (qty_of (book_orders b) ?r) :: u64)"
    using * by (elim conjE) (rule shares_of_word)
  let ?spec = "spec_replace ?r ?r' (or_shares m) (or_price m) (book_orders b)"
  have b's: "book_orders b' = snd ?spec" "run_event ?ev b = Some (fst ?spec, b')"
    using b' by (simp_all add: spec_event_def)
  have "?r' \<noteq> 0 \<Longrightarrow> (word_of_nat (total_qty (book_orders b')) :: u64) + (if fst ?spec = Applied then ucast q else 0) =
     word_of_nat (total_qty (book_orders b)) + (if fst ?spec = Applied then ucast (or_shares m) else 0)"
    using arg_cong [OF total_spec_replace [of ?r' ?r "or_shares m" "or_price m" "book_orders b"], where f = "word_of_nat :: nat \<Rightarrow> u64"]
    unfolding b's(1) [symmetric] q(2) by (simp split: if_splits)
  then show "\<exists>r b' au'. audited_replace m b au = Some (b', au') \<and> run_event ?ev b = Some (r, b') \<and>
      results au' = results (audit_tally r au) \<and>
      (keeps_shares ?ev \<longrightarrow> expected_resting au' + word_of_nat (total_qty (book_orders b)) =
         expected_resting au + word_of_nat (total_qty (book_orders b')))"
    using b's(2) q(1)
    by (auto simp: audited_replace_def run_event_def Let_def results_def expected_resting_def keeps_shares_def
        algebra_simps)
qed

end
