(* ===== verification/Feed_Run.thy ===== *)
theory Feed_Run
  imports Feed_Laws
begin

text \<open>
  The driver's whole run. On a stream of well formed messages it agrees with \<open>replay\<close> message
  by message, none of its checks fires in either build, and the shares are conserved.
\<close>

section \<open>Streams without zero quantities\<close>

definition adds_shares :: "order_event \<Rightarrow> bool" where
  "adds_shares ev \<longleftrightarrow> (case ev of EvAdd r side s p \<Rightarrow> s \<noteq> 0 | EvReplace r r' s p \<Rightarrow> s \<noteq> 0 | _ \<Rightarrow> True)"

text \<open>
  What the driver asks of a message beside \<open>message_ok\<close>: no order without shares, and no
  replacement by the reference 0.
\<close>

definition driver_ok :: "message_view \<Rightarrow> bool" where
  "driver_ok mv \<longleftrightarrow> message_ok mv \<and>
     (\<forall>type ev. char_at (mv_data mv) 0 = Some type \<longrightarrow> decode_event type (mv_data mv) = Some ev \<longrightarrow>
        keeps_shares ev \<and> adds_shares ev)"

lemma driver_ok_code [code]:
  "driver_ok mv = (message_ok mv \<and>
     (case char_at (mv_data mv) 0 of None \<Rightarrow> True
      | Some type \<Rightarrow> (case decode_event type (mv_data mv) of None \<Rightarrow> True
                     | Some ev \<Rightarrow> keeps_shares ev \<and> adds_shares ev)))"
  by (cases "char_at (mv_data mv) 0") (auto simp: driver_ok_def simp del: char_at_None split: option.split)

definition all_positive :: "resting_map \<Rightarrow> bool" where
  "all_positive m \<longleftrightarrow> (\<forall>r ord. m r = Some ord \<longrightarrow> 0 < r_qty ord)"

definition market_positive :: "market \<Rightarrow> bool" where
  "market_positive M \<longleftrightarrow> (\<forall>l m. M l = Some m \<longrightarrow> all_positive m)"

lemma all_positive_no_empty:
  assumes "all_positive m"
  shows "no_empty_level m"
  unfolding no_empty_level_def
proof (intro allI impI)
  fix r ord assume r: "m r = Some ord"
  have "r_qty ord + (\<Sum>r' \<in> refs_at m (r_side ord) (r_price ord) - {r}. qty_of m r') =
      qty_at m (r_side ord) (r_price ord)"
    unfolding qty_at_def
    by (rule sum_qty_split [where m = m, OF finite_refs_at refs_atI [where m = m, OF r] r, symmetric])
  moreover have "0 < r_qty ord" using assms r by (simp add: all_positive_def)
  ultimately show "qty_at m (r_side ord) (r_price ord) \<noteq> 0" by linarith
qed

lemma unat_pos: "s \<noteq> 0 \<Longrightarrow> 0 < unat s"
  by (simp add: unat_gt_0)

lemma all_positive_spec_event:
  assumes "all_positive m" and "adds_shares ev"
  shows "all_positive (snd (spec_event ev m))"
proof (cases ev)
  case (EvAdd r side s p)
  then show ?thesis using assms unat_pos by (auto simp: spec_event_def spec_add_def all_positive_def adds_shares_def)
next
  case (EvReduce r s)
  then show ?thesis using assms(1)
    by (auto simp: spec_event_def spec_reduce_def all_positive_def split: option.split)
next
  case (EvRemove r)
  then show ?thesis using assms(1) by (simp add: spec_event_def spec_remove_def all_positive_def)
next
  case (EvReplace r r' s p)
  then show ?thesis using assms unat_pos
    by (auto simp: spec_event_def spec_replace_def spec_add_def all_positive_def adds_shares_def split: option.split)
qed

lemma market_positive_spec_message:
  assumes "market_positive M" and "driver_ok mv"
  shows "market_positive (fst (spec_message mv (M, st)))"
proof -
  obtain type where type: "char_at (mv_data mv) 0 = Some type"
    using assms(2) by (auto simp: driver_ok_def message_ok_def)
  have ev: "adds_shares ev" if "decode_event type (mv_data mv) = Some ev" for ev
    using assms(2) type that by (simp add: driver_ok_def)
  have "market_positive (spec_register l M)" for l
    using assms(1) by (auto simp: market_positive_def spec_register_def all_positive_def split: option.split)
  then show ?thesis
    using assms(1) type all_positive_spec_event ev
    by (auto simp: spec_message_def Let_def market_positive_def case_prod_unfold split: option.split)
qed

section \<open>One message\<close>

lemma view_total_register: "view_total (spec_register l M) = view_total M"
proof (cases "M l")
  case None
  then show ?thesis using view_total_put [of M l Map.empty] by (simp add: spec_register_def)
next
  case (Some m)
  then have "M(l \<mapsto> m) = M" by (simp add: fun_upd_idem)
  then show ?thesis using Some by (simp add: spec_register_def)
qed

definition stats_of :: "feed_state \<Rightarrow> replay_stats" where
  "stats_of fs = \<lparr>rs_messages = fs_messages fs, rs_unknown_type = fs_unknown_type fs,
     rs_length_mismatch = fs_length_mismatch fs, rs_unknown_locate = fs_unknown_locate fs,
     rs_applied = au_applied (fs_audit fs), rs_unknown_ref = au_unknown_ref (fs_audit fs),
     rs_duplicate_ref = au_duplicate_ref (fs_audit fs), rs_clamped_reduce = au_clamped_reduce (fs_audit fs)\<rparr>"

lemma stats_of_results:
  "results au = results (audit_tally r (fs_audit fs)) \<Longrightarrow>
     stats_of (fs\<lparr>fs_books := books, fs_audit := au\<rparr>) = tally r (stats_of fs)"
  by (auto simp: results_def stats_of_def tally_def audit_tally_def split: apply_result.splits)

lemma feed_switch_event:
  assumes "decode_event type p = Some ev"
  shows "\<exists>f. audits f ev \<and> (\<forall>locate fs. feed_switch type p locate fs = on_known locate f fs)"
  using assms unfolding decode_event_def feed_switch_def
  by (auto split: if_splits intro: audits_add audits_execute audits_cancel audits_delete audits_replace)

lemma stats_of_locate:
  "stats_of (fs\<lparr>fs_unknown_locate := c\<rparr>) = (stats_of fs)\<lparr>rs_unknown_locate := c\<rparr>"
  "rs_unknown_locate (stats_of fs) = fs_unknown_locate fs"
  "rs_unknown_locate (count_mismatch mv type st) = rs_unknown_locate st"
  by (simp_all add: stats_of_def count_mismatch_def)

definition conserved :: "feed_state \<Rightarrow> bool" where
  "conserved fs \<longleftrightarrow> bs_resting_shares (fs_books fs) = expected_resting (fs_audit fs)"

lemma on_known_correct:
  assumes inv: "bs_inv n (fs_books fs)" and room: "n + 1 < 2 ^ 32" and au: "audits f ev" "ev_ok ev" "keeps_shares ev"
    and known: "bs_is_known (fs_books fs) l" and cons: "conserved fs"
  shows "\<exists>b r b' books au. bs_book (fs_books fs) l = Some b \<and> run_event ev b = Some (r, b') \<and>
      bs_put_book (fs_books fs) l b' = Some books \<and> bs_inv (n + 1) books \<and>
      on_known l f fs = Some (fs\<lparr>fs_books := books, fs_audit := au\<rparr>) \<and>
      results au = results (audit_tally r (fs_audit fs)) \<and> conserved (fs\<lparr>fs_books := books, fs_audit := au\<rparr>)"
proof -
  note b = bs_known_book [OF inv known]
  let ?b = "bs_books (fs_books fs) ! unat l"
  have space: "card (dom (book_orders ?b)) + 1 < 2 ^ 32" using b(4) room by linarith
  from au(1) obtain r b' au' where run: "f ?b (fs_audit fs) = Some (b', au')" "run_event ev ?b = Some (r, b')"
    "results au' = results (audit_tally r (fs_audit fs))"
    "expected_resting au' + word_of_nat (total_qty (book_orders ?b)) =
      expected_resting (fs_audit fs) + word_of_nat (total_qty (book_orders b'))"
    unfolding audits_def using b(3) au(2,3) space by blast
  from run_event_correct [OF b(3) au(2) space] have b': "book_inv b'"
    "book_orders b' = snd (spec_event ev (book_orders ?b))" using run(2) by auto
  have inv': "bs_inv (n + 1) (fs_books fs)" by (rule bs_inv_mono [OF inv]) simp
  have "card (dom (book_orders b')) \<le> n + 1" using card_spec_event [of ev "book_orders ?b"] b(4) b'(2) by simp
  from bs_put_book_correct [OF inv' known b'(1) this] obtain books
    where books: "bs_put_book (fs_books fs) l b' = Some books" "bs_inv (n + 1) books"
    "bs_view books = (bs_view (fs_books fs))(l \<mapsto> book_orders b')" by blast
  have "view_total (bs_view books) + total_qty (book_orders ?b) =
      view_total (bs_view (fs_books fs)) + total_qty (book_orders b')"
    using view_total_put [of "bs_view (fs_books fs)" l "book_orders b'"] b(5) unfolding books(3) by simp
  from arg_cong [OF this, where f = "word_of_nat :: nat \<Rightarrow> u64"]
  have "bs_resting_shares books + word_of_nat (total_qty (book_orders ?b)) =
      bs_resting_shares (fs_books fs) + word_of_nat (total_qty (book_orders b'))"
    using bs_resting_shares_correct [OF books(2)] bs_resting_shares_correct [OF inv] by simp
  then have "conserved (fs\<lparr>fs_books := books, fs_audit := au'\<rparr>)"
    using cons run(4) by (simp add: conserved_def) (metis add_right_cancel)
  moreover have "on_known l f fs = Some (fs\<lparr>fs_books := books, fs_audit := au'\<rparr>)"
    using known b(2) run(1) books(1) by (simp add: on_known_def)
  ultimately show ?thesis using b(2) run(2,3) books(1,2) by blast
qed

lemma feed_check_passes:
  assumes inv: "bs_inv n (fs_books fs)" and pos: "market_positive (bs_view (fs_books fs))"
  shows "feed_check debug l fs = Some (True, fs)"
proof -
  have "check_invariants_fast b" if "bs_book (fs_books fs) l = Some b" for b
    using that inv book_fast by (auto simp: bs_book_def bs_inv_def vget_Some)
  moreover have "bs_check_invariants (fs_books fs) = Some True"
    using bs_check_invariants_correct [OF inv] pos all_positive_no_empty by (auto simp: market_positive_def)
  ultimately show ?thesis
    using bs_known_book(2) [OF inv, of l] by (cases "bs_is_known (fs_books fs) l") (auto simp: feed_check_def)
qed

text \<open>The state when the switch is reached.\<close>

definition counted :: "message_view \<Rightarrow> char \<Rightarrow> feed_state \<Rightarrow> feed_state" where
  "counted mv type fs = fs\<lparr>fs_messages := fs_messages fs + 1,
     fs_counts := (fs_counts fs)(type \<mapsto> (case fs_counts fs type of None \<Rightarrow> 0 | Some c \<Rightarrow> c) + 1)\<rparr>"

definition measured :: "message_view \<Rightarrow> char \<Rightarrow> feed_state \<Rightarrow> feed_state" where
  "measured mv type fs = (let fs = counted mv type fs
     in if expected_length (message_type_of type) \<noteq> mv_size mv
        then fs\<lparr>fs_length_mismatch := fs_length_mismatch fs + 1\<rparr> else fs)"

lemma measured_same [simp]:
  "fs_books (measured mv type fs) = fs_books fs" "fs_audit (measured mv type fs) = fs_audit fs"
  "fs_invariants_ok (measured mv type fs) = fs_invariants_ok fs"
  "fs_unknown_locate (measured mv type fs) = fs_unknown_locate fs"
  "conserved (measured mv type fs) = conserved fs"
  "stats_of (measured mv type fs) = count_mismatch mv type ((stats_of fs)\<lparr>rs_messages := rs_messages (stats_of fs) + 1\<rparr>)"
  by (simp_all add: measured_def counted_def conserved_def stats_of_def count_mismatch_def Let_def)

lemma feed_message_known:
  assumes "char_at (mv_data mv) 0 = Some type" and "is_known type"
  shows "feed_message debug mv fs =
     (if type = CHR ''R'' then do {
        msg \<leftarrow> decode_stock_directory (mv_data mv);
        books \<leftarrow> on_stock_directory msg (fs_books fs);
        Some (True, (measured mv type fs)\<lparr>fs_books := books\<rparr>) }
      else do {
        h \<leftarrow> decode_header (mv_data mv);
        fs \<leftarrow> feed_switch type (mv_data mv) (stock_locate h) (measured mv type fs);
        feed_check debug (stock_locate h) fs })"
  using assms by (auto simp: feed_message_def measured_def counted_def Let_def)

lemma feed_switch_idle: "\<not> moves_book type \<Longrightarrow> feed_switch type p l fs = Some fs"
  by (simp add: feed_switch_def moves_book_def)

text \<open>
  What a turn of the loop has to do, given what \<open>apply_message\<close> does: reach the same books and
  counters, keep the shares conserved and find nothing wrong.
\<close>

definition follows :: "bool \<Rightarrow> message_view \<Rightarrow> feed_state \<Rightarrow> book_set \<Rightarrow> replay_stats \<Rightarrow> bool" where
  "follows debug mv fs books stats \<longleftrightarrow> (\<exists>fs'. feed_message debug mv fs = Some (True, fs') \<and> conserved fs' \<and>
     fs_invariants_ok fs' = fs_invariants_ok fs \<and> fs_books fs' = books \<and> stats_of fs' = stats)"

lemma followsI:
  assumes "feed_message debug mv fs = Some (True, fs')" and "conserved fs'"
    and "fs_invariants_ok fs' = fs_invariants_ok fs" and "fs_books fs' = books" and "stats_of fs' = stats"
  shows "follows debug mv fs books stats"
  using assms by (auto simp: follows_def)

lemma unknown_follows:
  assumes type: "char_at (mv_data mv) 0 = Some type" "\<not> is_known type" and cons: "conserved fs"
    and ap: "apply_message mv (fs_books fs, stats_of fs) = Some (books', stats')"
  shows "follows debug mv fs books' stats'"
proof (rule followsI)
  let ?fs = "(counted mv type fs)\<lparr>fs_unknown_type := fs_unknown_type fs + 1\<rparr>"
  show "feed_message debug mv fs = Some (True, ?fs)"
    using type by (simp add: feed_message_def counted_def Let_def)
  show "fs_books ?fs = books'" "stats_of ?fs = stats'"
    using ap type by (simp_all add: apply_message_def stats_of_def counted_def)
  show "conserved ?fs" using cons by (simp add: conserved_def counted_def)
qed (simp add: counted_def)

lemma directory_follows:
  assumes type: "char_at (mv_data mv) 0 = Some (CHR ''R'')"
    and inv: "bs_inv n (fs_books fs)" and cons: "conserved fs" and inv': "bs_inv m books'"
    and ap: "apply_message mv (fs_books fs, stats_of fs) = Some (books', stats')"
  shows "follows debug mv fs books' stats'"
proof (rule followsI)
  let ?fs = "measured mv (CHR ''R'') fs"
  have known: "is_known (CHR ''R'')" by (simp add: is_known_def)
  obtain msg where msg: "decode_stock_directory (mv_data mv) = Some msg"
    "on_stock_directory msg (fs_books fs) = Some books'" "stats' = stats_of ?fs"
    using ap type known by (auto simp: apply_message_known Let_def split: Option.bind_splits)
  have "view_total (bs_view books') = view_total (bs_view (fs_books fs))"
    using on_stock_directory_correct [OF inv, of msg] msg(2) view_total_register by auto
  then show "conserved (?fs\<lparr>fs_books := books'\<rparr>)"
    using cons bs_resting_shares_correct [OF inv'] bs_resting_shares_correct [OF inv] by (simp add: conserved_def)
  show "feed_message debug mv fs = Some (True, ?fs\<lparr>fs_books := books'\<rparr>)"
    using feed_message_known [OF type known, of debug fs] msg by simp
  show "stats_of (?fs\<lparr>fs_books := books'\<rparr>) = stats'" using msg(3) by (simp add: stats_of_def)
qed simp_all

lemma idle_follows:
  assumes type: "char_at (mv_data mv) 0 = Some type" "is_known type"
    and other: "type \<noteq> CHR ''R''" "\<not> moves_book type" and h: "decode_header (mv_data mv) = Some h"
    and inv: "bs_inv n (fs_books fs)" and pos: "market_positive (bs_view (fs_books fs))" and cons: "conserved fs"
    and ap: "apply_message mv (fs_books fs, stats_of fs) = Some (books', stats')"
  shows "follows debug mv fs books' stats'"
proof (rule followsI)
  let ?fs = "measured mv type fs"
  have "feed_check debug (stock_locate h) ?fs = Some (True, ?fs)"
    by (rule feed_check_passes [where n = n]) (use inv pos in simp_all)
  then show "feed_message debug mv fs = Some (True, ?fs)"
    using feed_message_known [OF type, of debug fs] other(1) h feed_switch_idle [OF other(2)] by simp
  show "fs_books ?fs = books'" "stats_of ?fs = stats'"
    using ap type other by (simp_all add: apply_message_known Let_def)
qed (use cons in simp_all)

text \<open>An order message: the audited operation of the driver against the plain one of \<open>apply_message\<close>.\<close>

lemma order_follows:
  assumes type: "char_at (mv_data mv) 0 = Some type" "is_known type"
    and other: "type \<noteq> CHR ''R''" and moves: "moves_book type" and h: "decode_header (mv_data mv) = Some h"
    and ev: "decode_event type (mv_data mv) = Some ev" "ev_ok ev" "keeps_shares ev"
    and inv: "bs_inv n (fs_books fs)" and room: "n + 1 < 2 ^ 32" and cons: "conserved fs"
    and pos: "market_positive (bs_view (fs_books fs))" "market_positive (bs_view books')"
    and ap: "apply_message mv (fs_books fs, stats_of fs) = Some (books', stats')"
  shows "follows debug mv fs books' stats'"
proof -
  let ?fs = "measured mv type fs"
  note run = feed_message_known [OF type, of debug fs]
  obtain f where f: "audits f ev" "\<And>l fs. feed_switch type (mv_data mv) l fs = on_known l f fs"
    using feed_switch_event [OF ev(1)] by blast
  have step: "apply_message mv (fs_books fs, stats_of fs) =
      (if \<not> bs_is_known (fs_books fs) (stock_locate h)
       then Some (fs_books fs, (stats_of ?fs)\<lparr>rs_unknown_locate := rs_unknown_locate (stats_of ?fs) + 1\<rparr>)
       else do { b \<leftarrow> bs_book (fs_books fs) (stock_locate h);
                 (r, b) \<leftarrow> dispatch type (mv_data mv) b;
                 books \<leftarrow> bs_put_book (fs_books fs) (stock_locate h) b;
                 Some (books, case r of None \<Rightarrow> stats_of ?fs | Some r \<Rightarrow> tally r (stats_of ?fs)) })"
    using type other moves h unfolding measured_same(6) by (simp add: apply_message_known Let_def)
  show ?thesis
  proof (cases "bs_is_known (fs_books fs) (stock_locate h)")
    case False
    let ?fs' = "?fs\<lparr>fs_unknown_locate := fs_unknown_locate fs + 1\<rparr>"
    have "on_known (stock_locate h) f ?fs = Some ?fs'"
      using False by (simp add: on_known_def)
    moreover have "feed_check debug (stock_locate h) ?fs' = Some (True, ?fs')"
      by (rule feed_check_passes [where n = n]) (use inv pos in simp_all)
    moreover have "books' = fs_books fs" "stats' = stats_of ?fs'"
      using ap step False by (simp_all add: stats_of_locate)
    ultimately show ?thesis using run other h f(2) cons by (simp add: follows_def conserved_def)
  next
    case known: True
    have "bs_inv n (fs_books ?fs)" "bs_is_known (fs_books ?fs) (stock_locate h)" "conserved ?fs"
      using inv known cons by simp_all
    from on_known_correct [OF this(1) room f(1) ev(2,3) this(2,3)]
    obtain b r b' books au where o: "bs_book (fs_books fs) (stock_locate h) = Some b"
      "run_event ev b = Some (r, b')" "bs_put_book (fs_books fs) (stock_locate h) b' = Some books"
      "bs_inv (n + 1) books" "on_known (stock_locate h) f ?fs = Some (?fs\<lparr>fs_books := books, fs_audit := au\<rparr>)"
      "results au = results (audit_tally r (fs_audit ?fs))" "conserved (?fs\<lparr>fs_books := books, fs_audit := au\<rparr>)"
      by auto
    let ?fs' = "?fs\<lparr>fs_books := books, fs_audit := au\<rparr>"
    have "dispatch type (mv_data mv) b = Some (Some r, b')"
      unfolding dispatch_event [OF moves] ev(1) using o(2) by simp
    then have same: "books' = books" "stats' = stats_of ?fs'"
      using ap step known o(1,3) stats_of_results [OF o(6)] by simp_all
    have "feed_check debug (stock_locate h) ?fs' = Some (True, ?fs')"
      by (rule feed_check_passes [where n = "n + 1"]) (use o(4) pos(2) same in simp_all)
    then show ?thesis using run other h f(2) o(5,7) same by (simp add: follows_def)
  qed
qed

lemma feed_message_correct:
  assumes inv: "bs_inv n (fs_books fs)" and room: "n + 1 < 2 ^ 32" and ok: "driver_ok mv"
    and pos: "market_positive (bs_view (fs_books fs))" and cons: "conserved fs"
  shows "\<exists>fs'. feed_message debug mv fs = Some (True, fs') \<and> bs_inv (n + 1) (fs_books fs') \<and>
      market_positive (bs_view (fs_books fs')) \<and> conserved fs' \<and> fs_invariants_ok fs' = fs_invariants_ok fs \<and>
      apply_message mv (fs_books fs, stats_of fs) = Some (fs_books fs', stats_of fs')"
proof -
  have mok: "message_ok mv" using ok by (simp add: driver_ok_def)
  obtain type where type: "char_at (mv_data mv) 0 = Some type" and known: "is_known type \<Longrightarrow>
      expected_length (message_type_of type) \<le> mv_size mv \<and> unat (mv_size mv) \<le> length (mv_data mv)"
    and evs: "\<And>ev. is_known type \<Longrightarrow> decode_event type (mv_data mv) = Some ev \<Longrightarrow> ev_ok ev"
    using mok by (auto simp: message_ok_def)
  have keep: "\<And>ev. decode_event type (mv_data mv) = Some ev \<Longrightarrow> keeps_shares ev"
    using ok type by (simp add: driver_ok_def)
  obtain books' stats' where ap: "apply_message mv (fs_books fs, stats_of fs) = Some (books', stats')"
    "bs_inv (n + 1) books'" "(bs_view books', stats') = spec_message mv (bs_view (fs_books fs), stats_of fs)"
    using apply_message_correct [OF inv room mok] by blast
  have pos': "market_positive (bs_view books')"
    using market_positive_spec_message [OF pos ok, of "stats_of fs"] unfolding ap(3) [symmetric] by simp
  have "follows debug mv fs books' stats'"
  proof (cases "is_known type")
    case True
    have "unat (expected_length (message_type_of type)) \<le> length (mv_data mv)"
      using known [OF True] by (auto simp: word_le_nat_alt)
    note decode = decode_event_None_iff [OF type True this]
    obtain h where h: "decode_header (mv_data mv) = Some h" using decode(2) by blast
    consider "type = CHR ''R''" | "type \<noteq> CHR ''R''" "\<not> moves_book type"
      | ev where "type \<noteq> CHR ''R''" "moves_book type" "decode_event type (mv_data mv) = Some ev"
      using decode(1) by fastforce
    then show ?thesis
    proof cases
      case 1
      from directory_follows [OF type [unfolded 1] inv cons ap(2,1)] show ?thesis .
    next
      case 2
      from idle_follows [OF type True 2 h inv pos cons ap(1)] show ?thesis .
    next
      case 3
      from order_follows [OF type True 3(1,2) h 3(3) evs [OF True 3(3)] keep [OF 3(3)] inv room cons pos pos' ap(1)]
      show ?thesis .
    qed
  qed (use unknown_follows [OF type _ cons ap(1)] in blast)
  then show ?thesis using ap pos' by (auto simp: follows_def)
qed

section \<open>The run\<close>

text \<open>The driver's loop body implements \<open>apply_message\<close>, where that has a result, and keeps its checks.\<close>

definition feed_good :: "nat \<Rightarrow> feed_state \<Rightarrow> bool" where
  "feed_good n fs \<longleftrightarrow> bs_inv n (fs_books fs) \<and> market_positive (bs_view (fs_books fs)) \<and> conserved fs \<and>
     fs_invariants_ok fs"

interpretation fm: message_handler "feed_message debug" feed_good "\<lambda>fs. Some (fs_books fs, stats_of fs)"
  "\<lambda>mv s. Option.bind s (apply_message mv)" driver_ok "2 ^ 32" for debug
  by unfold_locales (use feed_message_correct in \<open>fastforce simp: feed_good_def\<close>)

lemma fold_bind: "fold (\<lambda>x s. Option.bind s (f x)) xs (Some s) = foldM f xs s"
proof (induction xs arbitrary: s)
  case (Cons x xs)
  have "fold (\<lambda>x s. Option.bind s (f x)) xs None = None" by (induction xs) simp_all
  then show ?case using Cons by (cases "f x s") simp_all
qed simp

lemma top_entry_defined:
  assumes "bs_inv n bs" and "length shown \<le> 10"
  shows "\<exists>shown'. top_entry bs l shown = Some shown' \<and> length shown' \<le> 10"
proof (cases "10 \<le> length shown \<or> \<not> bs_is_known bs (word_of_nat l)")
  case True
  then show ?thesis using assms(2) by (auto simp: top_entry_def Let_def)
next
  case False
  then have kn: "bs_is_known bs (word_of_nat l)" by simp
  note b = bs_known_book [OF assms(1) kn]
  note best = best_levels_correct [OF b(3)]
  have "\<exists>sym. bs_symbol bs (word_of_nat l) = Some sym"
    using kn assms(1) by (auto simp: bs_symbol_def bs_is_known_def bs_inv_def)
  then show ?thesis
    using False b(2) best by (auto simp: top_entry_def Let_def split: option.split)
qed

lemma top_of_book_defined:
  assumes "bs_inv n bs"
  shows "\<exists>top. top_of_book bs = Some top \<and> length top \<le> 10"
proof -
  have "\<exists>top. foldM (top_entry bs) ls shown = Some top \<and> length top \<le> 10" if "length shown \<le> 10" for ls shown
    using that
  proof (induction ls arbitrary: shown)
    case (Cons l ls)
    obtain shown' where "top_entry bs l shown = Some shown'" "length shown' \<le> 10"
      using top_entry_defined [OF assms Cons.prems] by blast
    then show ?case using Cons.IH by simp
  qed simp
  from this [of "[]" "[1..<65536]"] show ?thesis by (simp add: top_of_book_def)
qed

lemma stats_of_new: "stats_of new_feed = new_stats"
  by (simp add: stats_of_def new_feed_def new_audit_def new_stats_def)

lemma feed_good_new: "feed_good 0 new_feed"
proof -
  have "bs_resting_shares (fs_books new_feed) = expected_resting (fs_audit new_feed)"
    by (simp add: new_feed_def bs_resting_shares_def new_book_set_def expected_resting_def new_audit_def)
  then show ?thesis by (simp add: feed_good_def new_feed_def market_positive_def conserved_def)
qed

lemma feed_main_correct:
  assumes size: "length file < 2 ^ 64" and count: "length (frame_views (length file) file) < 2 ^ 32"
    and ok: "\<forall>v \<in> set (frame_views (length file) file). driver_ok v"
  shows "\<exists>rep. feed_main debug file = Some rep \<and>
      fs_invariants_ok (fe_state rep) \<and> fe_resting rep = fe_expected rep \<and>
      replay new_book_set file (word_of_nat (length file)) = Some (fs_books (fe_state rep), stats_of (fe_state rep)) \<and>
      (fe_exit rep = 0 \<longleftrightarrow> fs_unknown_type (fe_state rep) = 0 \<and> stats_clean (stats_of (fe_state rep))) \<and>
      (fe_exact rep \<longleftrightarrow> snd (split_frames file) = [])"
proof -
  let ?vs = "frame_views (length file) file" and ?n = "word_of_nat (length file) :: u64"
  have n: "unat ?n = length file" by (rule unat_of_nat_64 [OF size])
  then have le: "unat ?n \<le> length file" by simp
  note start = feed_good_new
  have empty: "fs_books new_feed = new_book_set" by (simp add: new_feed_def)
  have "0 + length (frame_views (unat ?n) file) < 2 ^ 32" "\<forall>v \<in> set (frame_views (unat ?n) file). driver_ok v"
    using count ok n by simp_all
  from fm.walk_refines [OF le start this, of debug] obtain fs where run:
    "framer_walk (feed_message debug) (new_framer file ?n) new_feed =
      Some ((new_framer file ?n)\<lparr>fr_pos := word_of_nat (frames_length (frame_views (unat ?n) file))\<rparr>, fs)"
    "feed_good (0 + length (frame_views (unat ?n) file)) fs"
    "Some (fs_books fs, stats_of fs) = fold (\<lambda>mv s. Option.bind s (apply_message mv)) (frame_views (unat ?n) file)
      (Some (fs_books new_feed, stats_of new_feed))" by blast
  note walk = run(1) [unfolded n]
  have good: "feed_good (length ?vs) fs" using run(2) unfolding n by simp
  have same: "foldM apply_message ?vs (new_book_set, new_stats) = Some (fs_books fs, stats_of fs)"
    using run(3) unfolding n fold_bind stats_of_new empty by simp
  from good have fs: "bs_inv (length ?vs) (fs_books fs)" "market_positive (bs_view (fs_books fs))" "conserved fs"
    "fs_invariants_ok fs" by (simp_all add: feed_good_def)
  let ?fr = "(new_framer file ?n)\<lparr>fr_pos := word_of_nat (frames_length ?vs)\<rparr>"
  have check: "bs_check_invariants (fs_books fs) = Some True"
    using bs_check_invariants_correct [OF fs(1)] fs(2) all_positive_no_empty by (auto simp: market_positive_def)
  obtain top where top: "top_of_book (fs_books fs) = Some top" using top_of_book_defined [OF fs(1)] by blast
  have split: "frames_length ?vs + length (snd (split_frames file)) = length file"
    using frame_views_split(2) [where n = "length file" and p = "file"] by simp
  then have "frames_length ?vs < 2 ^ 64" using size by linarith
  then have "framer_exhausted ?fr \<longleftrightarrow> frames_length ?vs = length file"
    by (simp add: framer_exhausted_def new_framer_def word_unat_eq_iff unat_of_nat_64 n)
  then have exact: "framer_exhausted ?fr \<longleftrightarrow> snd (split_frames file) = []" using split by auto
  let ?au = "fs_audit fs"
  let ?clean = "fs_unknown_type fs = 0 \<and> stats_clean (stats_of fs)"
  have "bs_resting_shares (fs_books fs) = expected_resting ?au" using fs(3) by (simp add: conserved_def)
  then have main: "feed_main debug file = Some \<lparr>fe_state = fs, fe_consumed = framer_offset ?fr,
      fe_leftover = ?n - framer_offset ?fr, fe_exact = framer_exhausted ?fr,
      fe_resting = expected_resting ?au, fe_expected = expected_resting ?au, fe_top = top,
      fe_exit = (if ?clean then 0 else 1)\<rparr>"
    using walk check top fs(4) by (simp add: feed_main_def stats_clean_def stats_of_def Let_def)
  have "replay new_book_set file ?n = Some (fs_books fs, stats_of fs)"
    using replay_folds [OF le, of new_book_set] same n by simp
  then show ?thesis using main exact fs(4) by simp
qed

end
