(* ===== verification/Feed_Report.thy ===== *)
theory Feed_Report
  imports Feed_Run
begin

text \<open>
  What the driver \<open>apps/feed_handler/main.cc\<close> prints at its end, against the messages of the file
  and the resting orders: the counts by type, the names from the directory and the top of book.
\<close>

section \<open>The specification\<close>

definition type_count :: "message_view list \<Rightarrow> char \<Rightarrow> nat" where
  "type_count vs t = length (filter (\<lambda>v. char_at (mv_data v) 0 = Some t) vs)"

definition directory_entry :: "message_view \<Rightarrow> stock_directory option" where
  "directory_entry v = (if char_at (mv_data v) 0 = Some (CHR ''R'') then decode_stock_directory (mv_data v) else None)"

definition note_name :: "message_view \<Rightarrow> (u16 \<rightharpoonup> stock) \<Rightarrow> (u16 \<rightharpoonup> stock)" where
  "note_name v N = (case directory_entry v of None \<Rightarrow> N | Some m \<Rightarrow> N(stock_locate (sd_header m) \<mapsto> sd_stock m))"

text \<open>The name a locate has after the messages: its last directory entry.\<close>

definition directory_names :: "message_view list \<Rightarrow> (u16 \<rightharpoonup> stock)" where
  "directory_names vs = fold note_name vs Map.empty"

text \<open>The row of a locate, where its resting orders make a market with two sides.\<close>

definition market_top :: "(u16 \<rightharpoonup> stock) \<Rightarrow> market \<Rightarrow> u16 \<Rightarrow> (stock \<times> level \<times> level) option" where
  "market_top N M l =
     do { name \<leftarrow> N l; m \<leftarrow> M l;
          bid \<leftarrow> side_best Buy (level_at m Buy); ask \<leftarrow> side_best Sell (level_at m Sell);
          Some (name, bid, ask) }"

definition market_tops :: "(u16 \<rightharpoonup> stock) \<Rightarrow> market \<Rightarrow> (stock \<times> level \<times> level) list" where
  "market_tops N M = List.map_filter (\<lambda>l. market_top N M (word_of_nat l)) [1..<65536]"

section \<open>Names\<close>

definition even_lengths :: "book_set \<Rightarrow> bool" where
  "even_lengths bs \<longleftrightarrow> length (bs_known bs) = length (bs_books bs) \<and> length (bs_symbols bs) = length (bs_books bs)"

definition bs_names :: "book_set \<Rightarrow> (u16 \<rightharpoonup> stock)" where
  "bs_names bs l = (if bs_is_known bs l then Some (bs_symbols bs ! unat l) else None)"

lemma directory_names_step:
  assumes "on_stock_directory m bs = Some bs'" and "even_lengths bs"
  shows "even_lengths bs'" and "bs_names bs' = (bs_names bs)(stock_locate (sd_header m) \<mapsto> sd_stock m)"
proof -
  let ?k = "unat (stock_locate (sd_header m))"
  have len: "length (bs_known bs) = length (bs_books bs)" "length (bs_symbols bs) = length (bs_books bs)"
    using assms(2) by (simp_all add: even_lengths_def)
  then have glen: "length (bs_known (grown ?k bs)) = length (bs_books (grown ?k bs))"
    "length (bs_symbols (grown ?k bs)) = length (bs_books (grown ?k bs))" "?k < length (bs_books (grown ?k bs))"
    by (simp_all add: grown_def)
  have bs': "bs_books bs' = bs_books (grown ?k bs)" "bs_symbols bs' = (bs_symbols (grown ?k bs))[?k := sd_stock m]"
    "bs_known bs' = (bs_known (grown ?k bs))[?k := True]"
    using assms(1) glen unfolding on_stock_directory_def Let_def grown_def [symmetric]
    by (auto split: if_splits)
  show "even_lengths bs'" using glen by (simp add: bs' even_lengths_def)
  have "bs_names (grown ?k bs) = bs_names bs"
    using len by (auto simp: fun_eq_iff bs_names_def bs_is_known_def grown_def nth_resize split: if_splits)
  moreover have "bs_names bs' = (bs_names (grown ?k bs))(stock_locate (sd_header m) \<mapsto> sd_stock m)"
    using glen by (auto simp: fun_eq_iff bs' bs_names_def bs_is_known_def nth_list_update word_unat_eq_iff)
  ultimately show "bs_names bs' = (bs_names bs)(stock_locate (sd_header m) \<mapsto> sd_stock m)" by simp
qed

section \<open>One turn of the loop\<close>

text \<open>What the counts and the names of a state are after the messages \<open>vs\<close>.\<close>

definition tracks :: "message_view list \<Rightarrow> feed_state \<Rightarrow> bool" where
  "tracks vs fs \<longleftrightarrow> even_lengths (fs_books fs) \<and> bs_names (fs_books fs) = directory_names vs \<and>
     fs_messages fs = word_of_nat (length vs) \<and>
     (\<forall>t. fs_counts fs t = (if type_count vs t = 0 then None else Some (word_of_nat (type_count vs t))))"

text \<open>The switch and the checks touch neither.\<close>

definition same_track :: "feed_state \<Rightarrow> feed_state \<Rightarrow> bool" where
  "same_track fs fs' \<longleftrightarrow> fs_messages fs' = fs_messages fs \<and> fs_counts fs' = fs_counts fs \<and>
     (even_lengths (fs_books fs) \<longrightarrow> even_lengths (fs_books fs')) \<and> bs_names (fs_books fs') = bs_names (fs_books fs)"

lemma same_track_refl [simp]: "same_track fs fs"
  by (simp add: same_track_def)

lemma on_known_track:
  assumes "on_known l f fs = Some fs'"
  shows "same_track fs fs'"
proof (cases "bs_is_known (fs_books fs) l")
  case True
  then obtain b x books where "bs_put_book (fs_books fs) l b = Some books" "fs' = fs\<lparr>fs_books := books, fs_audit := x\<rparr>"
    using assms by (auto simp: on_known_def bind_eq_Some_conv)
  then show ?thesis
    by (auto simp: same_track_def even_lengths_def bs_names_def bs_is_known_def bs_put_book_def vset_def fun_eq_iff
        split: if_splits)
qed (use assms in \<open>auto simp: on_known_def same_track_def\<close>)

lemma feed_switch_track: "feed_switch t p l fs = Some fs' \<Longrightarrow> same_track fs fs'"
  by (auto simp: feed_switch_def bind_eq_Some_conv split: if_splits dest: on_known_track)

lemma feed_check_track: "feed_check debug l fs = Some (go, fs') \<Longrightarrow> same_track fs fs'"
  by (auto simp: feed_check_def bind_eq_Some_conv same_track_def split: if_splits)

lemma type_count_snoc: "type_count (vs @ [v]) t = type_count vs t + (if char_at (mv_data v) 0 = Some t then 1 else 0)"
  by (simp add: type_count_def)

lemma tracks_cong: "tracks vs fs \<Longrightarrow> same_track fs fs' \<Longrightarrow> tracks vs fs'"
  by (simp add: tracks_def same_track_def)

lemma feed_message_track:
  assumes run: "feed_message debug v fs = Some (go, fs')" and fs: "tracks vs fs"
  shows "tracks (vs @ [v]) fs'"
proof -
  obtain t where t: "char_at (mv_data v) 0 = Some t" using run by (auto simp: feed_message_def bind_eq_Some_conv)
  let ?fs = "fs\<lparr>fs_messages := fs_messages fs + 1, fs_counts := (fs_counts fs)(t \<mapsto>
      (case fs_counts fs t of None \<Rightarrow> 0 | Some c \<Rightarrow> c) + 1)\<rparr>"
  have count: "fs_counts ?fs u = (if type_count (vs @ [v]) u = 0 then None else Some (word_of_nat (type_count (vs @ [v]) u)))" for u
    using fs t by (auto simp: tracks_def type_count_snoc)
  have names: "directory_names (vs @ [v]) = note_name v (directory_names vs)" by (simp add: directory_names_def)
  show ?thesis
  proof (cases "t = CHR ''R''")
    case True
    then have "is_known t" by (simp add: is_known_def)
    then obtain m where m: "decode_stock_directory (mv_data v) = Some m"
      "on_stock_directory m (fs_books fs) = Some (fs_books fs')" "fs_counts fs' = fs_counts ?fs"
      "fs_messages fs' = fs_messages ?fs"
      using run t True by (auto simp: feed_message_def bind_eq_Some_conv Let_def split: if_splits)
    have "even_lengths (fs_books fs)" "bs_names (fs_books fs) = directory_names vs" using fs by (simp_all add: tracks_def)
    with directory_names_step [OF m(2)] show ?thesis
      using fs t True m(1) count by (simp add: tracks_def m(3,4) names note_name_def directory_entry_def)
  next
    case False
    then have same: "directory_names (vs @ [v]) = directory_names vs" using t by (simp add: names note_name_def directory_entry_def)
    have "tracks (vs @ [v]) ?fs" using fs count by (simp add: tracks_def same)
    moreover have "same_track ?fs fs'"
    proof (cases "is_known t")
      case True
      define fm where "fm = (if expected_length (message_type_of t) \<noteq> mv_size v
        then ?fs\<lparr>fs_length_mismatch := fs_length_mismatch fs + 1\<rparr> else ?fs)"
      have "\<exists>(h :: header) fs2. feed_switch t (mv_data v) (stock_locate h) fm = Some fs2 \<and>
          feed_check debug (stock_locate h) fs2 = Some (go, fs')"
        using run t True False by (auto simp: feed_message_def bind_eq_Some_conv Let_def fm_def split: if_splits)
      then have "same_track fm fs'" using feed_switch_track feed_check_track by (fastforce simp: same_track_def)
      moreover have "same_track ?fs fm" by (simp add: fm_def same_track_def)
      ultimately show ?thesis by (simp add: same_track_def)
    next
      case False
      then show ?thesis using run t by (auto simp: feed_message_def same_track_def)
    qed
    ultimately show ?thesis by (rule tracks_cong)
  qed
qed

lemma feed_run_tracks:
  assumes "foldM (\<lambda>v s. map_option snd (feed_message debug v s)) vs fs = Some fs'" and "tracks us fs"
  shows "tracks (us @ vs) fs'"
  using assms
proof (induction vs arbitrary: us fs)
  case (Cons v vs)
  then obtain go fs1 where "feed_message debug v fs = Some (go, fs1)"
    "foldM (\<lambda>v s. map_option snd (feed_message debug v s)) vs fs1 = Some fs'" by (auto simp: bind_eq_Some_conv)
  then show ?case using Cons.IH [of fs1 "us @ [v]"] feed_message_track [OF _ Cons.prems(2)] by simp
qed simp

section \<open>The table\<close>

lemma top_entry_eq:
  assumes "bs_inv n bs" and "length shown \<le> 10"
  shows "top_entry bs l shown = Some (take 10 (shown @ (case market_top (bs_names bs) (bs_view bs) (word_of_nat l) of
     None \<Rightarrow> [] | Some e \<Rightarrow> [e])))"
proof (cases "10 \<le> length shown \<or> \<not> bs_is_known bs (word_of_nat l)")
  case True
  then show ?thesis using assms(2) by (auto simp: top_entry_def Let_def market_top_def bs_names_def)
next
  case False
  then have kn: "bs_is_known bs (word_of_nat l)" and room: "length shown < 10" by simp_all
  note b = bs_known_book [OF assms(1) kn]
  note best = best_levels_correct [OF b(3)]
  have "bs_symbol bs (word_of_nat l) = Some (bs_symbols bs ! unat (word_of_nat l :: u16))"
    using kn assms(1) by (auto simp: bs_symbol_def bs_is_known_def bs_inv_def)
  then show ?thesis
    using kn room b(2,5) best by (auto simp: top_entry_def Let_def market_top_def bs_names_def split: option.split)
qed

lemma top_of_book_eq:
  assumes "bs_inv n bs"
  shows "top_of_book bs = Some (take 10 (market_tops (bs_names bs) (bs_view bs)))"
proof -
  let ?e = "\<lambda>l. market_top (bs_names bs) (bs_view bs) (word_of_nat l)"
  have "foldM (top_entry bs) ls shown = Some (take 10 (shown @ List.map_filter ?e ls))" if "length shown \<le> 10" for ls shown
    using that
  proof (induction ls arbitrary: shown)
    case (Cons l ls)
    let ?x = "case ?e l of None \<Rightarrow> [] | Some e \<Rightarrow> [e]"
    have "take 10 (take 10 (shown @ ?x) @ xs) = take 10 (shown @ ?x @ xs)" for xs
      using Cons.prems by (cases "length (shown @ ?x) \<le> 10") (simp_all add: min_def)
    moreover have "List.map_filter ?e (l # ls) = ?x @ List.map_filter ?e ls"
      by (simp add: map_filter_simps split: option.split)
    ultimately show ?case using top_entry_eq [OF assms Cons.prems] Cons.IH [of "take 10 (shown @ ?x)"] by simp
  qed (simp add: map_filter_simps)
  from this [of "[]"] show ?thesis by (simp add: top_of_book_def market_tops_def)
qed

section \<open>The report\<close>

lemma feed_main_report:
  assumes size: "length file < 2 ^ 64" and count: "length (frame_views (length file) file) < 2 ^ 32"
    and ok: "\<forall>v \<in> set (frame_views (length file) file). driver_ok v"
    and main: "feed_main debug file = Some rep"
  defines "vs \<equiv> frame_views (length file) file"
  shows "fs_messages (fe_state rep) = word_of_nat (length vs)"
    and "fs_counts (fe_state rep) t = (if type_count vs t = 0 then None else Some (word_of_nat (type_count vs t)))"
    and "fe_top rep = take 10 (market_tops (directory_names vs) (bs_view (fs_books (fe_state rep))))"
proof -
  let ?n = "word_of_nat (length file) :: u64"
  have n: "unat ?n = length file" by (rule unat_of_nat_64 [OF size])
  then have le: "unat ?n \<le> length file" by simp
  from main have "\<exists>fr fs top. framer_walk (feed_message debug) (new_framer file ?n) new_feed = Some (fr, fs) \<and>
      top_of_book (fs_books fs) = Some top \<and> fe_top rep = top \<and>
      (fe_state rep = fs \<or> fe_state rep = fs\<lparr>fs_invariants_ok := False\<rparr>)"
    by (fastforce simp: feed_main_def Let_def bind_eq_Some_conv split: if_splits)
  then obtain fr fs top where run: "framer_walk (feed_message debug) (new_framer file ?n) new_feed = Some (fr, fs)"
    "top_of_book (fs_books fs) = Some top" "fe_top rep = top"
    "fe_state rep = fs \<or> fe_state rep = fs\<lparr>fs_invariants_ok := False\<rparr>" by blast
  note start = feed_good_new
  have lim: "0 + length vs < 2 ^ 32" "\<forall>v \<in> set vs. driver_ok v" using count ok by (simp_all add: vs_def)
  have "walk_views (feed_message debug) vs new_feed =
      map_option (Pair vs) (foldM (\<lambda>m s. map_option snd (feed_message debug m s)) vs new_feed)"
    by (rule fm.walk_views_goes_on [OF start lim])
  then have fold: "foldM (\<lambda>m s. map_option snd (feed_message debug m s)) vs new_feed = Some fs"
    using run(1) unfolding framer_walk_correct [OF new_framer_ok [OF le]] new_framer_views n vs_def [symmetric] by auto
  have "tracks [] new_feed"
    by (simp add: tracks_def new_feed_def new_book_set_def even_lengths_def bs_names_def bs_is_known_def directory_names_def
        type_count_def fun_eq_iff)
  from feed_run_tracks [OF fold this] have tracks: "tracks vs fs" by simp
  obtain fs' where "foldM (\<lambda>m s. map_option snd (feed_message debug m s)) vs new_feed = Some fs'" "feed_good (0 + length vs) fs'"
    by (rule fm.steps.fold_refines [OF start lim])
  then have "bs_inv (length vs) (fs_books fs)" using fold by (simp add: feed_good_def)
  from top_of_book_eq [OF this] show "fe_top rep = take 10 (market_tops (directory_names vs) (bs_view (fs_books (fe_state rep))))"
    using run tracks by (auto simp: tracks_def)
  show "fs_messages (fe_state rep) = word_of_nat (length vs)"
    "fs_counts (fe_state rep) t = (if type_count vs t = 0 then None else Some (word_of_nat (type_count vs t)))"
    using run(4) tracks by (auto simp: tracks_def)
qed

end
