(* ===== verification/Book_Properties.thy ===== *)
theory Book_Properties
  imports Replay
begin

text \<open>
  The properties of the book side: the order index, one side of a book and the order book of a
  symbol. Each rests on the lemmas of its component and is followed by a witness at a concrete
  input where it has hypotheses.
\<close>

section \<open>The order index\<close>

definition one_order_index :: order_index where
  "one_order_index = snd (the (index_insert empty_index 7 100 5000 True))"

lemma one_order_index:
  "index_inv one_order_index" "index_live one_order_index = [7 \<mapsto> mk_order 100 5000 True]"
proof -
  obtain idx where "index_insert empty_index 7 100 5000 True = Some (True, idx)" "index_inv idx"
    "index_live idx = [7 \<mapsto> mk_order 100 5000 True]"
    using ix.insert_law [of empty_index 7 100 5000 True] by auto
  then show "index_inv one_order_index" "index_live one_order_index = [7 \<mapsto> mk_order 100 5000 True]"
    by (simp_all add: one_order_index_def)
qed

text \<open>
  C7. \<open>find\<close> terminates, never leaves the slot array, and the order behind the pointer it
  returns is the live order of the reference, null meaning that there is none.
\<close>

theorem index_lookup:
  assumes "index_inv idx"
  shows "do { h \<leftarrow> index_find idx ref;
              case h of None \<Rightarrow> Some None | Some i \<Rightarrow> map_option Some (index_deref idx i) } =
     Some (index_live idx ref)"
  using assms by (rule ix.lookup)

theorem index_lookup_witness:
  "do { h \<leftarrow> index_find one_order_index 7;
        case h of None \<Rightarrow> Some None | Some i \<Rightarrow> map_option Some (index_deref one_order_index i) } =
     Some (Some (mk_order 100 5000 True))"
  using index_lookup [OF one_order_index(1), of 7] by (simp add: one_order_index(2))

lemma slots_of_empty: "idx_slots empty_index = []"
  by (simp add: empty_index_def)

text \<open>
  C8. \<open>insert\<close> terminates and stays in the table. It refuses the reference 0, with nothing changed,
  and a live reference; any other it adds, and no order else, with the quantity and the side bit.
  When one more order would pass three quarters of the slots, and only then, a non zero reference
  doubles the table first, from 256 slots on, and a table that had slots counts a rehash: a
  duplicate too, although the comment says it changes nothing.
\<close>

theorem index_insert_spec:
  assumes "index_inv idx" and "card (dom (index_live idx)) < 2 ^ 32"
  shows "\<exists>idx'. index_insert idx ref qty price buy = Some (ref \<noteq> 0 \<and> ref \<notin> dom (index_live idx), idx') \<and>
     index_inv idx' \<and>
     index_live idx' = (if ref = 0 \<or> ref \<in> dom (index_live idx) then index_live idx
        else (index_live idx)(ref \<mapsto> mk_order qty price buy)) \<and>
     (let full = ref \<noteq> 0 \<and> 3 * length (idx_slots idx) < 4 * (card (dom (index_live idx)) + 1)
      in length (idx_slots idx') = (if full then (if idx_slots idx = [] then 256 else 2 * length (idx_slots idx))
           else length (idx_slots idx)) \<and>
         rehashes idx' = rehashes idx + (if full \<and> idx_slots idx \<noteq> [] then 1 else 0) \<and>
         (\<not> full \<and> (ref = 0 \<or> ref \<in> dom (index_live idx)) \<longrightarrow> idx' = idx))"
proof (cases "ref = 0")
  case True
  then show ?thesis using assms(1) by simp
next
  case False
  from index_insert_full [OF assms False, of qty price buy] obtain idx' where
    "index_insert idx ref qty price buy = Some (ref \<notin> dom (index_live idx), idx')" "index_inv idx'"
    "index_live idx' = (if ref \<in> dom (index_live idx) then index_live idx
       else (index_live idx)(ref \<mapsto> mk_order qty price buy))"
    "length (idx_slots idx') = (if index_full idx then next_capacity (length (idx_slots idx)) else length (idx_slots idx))"
    "idx_rehashes idx' = idx_rehashes idx + (if index_full idx \<and> idx_slots idx \<noteq> [] then 1 else 0)"
    "ref \<in> dom (index_live idx) \<and> \<not> index_full idx \<longrightarrow> idx' = idx" by blast
  then show ?thesis
    using False by (intro exI [of _ idx']) (simp add: index_full_def next_capacity_def Let_def)
qed

theorem index_insert_spec_witness:
  "(\<exists>idx. index_insert one_order_index 7 1 2 False = Some (False, idx) \<and> index_live idx = index_live one_order_index) \<and>
   index_insert one_order_index 0 1 2 False = Some (False, one_order_index) \<and>
   (\<exists>idx. index_insert empty_index 9 1 2 True = Some (True, idx) \<and> length (idx_slots idx) = 256)"
proof (intro conjI)
  show "\<exists>idx. index_insert one_order_index 7 1 2 False = Some (False, idx) \<and> index_live idx = index_live one_order_index"
    using index_insert_spec [OF one_order_index(1), of 7 1 2 False] by (auto simp: one_order_index(2))
  show "index_insert one_order_index 0 1 2 False = Some (False, one_order_index)"
    using index_insert_spec [OF one_order_index(1), of 0 1 2 False] by (auto simp: one_order_index(2))
  show "\<exists>idx. index_insert empty_index 9 1 2 True = Some (True, idx) \<and> length (idx_slots idx) = 256"
    using index_insert_spec [OF index_inv_empty, of 9 1 2 True] by (auto simp: Let_def slots_of_empty)
qed

text \<open>
  C9. \<open>erase\<close> terminates, reports whether the reference was live, and removes exactly that
  order: closing the hole by backward shift loses no other order.
\<close>

theorem index_erase_spec:
  assumes "index_inv idx"
  shows "\<exists>idx'. index_erase idx ref = Some (ref \<in> dom (index_live idx), idx') \<and> index_inv idx' \<and>
     index_live idx' = (index_live idx)(ref := None)"
  using assms by (rule ix.erase_law)

theorem index_erase_spec_witness:
  "\<exists>idx. index_erase one_order_index 7 = Some (True, idx) \<and> index_live idx = Map.empty"
  using index_erase_spec [OF one_order_index(1), of 7] by (auto simp: one_order_index(2))

section \<open>One side of a book\<close>

definition new_side :: "side \<Rightarrow> price_levels" where
  "new_side side = new_price_levels side 0 kDefaultSpan"

lemma new_side: "pl_inv (new_side side)" "pl_lv (new_side side) = Map.empty" "pl_side (new_side side) = side"
proof -
  have span: "64 \<le> unat kDefaultSpan" "64 dvd unat kDefaultSpan" by (simp_all add: kDefaultSpan_def)
  show "pl_inv (new_side side)" "pl_lv (new_side side) = Map.empty"
    using new_price_levels_correct [OF span] by (simp_all add: new_side_def)
  show "pl_side (new_side side) = side" by (simp add: new_side_def new_price_levels_def)
qed

definition one_bid :: price_levels where
  "one_bid = the (pl_add 150000 300 (new_side Buy))"

lemma one_bid:
  "pl_inv one_bid" "pl_side one_bid = Buy"
  "pl_lv one_bid = [150000 \<mapsto> \<lparr>lv_price = 150000, lv_shares = 300, lv_orders = 1\<rparr>]"
proof -
  obtain pl where "pl_add 150000 300 (new_side Buy) = Some pl" "pl_inv pl" "pl_side pl = Buy"
    "pl_lv pl = [150000 \<mapsto> add_level 150000 300 None]"
    using ps.add_law [of "new_side Buy" 150000 300] new_side [of Buy] by auto
  then show "pl_inv one_bid" "pl_side one_bid = Buy"
    "pl_lv one_bid = [150000 \<mapsto> \<lparr>lv_price = 150000, lv_shares = 300, lv_orders = 1\<rparr>]"
    by (simp_all add: one_bid_def add_level_def empty_level_def)
qed

text \<open>
  C14. \<open>add\<close> credits the shares and one order to the level of its price and to no other, in the
  window, in the far map, and across the rebase it may cause.
\<close>

theorem side_add:
  assumes "pl_inv pl" and "\<And>l. pl_lv pl price = Some l \<Longrightarrow> lv_orders l + 1 \<noteq> 0"
  shows "\<exists>pl'. pl_add price shares pl = Some pl' \<and> pl_inv pl' \<and> pl_side pl' = pl_side pl \<and>
     pl_lv pl' = (pl_lv pl)(price \<mapsto> add_level price shares (pl_lv pl price))"
  using ps.add_law [OF assms] .

theorem side_add_witness:
  "\<exists>pl. pl_add 150001 50 one_bid = Some pl \<and>
     pl_lv pl 150001 = Some \<lparr>lv_price = 150001, lv_shares = 50, lv_orders = 1\<rparr> \<and> pl_lv pl 150000 \<noteq> None"
  using side_add [of one_bid 150001 50] one_bid by (auto simp: add_level_def empty_level_def)

text \<open>
  C15. \<open>remove\<close> debits the shares and one order, and the level disappears with its last order;
  no other level changes, also when the window moves to the new best.
\<close>

theorem side_remove_order:
  assumes "pl_inv pl" and "pl_lv pl price = Some l"
  shows "\<exists>pl'. pl_remove price shares pl = Some pl' \<and> pl_inv pl' \<and> pl_side pl' = pl_side pl \<and>
     pl_lv pl' = (pl_lv pl)(price := remove_level shares l)"
  using ps.remove_law [OF assms] .

theorem side_remove_order_witness: "\<exists>pl. pl_remove 150000 300 one_bid = Some pl \<and> pl_lv pl = Map.empty"
  using side_remove_order [of one_bid 150000 _ 300] one_bid by (auto simp: remove_level_def)

text \<open>
  C16. Moving the window keeps every level: \<open>rebase\<close> terminates inside its arrays and the map
  from prices to levels is the same, with the price it centres on now inside the window.
\<close>

theorem side_rebase:
  assumes "pl_inv pl" and "whole_cent price"
  shows "\<exists>pl'. rebase price pl = Some pl' \<and> pl_inv pl' \<and> pl_lv pl' = pl_lv pl \<and> 0 \<le> cell_of pl' price"
proof -
  obtain pl' where "rebase price pl = Some pl'" "pl_inv pl'" "pl_lv pl' = pl_lv pl" "same_frame pl pl'"
    "pl_base pl' = window_base (pl_span pl) (price div kTick)"
    using rebase_correct [OF assms(1)] by blast
  moreover have "64 \<le> unat (pl_span pl)" using pl_inv_parts(1) [OF assms(1)] by (simp add: sized_def)
  ultimately show ?thesis
    using window_contains_centre [OF assms(2)] by (auto simp: cell_of_def same_frame_def)
qed

theorem side_rebase_witness:
  "\<exists>pl. rebase 900000 one_bid = Some pl \<and> pl_lv pl 150000 \<noteq> None \<and> 0 \<le> cell_of pl 900000"
  using side_rebase [of one_bid 900000] one_bid by (auto simp: whole_cent_def kTick_def)

text \<open>
  \<open>levels\<close> lists exactly the levels of the side, each once, from the best price to the
  worst.
\<close>

theorem side_levels:
  assumes "pl_inv pl"
  shows "\<exists>ls. pl_levels pl = Some ls \<and> set ls = ran (pl_lv pl) \<and>
     sorted_wrt (\<lambda>a b. better (pl_side pl) (lv_price a) (lv_price b)) ls"
  using pl_levels_correct [OF assms] by (auto simp: best_first_def)

theorem side_levels_witness:
  "\<exists>ls. pl_levels one_bid = Some ls \<and> set ls = {\<lparr>lv_price = 150000, lv_shares = 300, lv_orders = 1\<rparr>}"
  using side_levels [of one_bid] one_bid by auto

text \<open>
  The runtime self check of a side accepts every state its operations reach unless a level
  has run out of shares while orders remain on it.
\<close>

theorem side_self_check:
  assumes "pl_inv pl"
  shows "pl_check_invariants pl = Some (\<forall>l \<in> ran (pl_lv pl). lv_shares l \<noteq> 0)"
  using assms by (rule pl_check_invariants_correct)

theorem side_self_check_witness: "pl_check_invariants one_bid = Some True"
  using side_self_check [of one_bid] one_bid by simp

text \<open>
  C17. What a side says of itself. \<open>levels\<close> lists exactly the levels of the side, each once, from the
  best price to the worst, and the runtime self check accepts the side unless a level has run out
  of shares while orders remain on it.
\<close>

theorem side_listing:
  assumes "pl_inv pl"
  shows "(\<exists>ls. pl_levels pl = Some ls \<and> set ls = ran (pl_lv pl) \<and>
       sorted_wrt (\<lambda>a b. better (pl_side pl) (lv_price a) (lv_price b)) ls) \<and>
     pl_check_invariants pl = Some (\<forall>l \<in> ran (pl_lv pl). lv_shares l \<noteq> 0)"
  using side_levels [OF assms] side_self_check [OF assms] by blast

theorem side_listing_witness:
  "(\<exists>ls. pl_levels one_bid = Some ls \<and> set ls = {\<lparr>lv_price = 150000, lv_shares = 300, lv_orders = 1\<rparr>}) \<and>
   pl_check_invariants one_bid = Some True"
  using side_listing [of one_bid] one_bid by auto

section \<open>The order book\<close>

text \<open>
  C1. Every update of a book (add, reduce, remove, replace) returns the result code of the
  specification and reaches a book whose index, levels and totals stand for the specification's
  map, provided the quantities leave the side bit free and the book has room.
\<close>

theorem book_refines:
  assumes "book_inv b" and "ev_ok ev" and "card (dom (book_orders b)) + 1 < 2 ^ 32"
  shows "\<exists>b'. run_event ev b = Some (fst (spec_event ev (book_orders b)), b') \<and> book_inv b' \<and>
     book_orders b' = snd (spec_event ev (book_orders b))"
  using assms by (rule run_event_correct)

theorem book_refines_witness:
  "\<exists>b. run_event (EvAdd 5 Sell 200 123400) new_book = Some (Applied, b) \<and>
     book_orders b = [5 \<mapsto> \<lparr>r_side = Sell, r_qty = 200, r_price = 123400\<rparr>]"
  using book_refines [OF book_inv_new, of "EvAdd 5 Sell 200 123400"]
  by (auto simp: ev_ok_def book_orders_new spec_event_def spec_add_def)

text \<open>One update of a stream of updates, and the stream as a counted loop over it.\<close>

definition step_book :: "order_event \<Rightarrow> order_book \<Rightarrow> order_book option" where
  "step_book ev b = map_option snd (run_event ev b)"

interpretation sb: counted_steps step_book "\<lambda>n b. book_inv b \<and> card (dom (book_orders b)) \<le> n" book_orders
  "\<lambda>ev m. snd (spec_event ev m)" ev_ok "2 ^ 32"
proof
  fix n b ev
  assume b: "book_inv b \<and> card (dom (book_orders b)) \<le> n" and "n + 1 < (2 :: nat) ^ 32" and "ev_ok ev"
  then have "book_inv b" "card (dom (book_orders b)) + 1 < 2 ^ 32" by simp_all
  from run_event_correct [OF this(1) \<open>ev_ok ev\<close> this(2)] card_spec_event [of ev "book_orders b"] b
  show "\<exists>b'. step_book ev b = Some b' \<and> (book_inv b' \<and> card (dom (book_orders b')) \<le> n + 1) \<and>
      book_orders b' = snd (spec_event ev (book_orders b))"
    by (auto simp: step_book_def)
qed

text \<open>
  A whole stream of updates from the empty book, in order: fewer than \<open>2 ^ 32\<close> of them with
  legal quantities never fail, and the book they reach stands for the fold of the specification.
\<close>

theorem book_trace:
  assumes "length evs < 2 ^ 32" and "\<forall>ev \<in> set evs. ev_ok ev"
  shows "\<exists>b. foldM step_book evs new_book = Some b \<and> book_inv b \<and>
     book_orders b = fold (\<lambda>ev m. snd (spec_event ev m)) evs Map.empty"
proof -
  have "book_inv new_book \<and> card (dom (book_orders new_book)) \<le> 0" "0 + length evs < (2 :: nat) ^ 32"
    using assms(1) by (simp_all add: book_inv_new book_orders_new)
  from sb.fold_refines [OF this assms(2)] show ?thesis unfolding book_orders_new by blast
qed

theorem book_trace_witness:
  "\<exists>b. foldM step_book [EvAdd 1 Buy 100 5000, EvReduce 1 40, EvReplace 1 2 70 5100] new_book = Some b \<and>
     book_orders b = [2 \<mapsto> \<lparr>r_side = Buy, r_qty = 70, r_price = 5100\<rparr>]"
  using book_trace [of "[EvAdd 1 Buy 100 5000, EvReduce 1 40, EvReplace 1 2 70 5100]"]
  by (auto simp: ev_ok_def spec_event_def spec_add_def spec_reduce_def spec_replace_def fun_upd_def fun_eq_iff)

definition one_order_book :: order_book where
  "one_order_book = snd (the (run_event (EvAdd 5 Buy 200 123400) new_book))"

lemma one_order_book:
  "book_inv one_order_book" "book_orders one_order_book = [5 \<mapsto> \<lparr>r_side = Buy, r_qty = 200, r_price = 123400\<rparr>]"
proof -
  have "ev_ok (EvAdd 5 Buy 200 123400)" "card (dom (book_orders new_book)) + 1 < 2 ^ 32"
    by (simp_all add: ev_ok_def book_orders_new)
  from run_event_correct [OF book_inv_new this]
  obtain b where "run_event (EvAdd 5 Buy 200 123400) new_book = Some (Applied, b)" "book_inv b"
    "book_orders b = [5 \<mapsto> \<lparr>r_side = Buy, r_qty = 200, r_price = 123400\<rparr>]"
    by (auto simp: book_orders_new spec_event_def spec_add_def)
  then show "book_inv one_order_book"
    "book_orders one_order_book = [5 \<mapsto> \<lparr>r_side = Buy, r_qty = 200, r_price = 123400\<rparr>]"
    by (simp_all add: one_order_book_def)
qed

text \<open>
  The best bid is the level of the highest price with a resting buy order, the best ask the
  level of the lowest price with a resting sell order, each with the shares and the number of
  all its orders.
\<close>

theorem book_best:
  assumes "book_inv b"
  shows "best_bid b = Some (side_best Buy (level_at (book_orders b) Buy)) \<and>
     best_ask b = Some (side_best Sell (level_at (book_orders b) Sell))"
  using best_levels_correct [OF assms] by blast

theorem book_best_witness:
  "best_bid one_order_book = Some (side_best Buy (level_at (book_orders one_order_book) Buy)) \<and>
   best_ask one_order_book = Some None"
proof -
  have "level_at (book_orders one_order_book) Sell = Map.empty"
    by (auto simp: level_at_def refs_at_def one_order_book(2) fun_eq_iff)
  then show ?thesis using book_best [OF one_order_book(1)] by (simp add: side_best_def)
qed

text \<open>
  The counters of a book are exact, none has wrapped: the resting shares are the sum of
  the quantities, the live orders their number, and \<open>shares_of\<close> the quantity of a reference.
\<close>

theorem book_totals:
  assumes "book_inv b"
  shows "unat (resting_shares b) = total_qty (book_orders b) \<and> unat (live_orders b) = card (dom (book_orders b)) \<and>
     (\<exists>q. shares_of b ref = Some q \<and> unat q = qty_of (book_orders b) ref)"
  using resting_shares_exact live_orders_exact shares_of_exact assms by blast

theorem book_totals_witness:
  "\<exists>q. shares_of one_order_book 5 = Some q \<and> unat q = 200"
  using book_totals [OF one_order_book(1), of 5] by (auto simp: one_order_book(2) qty_of_def)

text \<open>
  C18. What a book answers. The best bid is the level of the highest price with a resting buy order,
  the best ask the level of the lowest price with a resting sell order, each with the shares and
  the number of all its orders. The counters are exact, none has wrapped: the resting shares are
  the sum of the quantities, the live orders their number, and \<open>shares_of\<close> the quantity of a
  reference, 0 for one that is not live.
\<close>

theorem book_queries:
  assumes "book_inv b"
  shows "best_bid b = Some (side_best Buy (level_at (book_orders b) Buy)) \<and>
     best_ask b = Some (side_best Sell (level_at (book_orders b) Sell)) \<and>
     unat (resting_shares b) = total_qty (book_orders b) \<and> unat (live_orders b) = card (dom (book_orders b)) \<and>
     (\<exists>q. shares_of b ref = Some q \<and> unat q = qty_of (book_orders b) ref)"
  using book_best [OF assms] book_totals [OF assms] by blast

theorem book_queries_witness:
  "best_ask one_order_book = Some None \<and> unat (live_orders one_order_book) = 1 \<and>
   (\<exists>q. shares_of one_order_book 5 = Some q \<and> unat q = 200)"
proof -
  have "level_at (book_orders one_order_book) Sell = Map.empty"
    by (auto simp: level_at_def refs_at_def one_order_book(2) fun_eq_iff)
  then show ?thesis using book_queries [OF one_order_book(1), of 5] by (auto simp: side_best_def one_order_book(2) qty_of_def)
qed

text \<open>
  C19. The full runtime check, which rebuilds both sides from the index and compares, accepts
  every reachable book except when some level's orders have no shares between them.
\<close>

theorem book_check:
  assumes "book_inv b"
  shows "check_invariants b =
     Some (\<forall>ref ord. book_orders b ref = Some ord \<longrightarrow> qty_at (book_orders b) (r_side ord) (r_price ord) \<noteq> 0)"
  using assms by (rule check_invariants_correct)

theorem book_check_witness: "check_invariants new_book = Some True \<and> check_invariants one_order_book = Some True"
proof
  show "check_invariants new_book = Some True" using book_check [OF book_inv_new] by (simp add: book_orders_new)
  have "refs_at (book_orders one_order_book) Buy 123400 = {5}" by (auto simp: refs_at_def one_order_book(2))
  then have "qty_at (book_orders one_order_book) Buy 123400 = 200" by (simp add: qty_at_def qty_of_def one_order_book(2))
  then show "check_invariants one_order_book = Some True"
    using book_check [OF one_order_book(1)] by (simp add: one_order_book(2))
qed

section \<open>Where the code and its comments part\<close>

text \<open>
  C38. A replacement by the reference 0 deletes the original and is then refused: the result is
  a duplicate and the order is gone, the outcome the comment in \<open>replace\<close> rules out.
\<close>

theorem replace_by_zero_loses_order:
  assumes "book_inv b" and "book_orders b ref = Some ord" and "ref \<noteq> 0" and "shares < 2 ^ 31"
  shows "\<exists>b'. book_replace ref 0 shares price b = Some (DuplicateRef, b') \<and>
     book_orders b' = (book_orders b)(ref := None) \<and>
     total_qty (book_orders b') + r_qty ord = total_qty (book_orders b)"
proof -
  have zero: "book_orders b 0 = None" using ix.live_zero book_invD(1) [OF assms(1)] by (simp add: book_orders_def)
  have "spec_replace ref 0 shares price (book_orders b) = (DuplicateRef, (book_orders b)(ref := None))"
    using assms(2,3) zero by (simp add: spec_replace_def spec_add_def)
  then show ?thesis
    using book_replace_correct [OF assms(1,4), of ref 0 price] total_qty_del [where m = "book_orders b", OF assms(2)]
    by auto
qed

theorem replace_by_zero_loses_order_witness:
  "\<exists>b. book_replace 5 0 10 123400 one_order_book = Some (DuplicateRef, b) \<and> book_orders b = Map.empty"
  using replace_by_zero_loses_order [OF one_order_book(1), of 5 _ 10 123400]
  by (auto simp: one_order_book(2))

text \<open>
  C39. In a release build a sell order of \<open>2 ^ 31\<close> shares or more is accepted and stored as a
  buy order of \<open>2 ^ 31\<close> shares less, while its level is on the ask side.
\<close>

theorem big_sell_becomes_buy:
  assumes "book_inv b" and "card (dom (book_orders b)) + 1 < 2 ^ 32" and "ref \<noteq> 0"
    and "book_orders b ref = None" and "2 ^ 31 \<le> shares"
  shows "\<exists>b' ord. book_add ref Sell shares price b = Some (Applied, b') \<and>
     index_live (ob_orders b') ref = Some ord \<and> order_buy ord \<and> order_qty ord = shares - 2 ^ 31 \<and>
     pl_lv (ob_asks b') price \<noteq> None"
proof -
  note parts = book_invD [OF assms(1)]
  have fresh: "ref \<notin> dom (index_live (ob_orders b))" using assms(4) by (simp add: book_orders_def domIff)
  obtain idx where idx: "index_insert (ob_orders b) ref shares price False = Some (True, idx)"
    "index_live idx ref = Some (mk_order shares price False)"
    using ix.insert_law [OF parts(1) assms(3) parts(8), of shares price False] fresh by auto
  have store: "pl_inv (ob_asks b)" "pl_lv (ob_asks b) = level_at (book_orders b) Sell"
    using parts(3) by (simp_all add: store_ok_def)
  have "lv_orders l + 1 \<noteq> 0" if "pl_lv (ob_asks b) price = Some l" for l
    using that level_at_room [OF assms(2)] unfolding store(2) by blast
  from ps.add_law [OF store(1) this] obtain asks where asks: "pl_add price shares (ob_asks b) = Some asks"
    "pl_lv asks price \<noteq> None" by fastforce
  have "\<not> shares < 2 ^ 31" using assms(5) by simp
  then have "bit shares 31"
  proof (rule contrapos_np)
    assume low: "\<not> bit shares 31"
    have "take_bit 31 shares = shares"
    proof (rule bit_word_eqI)
      fix i assume "i < LENGTH(32)"
      then show "bit (take_bit 31 shares) i \<longleftrightarrow> bit shares i"
        using low by (cases "i = 31") (auto simp: bit_take_bit_iff)
    qed
    then show "shares < 2 ^ 31" by (simp only: small_qty_iff)
  qed
  then have "bit (shares AND kSideBit) 31" by (simp add: bit_and_iff bit_kSideBit)
  then have buy: "shares AND kSideBit \<noteq> 0" by auto
  have "kSideBit + (shares AND NOT kSideBit) = kSideBit OR (shares AND NOT kSideBit)"
    by (rule disjunctive_add) (auto simp: bit_and_iff bit_not_iff)
  also have "\<dots> = shares"
    using \<open>bit shares 31\<close> by (intro bit_word_eqI) (auto simp: bit_or_iff bit_and_iff bit_not_iff bit_kSideBit)
  finally have qty: "shares AND NOT kSideBit = shares - 2 ^ 31"
    by (metis add_diff_cancel_left' kSideBit_alt push_bit_of_1)
  show ?thesis
    using idx asks buy qty
    by (auto simp: book_add_def on_side_def Let_def order_buy_def order_qty_def mk_order_def)
qed

theorem big_sell_becomes_buy_witness:
  "\<exists>b ord. book_add 9 Sell 0x80000064 5000 new_book = Some (Applied, b) \<and>
     index_live (ob_orders b) 9 = Some ord \<and> order_buy ord \<and> order_qty ord = 100"
  using big_sell_becomes_buy [OF book_inv_new, of 9 "0x80000064" 5000] by (auto simp: book_orders_new)

text \<open>
  An order without shares is accepted, and alone on its level it makes the book fail its
  own runtime check.
\<close>

theorem zero_shares_fail_check:
  assumes "book_inv b" and "card (dom (book_orders b)) + 1 < 2 ^ 32" and "ref \<noteq> 0"
    and "book_orders b ref = None" and "refs_at (book_orders b) side price = {}"
  shows "\<exists>b'. book_add ref side 0 price b = Some (Applied, b') \<and> check_invariants b' = Some False"
proof -
  let ?m = "book_orders b"
  let ?ord = "\<lparr>r_side = side, r_qty = 0, r_price = price\<rparr>"
  have "(0 :: u32) < 2 ^ 31" by simp
  from book_add_correct [OF assms(1,2) this, of ref side price] obtain b'
    where b': "book_add ref side 0 price b = Some (Applied, b')" "book_inv b'"
    "book_orders b' = ?m(ref \<mapsto> ?ord)"
    using assms(3,4) by (auto simp: spec_add_def)
  have "refs_at (?m(ref \<mapsto> ?ord)) side price = {ref}"
    using assms(4,5) by (simp add: refs_at_put)
  then have "qty_at (book_orders b') side price = 0"
    unfolding b'(3) by (simp add: qty_at_def qty_of_def)
  then have "\<not> (\<forall>r ord. book_orders b' r = Some ord \<longrightarrow> qty_at (book_orders b') (r_side ord) (r_price ord) \<noteq> 0)"
    unfolding b'(3) by (metis fun_upd_same resting.select_convs(1,3))
  then show ?thesis using b'(1) check_invariants_correct [OF b'(2)] by auto
qed

theorem zero_shares_fail_check_witness:
  "\<exists>b. book_add 3 Buy 0 700 new_book = Some (Applied, b) \<and> check_invariants b = Some False"
  using zero_shares_fail_check [OF book_inv_new, of 3 Buy 700] by (simp add: book_orders_new refs_at_def)

end
