(* ===== verification/Wire_Properties.thy ===== *)
theory Wire_Properties
  imports Replay
begin

text \<open>
  The properties of the wire side of the offline path: the byte readers, the message decoders
  and the framing walk.
\<close>

section \<open>Readers\<close>

text \<open>
  The big endian readers read back what the big endian bytes of a value say, whatever
  follows in the buffer; the 48 bit reader keeps the low 48 bits.
\<close>

theorem readers_read_back:
  "be16 (be_bytes 2 w2 @ rest) = Some w2 \<and> be32 (be_bytes 4 w4 @ rest) = Some w4 \<and>
   be48 (be_bytes 6 w6 @ rest) = Some (take_bit 48 w6) \<and> be64 (be_bytes 8 w8 @ rest) = Some w8"
  using be16_bytes be32_bytes be48_bytes be64_bytes by blast

section \<open>Decoders\<close>

definition sample_header :: header where
  "sample_header = \<lparr>stock_locate = 1, tracking_number = 2, timestamp = 34200000000000\<rparr>"

lemma sample_header_ok: "header_ok sample_header"
  by (simp add: header_ok_def fits48_def sample_header_def take_bit_eq_mod)

text \<open>
  Every decoder stays inside a message of the length the type table expects: with that
  many bytes readable, the header, the order messages, the directory, the system event and the
  trades all decode.
\<close>

theorem decoders_in_bounds:
  assumes "char_at p 0 = Some type" and "is_known type"
    and "unat (expected_length (message_type_of type)) \<le> length p"
  shows "decode_header p \<noteq> None \<and> (decode_event type p \<noteq> None \<longleftrightarrow> moves_book type) \<and>
     (type = CHR ''R'' \<longrightarrow> decode_stock_directory p \<noteq> None) \<and>
     (type = CHR ''S'' \<longrightarrow> decode_system_event p \<noteq> None) \<and>
     (type = CHR ''P'' \<or> type = CHR ''Q'' \<longrightarrow> decode_trade p \<noteq> None)"
proof -
  have "type \<in> set ''SRHYLAFECXDUPQB''" using assms(2) by (simp add: is_known_def)
  then have "type = CHR ''R'' \<Longrightarrow> 25 \<le> length p" "type = CHR ''S'' \<Longrightarrow> 12 \<le> length p"
    "type = CHR ''P'' \<Longrightarrow> 44 \<le> length p" "type = CHR ''Q'' \<Longrightarrow> 39 \<le> length p"
    using assms(3) by (simp_all add: message_type_of_def expected_length_def)
  then show ?thesis
    using decode_event_None_iff [OF assms] assms(1)
    by (auto simp: decode_stock_directory_None decode_system_event_None decode_trade_None
        simp del: decode_header_None)
qed

theorem decoders_in_bounds_witness: "decode_event (CHR ''X'') (88 # replicate 22 0) \<noteq> None"
proof -
  have "char_at (88 # replicate 22 0) 0 = Some (CHR ''X'')" by code_simp
  from decoders_in_bounds [OF this] show ?thesis
    by (simp add: is_known_def message_type_of_def expected_length_def moves_book_def)
qed

text \<open>
  An add order, with or without the participant at its end, decodes to the fields it was
  laid out from.
\<close>

theorem add_order_round_trip:
  assumes "header_ok (ao_header m)" and "length (ao_stock m) = 8"
  shows "decode_add_order (wire_add_order t m @ rest) = Some m"
  using assms by (rule decode_wire_add_order)

definition sample_add :: add_order where
  "sample_add = \<lparr>ao_header = sample_header, ao_order_ref = 11, ao_side = CHR ''B'', ao_shares = 300,
     ao_stock = ''AAPL    '', ao_price = 1500000\<rparr>"

theorem add_order_round_trip_witness:
  "decode_add_order (wire_add_order (CHR ''F'') sample_add @ [78, 83, 68, 81]) = Some sample_add"
  by (rule add_order_round_trip) (simp_all add: sample_add_def sample_header_ok)

text \<open>
  Executions decode to their fields: the short form with the default price and flag, the
  long form with the execution price and the printable flag.
\<close>

theorem executed_round_trip:
  assumes "header_ok (oe_header m)"
  shows "decode_order_executed (wire_order_executed_price m @ rest) = Some m \<and>
     decode_order_executed (wire_order_executed m @ rest) = Some (m\<lparr>oe_execution_price := 0, oe_printable := True\<rparr>)"
proof -
  have "wire_order_executed m = wire_order_executed (m\<lparr>oe_execution_price := 0, oe_printable := True\<rparr>)"
    by (simp add: wire_order_executed_def)
  then show ?thesis
    using decode_wire_order_executed [of "m\<lparr>oe_execution_price := 0, oe_printable := True\<rparr>" rest]
      decode_wire_order_executed_price [OF assms, of rest] assms
    by simp
qed

theorem executed_round_trip_witness:
  "decode_order_executed (wire_order_executed_price
     \<lparr>oe_header = sample_header, oe_order_ref = 11, oe_executed_shares = 40, oe_match_number = 9,
      oe_execution_price = 1490000, oe_printable = False\<rparr>) =
   Some \<lparr>oe_header = sample_header, oe_order_ref = 11, oe_executed_shares = 40, oe_match_number = 9,
      oe_execution_price = 1490000, oe_printable = False\<rparr>"
  using executed_round_trip [of "\<lparr>oe_header = sample_header, oe_order_ref = 11, oe_executed_shares = 40,
      oe_match_number = 9, oe_execution_price = 1490000, oe_printable = False\<rparr>" "[]"]
  by (simp add: sample_header_ok)

text \<open>Cancels, deletes and replaces decode to the fields they were laid out from.\<close>

theorem order_messages_round_trip:
  assumes "header_ok (oc_header c)" and "header_ok (od_header d)" and "header_ok (or_header u)"
  shows "decode_order_cancel (wire_order_cancel c @ rest) = Some c \<and>
     decode_order_delete (wire_order_delete d @ rest) = Some d \<and>
     decode_order_replace (wire_order_replace u @ rest) = Some u"
  using decode_wire_order_cancel decode_wire_order_delete decode_wire_order_replace assms by blast

theorem order_messages_round_trip_witness:
  "decode_order_replace (wire_order_replace \<lparr>or_header = sample_header, or_original_order_ref = 11,
     or_new_order_ref = 12, or_shares = 250, or_price = 1510000\<rparr> @ [0, 19]) =
   Some \<lparr>or_header = sample_header, or_original_order_ref = 11, or_new_order_ref = 12, or_shares = 250,
     or_price = 1510000\<rparr>"
  using order_messages_round_trip [of "\<lparr>oc_header = sample_header, oc_order_ref = 11, oc_cancelled_shares = 1\<rparr>"
      "\<lparr>od_header = sample_header, od_order_ref = 11\<rparr>"
      "\<lparr>or_header = sample_header, or_original_order_ref = 11, or_new_order_ref = 12, or_shares = 250,
        or_price = 1510000\<rparr>" "[0, 19]"]
  by (simp add: sample_header_ok)

text \<open>
  Both trade messages decode to their fields although their layouts differ: the trade with
  its 4 byte share count and the order it names, the cross with its 8 byte share count, no order
  and no side.
\<close>

theorem trades_round_trip:
  assumes "header_ok (tr_header m)" and "length (tr_stock m) = 8"
  shows "(tr_has_order m \<and> tr_shares m < 2 ^ 32 \<longrightarrow> decode_trade (wire_trade m @ rest) = Some m) \<and>
     (\<not> tr_has_order m \<and> tr_order_ref m = 0 \<and> tr_side m = CHR '' '' \<longrightarrow>
        decode_trade (wire_cross c m @ rest) = Some m)"
  using decode_wire_trade decode_wire_cross assms by blast

theorem trades_round_trip_witness:
  "decode_trade (wire_cross (CHR ''O'') \<lparr>tr_header = sample_header, tr_order_ref = 0, tr_side = CHR '' '',
     tr_shares = 5000000000, tr_stock = ''AAPL    '', tr_price = 1500000, tr_match_number = 3, tr_has_order = False\<rparr>) =
   Some \<lparr>tr_header = sample_header, tr_order_ref = 0, tr_side = CHR '' '', tr_shares = 5000000000,
     tr_stock = ''AAPL    '', tr_price = 1500000, tr_match_number = 3, tr_has_order = False\<rparr>"
  using trades_round_trip [of "\<lparr>tr_header = sample_header, tr_order_ref = 0, tr_side = CHR '' '',
     tr_shares = 5000000000, tr_stock = ''AAPL    '', tr_price = 1500000, tr_match_number = 3, tr_has_order = False\<rparr>"
     "[]" "CHR ''O''"]
  by (simp add: sample_header_ok)

text \<open>
  C20. Every message that moves a book, and the trades, decode to the fields they were laid out from,
  whatever bytes follow: both forms of the add and of the execution, cancel, delete, replace, the
  trade and the cross. The layouts are written from the field tables of the ITCH specification.
\<close>

theorem messages_round_trip:
  assumes "header_ok (ao_header a)" and "length (ao_stock a) = 8" and "header_ok (oe_header e)"
    and "header_ok (oc_header c)" and "header_ok (od_header d)" and "header_ok (or_header u)"
    and "header_ok (tr_header m)" and "length (tr_stock m) = 8"
  shows "decode_add_order (wire_add_order t a @ rest) = Some a \<and>
     decode_order_executed (wire_order_executed_price e @ rest) = Some e \<and>
     decode_order_executed (wire_order_executed e @ rest) = Some (e\<lparr>oe_execution_price := 0, oe_printable := True\<rparr>) \<and>
     decode_order_cancel (wire_order_cancel c @ rest) = Some c \<and>
     decode_order_delete (wire_order_delete d @ rest) = Some d \<and>
     decode_order_replace (wire_order_replace u @ rest) = Some u \<and>
     (tr_has_order m \<and> tr_shares m < 2 ^ 32 \<longrightarrow> decode_trade (wire_trade m @ rest) = Some m) \<and>
     (\<not> tr_has_order m \<and> tr_order_ref m = 0 \<and> tr_side m = CHR '' '' \<longrightarrow> decode_trade (wire_cross x m @ rest) = Some m)"
  using add_order_round_trip [OF assms(1,2)] executed_round_trip [OF assms(3)]
    order_messages_round_trip [OF assms(4-6)] trades_round_trip [OF assms(7,8)] by blast

theorem messages_round_trip_witness:
  "decode_add_order (wire_add_order (CHR ''F'') sample_add @ [78, 83, 68, 81]) = Some sample_add \<and>
   decode_order_delete (wire_order_delete \<lparr>od_header = sample_header, od_order_ref = 11\<rparr> @ [78, 83, 68, 81]) =
     Some \<lparr>od_header = sample_header, od_order_ref = 11\<rparr>"
  using messages_round_trip [of sample_add
      "\<lparr>oe_header = sample_header, oe_order_ref = 11, oe_executed_shares = 40, oe_match_number = 9,
        oe_execution_price = 1490000, oe_printable = False\<rparr>"
      "\<lparr>oc_header = sample_header, oc_order_ref = 11, oc_cancelled_shares = 1\<rparr>"
      "\<lparr>od_header = sample_header, od_order_ref = 11\<rparr>"
      "\<lparr>or_header = sample_header, or_original_order_ref = 11, or_new_order_ref = 12, or_shares = 250, or_price = 1510000\<rparr>"
      "\<lparr>tr_header = sample_header, tr_order_ref = 0, tr_side = CHR '' '', tr_shares = 5, tr_stock = ''AAPL    '',
        tr_price = 1500000, tr_match_number = 3, tr_has_order = False\<rparr>" "CHR ''F''" "[78, 83, 68, 81]"]
  by (simp add: sample_header_ok sample_add_def)

text \<open>
  C35. What a decoder returns is a message: with as many bytes as the type table asks for, the
  decoder of every type yields a value whose timestamp has 48 bits and whose stock symbol has
  eight characters, an execution without a price keeps the defaults, a trade's share count has
  32 bits, and a cross names no order.
\<close>

theorem decoders_well_typed:
  assumes "char_at p 0 = Some type" and "is_known type"
    and "unat (expected_length (message_type_of type)) \<le> length p"
  shows "(\<exists>h. decode_header p = Some h \<and> header_ok h) \<and>
     (type = CHR ''S'' \<longrightarrow> (\<exists>m. decode_system_event p = Some m \<and> header_ok (se_header m))) \<and>
     (type = CHR ''R'' \<longrightarrow> (\<exists>m. decode_stock_directory p = Some m \<and> directory_ok m)) \<and>
     (type = CHR ''A'' \<or> type = CHR ''F'' \<longrightarrow> (\<exists>m. decode_add_order p = Some m \<and> add_order_ok m)) \<and>
     (type = CHR ''E'' \<longrightarrow> (\<exists>m. decode_order_executed p = Some m \<and> executed_ok m)) \<and>
     (type = CHR ''C'' \<longrightarrow> (\<exists>m. decode_order_executed p = Some m \<and> header_ok (oe_header m))) \<and>
     (type = CHR ''X'' \<longrightarrow> (\<exists>m. decode_order_cancel p = Some m \<and> header_ok (oc_header m))) \<and>
     (type = CHR ''D'' \<longrightarrow> (\<exists>m. decode_order_delete p = Some m \<and> header_ok (od_header m))) \<and>
     (type = CHR ''U'' \<longrightarrow> (\<exists>m. decode_order_replace p = Some m \<and> header_ok (or_header m))) \<and>
     (type = CHR ''P'' \<longrightarrow> (\<exists>m. decode_trade p = Some m \<and> trade_ok m)) \<and>
     (type = CHR ''Q'' \<longrightarrow> (\<exists>m. decode_trade p = Some m \<and> cross_ok m))"
proof -
  note d = decodes_typed [OF assms(1)]
  have known: "type \<in> set ''SRHYLAFECXDUPQB''" using assms(2) by (simp add: is_known_def)
  then have "11 \<le> length p" using assms(3) by (auto simp: message_type_of_def expected_length_def)
  then show ?thesis
    using d known assms(3) by (intro conjI impI d) (auto simp: message_type_of_def expected_length_def)
qed

theorem decoders_well_typed_witness:
  "\<exists>m. decode_order_cancel (88 # replicate 22 0) = Some m \<and> header_ok (oc_header m)"
proof -
  have "char_at (88 # replicate 22 0) 0 = Some (CHR ''X'')" by code_simp
  from decoders_well_typed [OF this] show ?thesis
    by (simp add: is_known_def message_type_of_def expected_length_def)
qed

text \<open>
  C21. No two buffers that differ in a field decode to the same message: laying a decoded message
  out again gives the bytes it was decoded from, up to the bytes the message has no field for,
  which are the second classification of a directory entry, the type of a cross, and the values
  other than N of a flag that is not Y.
\<close>

theorem decoding_loses_nothing:
  "(char_at p 0 = Some t \<and> decode_add_order p = Some a \<longrightarrow> wire_add_order t a @ drop 36 p = p) \<and>
   (char_at p 0 = Some (CHR ''E'') \<and> decode_order_executed p = Some e \<longrightarrow> wire_order_executed e @ drop 31 p = p) \<and>
   (char_at p 0 = Some (CHR ''C'') \<and> flag_set p \<and> decode_order_executed p = Some e \<longrightarrow>
      wire_order_executed_price e @ drop 36 p = p) \<and>
   (char_at p 0 = Some (CHR ''X'') \<and> decode_order_cancel p = Some x \<longrightarrow> wire_order_cancel x @ drop 23 p = p) \<and>
   (char_at p 0 = Some (CHR ''D'') \<and> decode_order_delete p = Some d \<longrightarrow> wire_order_delete d @ drop 19 p = p) \<and>
   (char_at p 0 = Some (CHR ''U'') \<and> decode_order_replace p = Some u \<longrightarrow> wire_order_replace u @ drop 35 p = p) \<and>
   (char_at p 0 = Some (CHR ''P'') \<and> decode_trade p = Some m \<longrightarrow> wire_trade m @ drop 44 p = p) \<and>
   (char_at p 0 = Some (CHR ''Q'') \<and> char_at p 39 = Some c \<and> decode_trade p = Some m \<longrightarrow>
      wire_cross c m @ drop 40 p = p) \<and>
   (char_at p 0 = Some (CHR ''S'') \<and> decode_system_event p = Some s \<longrightarrow> wire_system_event s @ drop 12 p = p) \<and>
   (char_at p 0 = Some (CHR ''R'') \<and> char_at p 20 = Some (to_char b) \<and> decode_stock_directory p = Some r \<longrightarrow>
      wire_stock_directory [] b r @ drop 25 p = p)"
  by (intro conjI impI; rule adds.written_read [THEN conjunct2] execs.written_read [THEN conjunct2]
      priced.written_read [THEN conjunct2] cancels.written_read [THEN conjunct2] deletes.written_read [THEN conjunct2]
      replaces.written_read [THEN conjunct2] trades.written_read [THEN conjunct2] crosses.written_read [THEN conjunct2]
      events.written_read [THEN conjunct2] dirs.written_read [THEN conjunct2];
      simp add: typed_Some only_if_Some)

definition sample_replace :: bytes where
  "sample_replace = [85, 0, 1, 0, 2, 0, 0, 0, 0, 0, 5, 0, 0, 0, 0, 0, 0, 0, 11, 0, 0, 0, 0, 0, 0, 0, 12, 0, 0, 0, 250,
     0, 0, 3, 232]"

theorem decoding_loses_nothing_witness:
  "\<exists>u. decode_order_replace sample_replace = Some u \<and> or_new_order_ref u = 12 \<and> or_shares u = 250 \<and> or_price u = 1000 \<and>
     wire_order_replace u = sample_replace"
proof -
  define u where "u = \<lparr>or_header = \<lparr>stock_locate = 1, tracking_number = 2, timestamp = 5\<rparr>, or_original_order_ref = 11,
    or_new_order_ref = 12, or_shares = 250, or_price = 1000\<rparr>"
  have u: "decode_order_replace sample_replace = Some u" "char_at sample_replace 0 = Some (CHR ''U'')"
    unfolding u_def by code_simp+
  then have "wire_order_replace u @ drop 35 sample_replace = sample_replace"
    using decoding_loses_nothing [of sample_replace] by simp
  then have "wire_order_replace u = sample_replace" by (simp add: sample_replace_def)
  then show ?thesis using u(1) by (simp add: u_def)
qed

section \<open>Framing\<close>

text \<open>
  C36. The walk over a buffer ends and hands out exactly its complete frames, in order, each inside
  the buffer. Where it stops, \<open>offset\<close> has advanced by the bytes of those frames, what lies between
  it and the end is the remainder the list parser leaves, and \<open>exhausted\<close> says whether that is empty.
\<close>

theorem walk_is_the_messages:
  assumes "fr_ok fr"
  shows "\<exists>fr' rest. framer_walk (\<lambda>v vs. Some (True, vs @ [v])) fr [] = Some (fr', fr_views fr) \<and>
     split_frames (take (fr_left fr) (drop (unat (fr_pos fr)) (fr_data fr))) = (map view_bytes (fr_views fr), rest) \<and>
     (\<forall>v \<in> set (fr_views fr). mv_size v \<noteq> 0 \<and> unat (mv_size v) \<le> length (mv_data v)) \<and>
     unat (framer_offset fr') = unat (framer_offset fr) + frames_length (fr_views fr) \<and>
     drop (unat (framer_offset fr')) (take (unat (fr_size fr)) (fr_data fr)) = rest \<and>
     (framer_exhausted fr' \<longleftrightarrow> rest = [])"
proof -
  have "fr_left fr \<le> length (drop (unat (fr_pos fr)) (fr_data fr))"
    using assms by (simp add: fr_ok_def fr_left_def diff_le_mono)
  note inside = frame_views_split(1) [OF this] frame_views_inside [OF this]
  have "walk_views (\<lambda>v vs. Some (True, vs @ [v])) vs acc = Some (vs, acc @ vs)" for vs acc
    by (induction vs arbitrary: acc) simp_all
  then have "framer_walk (\<lambda>v vs. Some (True, vs @ [v])) fr [] = Some (framer_end fr, fr_views fr)"
    unfolding framer_walk_correct [OF assms] framer_end_def by simp
  then show ?thesis using inside framer_end_correct [OF assms] unfolding fr_views_def
    by (metis prod.collapse)
qed

theorem walk_is_the_messages_witness:
  "\<exists>fr'. framer_walk (\<lambda>v vs. Some (True, vs @ [v])) (new_framer [0, 2, 90, 1, 0, 1, 90, 0, 9, 90] 10) [] =
       Some (fr', fr_views (new_framer [0, 2, 90, 1, 0, 1, 90, 0, 9, 90] 10)) \<and>
     map view_bytes (fr_views (new_framer [0, 2, 90, 1, 0, 1, 90, 0, 9, 90] 10)) = [[90, 1], [90]] \<and>
     unat (framer_offset fr') = 7 \<and> \<not> framer_exhausted fr'"
proof -
  let ?fr = "new_framer [0, 2, 90, 1, 0, 1, 90, 0, 9, 90] 10"
  have ok: "fr_ok ?fr" by (rule new_framer_ok) simp
  have run: "split_frames (take (fr_left ?fr) (drop (unat (fr_pos ?fr)) (fr_data ?fr))) = ([[90, 1], [90]], [0, 9, 90 :: u8])"
    "frames_length (fr_views ?fr) = 7" "framer_offset ?fr = 0"
    by code_simp+
  from walk_is_the_messages [OF ok, unfolded run] show ?thesis by auto
qed

text \<open>
  Framing inverts the length prefix: a buffer of prefixed messages, each of 1 to 65535
  bytes, yields those messages and nothing is left over.
\<close>

theorem framing_round_trip:
  assumes "\<forall>m \<in> set msgs. m \<noteq> [] \<and> length m < 65536" and "length (concat (map frame msgs)) < 2 ^ 64"
  shows "map view_bytes (fr_views (new_framer (concat (map frame msgs)) (word_of_nat (length (concat (map frame msgs)))))) = msgs \<and>
     frames_length (fr_views (new_framer (concat (map frame msgs)) (word_of_nat (length (concat (map frame msgs)))))) =
       length (concat (map frame msgs))"
  using frame_views_split [OF order.refl, of "concat (map frame msgs)"] split_frames_framed [OF assms(1)]
  unfolding new_framer_views unat_of_nat_64 [OF assms(2)] by simp

theorem framing_round_trip_witness:
  "map view_bytes (fr_views (new_framer [0, 2, 65, 66, 0, 1, 67] 7)) = [[65, 66], [67]]"
proof -
  have "concat (map frame [[65, 66], [67]]) = [0, 2, 65, 66, 0, 1, 67]" by code_simp
  then show ?thesis using framing_round_trip [of "[[65, 66], [67]]"] by simp
qed

end
