(* ===== verification/Mold.thy ===== *)
theory Mold
  imports Framing
begin

text \<open>
  The MoldUDP64 header of \<open>src/mold/mold.h\<close> and \<open>src/mold/mold.cc\<close>. Writing through an output
  pointer is writing into the buffer it points into, at an offset; a write past the end of the
  buffer has no result. The header is a \<open>codec\<close> like the ITCH messages.
\<close>

section \<open>The header\<close>

definition kSessionSize :: nat where
  "kSessionSize = 10"

definition kHeaderSize :: nat where
  "kHeaderSize = 20"

definition kEndOfSession :: u16 where
  "kEndOfSession = 0xFFFF"

definition kHeartbeat :: u16 where
  "kHeartbeat = 0"

definition kMaxPayload :: size_t where
  "kMaxPayload = 1400"

type_synonym session = "char list"

record mold_header =
  mh_session :: session
  mh_sequence :: u64
  mh_message_count :: u16

definition put_be16 :: "nat \<Rightarrow> u16 \<Rightarrow> bytes \<Rightarrow> bytes option" where
  "put_be16 k v buf =
     do { buf \<leftarrow> vset buf k (ucast (drop_bit 8 v));
          vset buf (k + 1) (ucast (v AND 0xFF)) }"

definition put_be64 :: "nat \<Rightarrow> u64 \<Rightarrow> bytes \<Rightarrow> bytes option" where
  "put_be64 k v buf =
     map_option snd
       (foldM (\<lambda>i (v, buf). do { buf \<leftarrow> vset buf (k + i) (ucast (v AND 0xFF)); Some (drop_bit 8 v, buf) })
          [7, 6, 5, 4, 3, 2, 1, 0] (v, buf))"

definition encode_header :: "mold_header \<Rightarrow> bytes \<Rightarrow> bytes option" where
  "encode_header h buf =
     do { buf \<leftarrow> foldM (\<lambda>i buf. do { c \<leftarrow> vget (mh_session h) i; vset buf i (of_chr c) })
                 [0..<kSessionSize] buf;
          buf \<leftarrow> put_be64 kSessionSize (mh_sequence h) buf;
          put_be16 (kSessionSize + 8) (mh_message_count h) buf }"

definition mold_decode_header :: "bytes \<Rightarrow> mold_header option" where
  "mold_decode_header p =
     do { s \<leftarrow> foldM (\<lambda>i s. do { c \<leftarrow> char_at p i; vset s i c }) [0..<kSessionSize]
               (replicate kSessionSize (CHR 0x00));
          seq \<leftarrow> be64 (drop kSessionSize p);
          count \<leftarrow> be16 (drop (kSessionSize + 8) p);
          Some \<lparr>mh_session = s, mh_sequence = seq, mh_message_count = count\<rparr> }"

text \<open>The argument is a C string: its characters, the terminator and what follows in memory.\<close>

function copy_session :: "char list \<Rightarrow> nat \<Rightarrow> session \<Rightarrow> session option" where
  "copy_session cstr i s =
     (if i < kSessionSize then do {
        c \<leftarrow> vget cstr i;
        if c = CHR 0x00 then Some s
        else do { s \<leftarrow> vset s i c; copy_session cstr (i + 1) s } }
      else Some s)"
  by auto
termination by (relation "measure (\<lambda>(_, i, _). kSessionSize - i)") auto

declare copy_session.simps [simp del]

definition make_session :: "char list \<Rightarrow> session option" where
  "make_session cstr = copy_session cstr 0 (replicate kSessionSize (CHR '' ''))"

section \<open>What the header looks like\<close>

text \<open>The layout of the protocol: session, sequence, count.\<close>

definition mold_layout :: "mold_header \<Rightarrow> bytes" where
  "mold_layout h = map of_chr (mh_session h) @ be_bytes 8 (mh_sequence h) @ be_bytes 2 (mh_message_count h)"

definition mold_header_ok :: "mold_header \<Rightarrow> bool" where
  "mold_header_ok h \<longleftrightarrow> length (mh_session h) = kSessionSize"

lemma length_mold_layout [simp]: "mold_header_ok h \<Longrightarrow> length (mold_layout h) = kHeaderSize"
  by (simp add: mold_layout_def mold_header_ok_def kSessionSize_def kHeaderSize_def)

text \<open>A loop that copies \<open>n\<close> items one by one writes the list of them.\<close>

lemma copy_loop:
  assumes "n \<le> length xs" and "n \<le> length buf"
  shows "foldM (\<lambda>i buf. do { c \<leftarrow> map_option f (vget xs i); vset buf i c }) [0..<n] buf
     = Some (map f (take n xs) @ drop n buf)"
  using assms
proof (induction n)
  case (Suc n)
  then have IH: "foldM (\<lambda>i buf. do { c \<leftarrow> map_option f (vget xs i); vset buf i c }) [0..<n] buf
     = Some (map f (take n xs) @ drop n buf)" by simp
  have "n < length xs" "n < length buf" using Suc.prems by simp_all
  moreover have "take n (map f (take n xs) @ drop n buf) = map f (take n xs)"
    using \<open>n < length xs\<close> by simp
  ultimately show ?case
    unfolding upt_Suc_append [OF le0] foldM_snoc IH
    by (simp add: upd_conv_take_nth_drop take_Suc_conv_app_nth)
qed simp

lemma low_byte: "ucast (v AND 0xFF) = (ucast (v :: 'a::len word) :: u8)"
proof -
  have "(0xFF :: 'a word) = mask 8" by (simp add: mask_eq_exp_minus_1)
  show ?thesis
    unfolding \<open>0xFF = mask 8\<close>
    by (rule bit_word_eqI) (auto simp: bit_ucast_iff bit_and_iff bit_mask_iff dest: bit_imp_le_length)
qed

lemma put_be16_eq:
  assumes "k + 2 \<le> length buf"
  shows "put_be16 k v buf = Some (take k buf @ be_bytes 2 v @ drop (k + 2) buf)"
proof -
  have "k < length buf" "k + 1 < length buf" using assms by simp_all
  then show ?thesis
    by (simp add: put_be16_def numeral_2_eq_2 upd_conv_take_nth_drop low_byte
        take_Suc_conv_app_nth min_def nth_append)
qed

lemma put_be64_loop:
  assumes "k + n \<le> length buf"
  shows "foldM (\<lambda>i (v, buf). do { buf \<leftarrow> vset buf (k + i) (ucast (v AND 0xFF)); Some (drop_bit 8 v, buf) })
      (rev [0..<n]) (v, buf) = Some (drop_bit (8 * n) v, take k buf @ be_bytes n (v :: u64) @ drop (k + n) buf)"
  using assms
proof (induction n arbitrary: v buf)
  case (Suc n)
  let ?buf = "buf[k + n := ucast v]"
  have "k + n < length buf" using Suc.prems by simp
  moreover from this have "drop (k + n) ?buf = ucast v # drop (Suc (k + n)) buf"
    by (metis drop_update_cancel Cons_nth_drop_Suc length_list_update lessI nth_list_update_eq)
  ultimately show ?case
    using Suc.IH [of ?buf "drop_bit 8 v"] by (simp add: low_byte add.commute)
qed simp

lemma put_be64_eq:
  assumes "k + 8 \<le> length buf"
  shows "put_be64 k v buf = Some (take k buf @ be_bytes 8 v @ drop (k + 8) buf)"
proof -
  have "[7, 6, 5, 4, 3, 2, 1, 0] = rev [0..<8]" by (simp add: upt_rec)
  then show ?thesis using put_be64_loop [OF assms, of v] unfolding put_be64_def by simp
qed

text \<open>\<open>encode_header\<close> writes the layout over the first 20 bytes and nothing else.\<close>

lemma encode_header_eq:
  assumes "mold_header_ok h" and "kHeaderSize \<le> length buf"
  shows "encode_header h buf = Some (mold_layout h @ drop kHeaderSize buf)"
proof -
  have len: "length (mh_session h) = 10" "20 \<le> length buf"
    using assms by (simp_all add: mold_header_ok_def kSessionSize_def kHeaderSize_def)
  have "(\<lambda>i buf. do { c \<leftarrow> vget (mh_session h) i; vset buf i (of_chr c) }) =
      (\<lambda>i buf. do { c \<leftarrow> map_option of_chr (vget (mh_session h) i); vset buf i c })"
    by (auto simp: fun_eq_iff split: Option.bind_split)
  then have "foldM (\<lambda>i buf. do { c \<leftarrow> vget (mh_session h) i; vset buf i (of_chr c) }) [0..<10] buf =
      Some (map of_chr (mh_session h) @ drop 10 buf)"
    using copy_loop [of 10 "mh_session h" buf of_chr] len by simp
  then show ?thesis
    using len by (simp add: encode_header_def kSessionSize_def kHeaderSize_def put_be64_eq put_be16_eq mold_layout_def)
qed

lemma mold_decode_layout:
  assumes "mold_header_ok h"
  shows "mold_decode_header (mold_layout h @ rest) = Some h"
proof -
  have len: "length (mh_session h) = 10" using assms by (simp add: mold_header_ok_def kSessionSize_def)
  have "foldM (\<lambda>i s. do { c \<leftarrow> char_at (mold_layout h @ rest) i; vset s i c }) [0..<10] (replicate 10 (CHR 0x00)) =
      Some (map to_char (take 10 (mold_layout h @ rest)) @ [])"
    unfolding char_at_def using copy_loop [of 10 "mold_layout h @ rest" "replicate 10 (CHR 0x00)" to_char]
    by (simp add: mold_layout_def len)
  also have "take 10 (mold_layout h @ rest) = map of_chr (mh_session h)" using len by (simp add: mold_layout_def)
  also have "map to_char (map of_chr (mh_session h)) @ [] = mh_session h" by (simp add: comp_def)
  finally have "foldM (\<lambda>i s. do { c \<leftarrow> char_at (mold_layout h @ rest) i; vset s i c }) [0..<10]
      (replicate 10 (CHR 0x00)) = Some (mh_session h)" .
  moreover have "drop 10 (mold_layout h @ rest) = be_bytes 8 (mh_sequence h) @ be_bytes 2 (mh_message_count h) @ rest"
    "drop 18 (mold_layout h @ rest) = be_bytes 2 (mh_message_count h) @ rest"
    using len by (simp_all add: mold_layout_def)
  ultimately show ?thesis
    by (simp add: mold_decode_header_def kSessionSize_def be64_bytes be16_bytes)
qed

text \<open>Every 20 bytes are the layout of the header they decode to.\<close>

lemma mold_decode_eq:
  assumes "kHeaderSize \<le> length p"
  shows "\<exists>h. mold_decode_header p = Some h \<and> mold_header_ok h \<and> mold_layout h = take kHeaderSize p"
proof -
  have len: "20 \<le> length p" using assms by (simp add: kHeaderSize_def)
  have s: "foldM (\<lambda>i s. do { c \<leftarrow> char_at p i; vset s i c }) [0..<10] (replicate 10 (CHR 0x00)) =
      Some (map to_char (take 10 p))"
    unfolding char_at_def using copy_loop [of 10 p "replicate 10 (CHR 0x00)" to_char] len by simp
  obtain seq where seq: "be64 (drop 10 p) = Some seq" using len be_None(4) [of "drop 10 p"] by fastforce
  obtain count where count: "be16 (drop 18 p) = Some count" using len be_None(1) [of "drop 18 p"] by fastforce
  have split: "take 20 p = take 10 p @ take 8 (drop 10 p) @ take 2 (drop 18 p)"
    using take_add [of 10 10 p] take_add [of 8 2 "drop 10 p"] by simp
  define h where "h = \<lparr>mh_session = map to_char (take 10 p), mh_sequence = seq, mh_message_count = count\<rparr>"
  have "mold_layout h = take 20 p"
    by (simp add: h_def mold_layout_def be64.written [OF seq] be16.written [OF count] split comp_def)
  moreover have "mold_decode_header p = Some h"
    using s seq count by (simp add: mold_decode_header_def kSessionSize_def h_def)
  moreover have "mold_header_ok h" using len by (simp add: mold_header_ok_def h_def kSessionSize_def)
  ultimately show ?thesis by (auto simp: kHeaderSize_def)
qed

lemma mold_decode_None: "mold_decode_header p = None \<longleftrightarrow> length p < kHeaderSize"
proof (cases "kHeaderSize \<le> length p")
  case True
  then show ?thesis using mold_decode_eq [OF True] by auto
next
  case False
  then have "be16 (drop 18 p) = None" unfolding be_None by (simp add: kHeaderSize_def)
  then show ?thesis using False
    by (auto simp: mold_decode_header_def kSessionSize_def simp del: be_None split: Option.bind_splits)
qed

interpretation mold_head: codec mold_decode_header mold_layout mold_header_ok kHeaderSize
proof
  fix p h
  assume h: "mold_decode_header p = Some h"
  then have "kHeaderSize \<le> length p" using mold_decode_None [of p] by (metis not_less option.distinct(1))
  from mold_decode_eq [OF this] h have "mold_header_ok h" "mold_layout h = take kHeaderSize p" by auto
  then show "mold_header_ok h \<and> mold_layout h @ drop kHeaderSize p = p" by simp
qed (simp_all add: mold_decode_layout)

section \<open>Session names\<close>

lemma copy_session_eq:
  assumes "CHR 0x00 \<notin> set name" and "length pre \<le> kSessionSize"
  shows "copy_session (pre @ name @ CHR 0x00 # rest) (length pre) (pre @ replicate (kSessionSize - length pre) (CHR '' ''))
     = Some (take kSessionSize (pre @ name @ replicate kSessionSize (CHR '' '')))"
  using assms
proof (induction name arbitrary: pre)
  case Nil
  then show ?case by (subst copy_session.simps) (auto simp: nth_append min_def)
next
  case (Cons c name)
  show ?case
  proof (cases "length pre < kSessionSize")
    case True
    have "replicate (kSessionSize - length pre) (CHR '' '') =
        CHR '' '' # replicate (kSessionSize - length (pre @ [c])) (CHR '' '')"
      using True by (simp flip: replicate_Suc add: Suc_diff_Suc)
    then have "(pre @ replicate (kSessionSize - length pre) (CHR '' ''))[length pre := c] =
        (pre @ [c]) @ replicate (kSessionSize - length (pre @ [c])) (CHR '' '')" by simp
    then show ?thesis
      using True Cons.prems Cons.IH [of "pre @ [c]"]
      by (subst copy_session.simps) (auto simp: nth_append)
  qed (use Cons.prems in \<open>subst copy_session.simps, simp\<close>)
qed

text \<open>A short name is padded with spaces, a long one is cut.\<close>

lemma make_session_eq:
  assumes "CHR 0x00 \<notin> set cstr"
  shows "make_session (cstr @ CHR 0x00 # rest) = Some (take kSessionSize (cstr @ replicate kSessionSize (CHR '' '')))"
  using copy_session_eq [where pre = "[]" and name = cstr and rest = rest] assms by (simp add: make_session_def)

end
