(* ===== verification/Packer.thy ===== *)
theory Packer
  imports Mold
begin

text \<open>
  The packer of \<open>src/mold/packer.h\<close> and \<open>src/mold/packer.cc\<close>: messages are copied as length
  prefixed blocks behind a header reserved at the front of one buffer. The abstraction is the
  list of messages the packet under construction holds.
\<close>

section \<open>The packer\<close>

record packer =
  pk_session :: session
  pk_sequence :: u64
  pk_max_payload :: size_t
  pk_buffer :: bytes
  pk_body :: size_t
  pk_count :: u16

text \<open>What the class lets others read.\<close>

definition packet_sequence :: "packer \<Rightarrow> u64" where
  "packet_sequence pk = pk_sequence pk"

definition packer_count :: "packer \<Rightarrow> u16" where
  "packer_count pk = pk_count pk"

definition body_size :: "packer \<Rightarrow> size_t" where
  "body_size pk = pk_body pk"

lemmas packer_reads [simp] = packet_sequence_def packer_count_def body_size_def

definition new_packer :: "session \<Rightarrow> u64 \<Rightarrow> size_t \<Rightarrow> packer" where
  "new_packer session first_sequence max_payload =
     \<lparr>pk_session = session, pk_sequence = first_sequence, pk_max_payload = max_payload,
      pk_buffer = replicate (unat (word_of_nat kHeaderSize + max_payload)) 0, pk_body = 0, pk_count = 0\<rparr>"

text \<open>\<open>std::memcpy\<close> into a buffer.\<close>

definition vwrite :: "bytes \<Rightarrow> nat \<Rightarrow> bytes \<Rightarrow> bytes option" where
  "vwrite xs k ys = (if k + length ys \<le> length xs
     then Some (take k xs @ ys @ drop (k + length ys) xs) else None)"

definition packer_try_add :: "message_view \<Rightarrow> packer \<Rightarrow> (bool \<times> packer) option" where
  "packer_try_add msg pk =
     (let room = pk_max_payload pk - pk_body pk
      in if room < 2 \<or> room - 2 < mv_size msg then Some (False, pk)
         else if pk_count pk = kEndOfSession - 1 then Some (False, pk)
         else do {
           let block = kHeaderSize + unat (pk_body pk);
           buf \<leftarrow> vset (pk_buffer pk) block (ucast (drop_bit 8 (mv_size msg)));
           buf \<leftarrow> vset buf (block + 1) (ucast (mv_size msg AND 0xFF));
           payload \<leftarrow> bytes_at (mv_data msg) (unat (mv_size msg));
           buf \<leftarrow> vwrite buf (block + 2) payload;
           Some (True, pk\<lparr>pk_buffer := buf, pk_body := pk_body pk + (2 + mv_size msg),
                          pk_count := pk_count pk + 1\<rparr>) })"

definition packer_header :: "u16 \<Rightarrow> packer \<Rightarrow> mold_header" where
  "packer_header count pk =
     \<lparr>mh_session = pk_session pk, mh_sequence = pk_sequence pk, mh_message_count = count\<rparr>"

definition packer_finish :: "packer \<Rightarrow> (bytes \<times> packer) option" where
  "packer_finish pk =
     do { buf \<leftarrow> encode_header (packer_header (pk_count pk) pk) (pk_buffer pk);
          packet \<leftarrow> bytes_at buf (kHeaderSize + unat (pk_body pk));
          Some (packet, pk\<lparr>pk_buffer := buf, pk_sequence := pk_sequence pk + ucast (pk_count pk),
                           pk_body := 0, pk_count := 0\<rparr>) }"

definition packer_end_of_session :: "packer \<Rightarrow> (bytes \<times> packer) option" where
  "packer_end_of_session pk =
     do { buf \<leftarrow> encode_header (packer_header kEndOfSession pk) (pk_buffer pk);
          packet \<leftarrow> bytes_at buf kHeaderSize;
          Some (packet, pk\<lparr>pk_buffer := buf\<rparr>) }"

definition packer_next_sequence :: "packer \<Rightarrow> u64" where
  "packer_next_sequence pk = pk_sequence pk + ucast (pk_count pk)"

definition packer_empty :: "packer \<Rightarrow> bool" where
  "packer_empty pk \<longleftrightarrow> pk_count pk = 0"

definition packer_too_large :: "size_t \<Rightarrow> packer \<Rightarrow> bool" where
  "packer_too_large message_size pk \<longleftrightarrow> 2 + message_size > pk_max_payload pk"

section \<open>What a packet is\<close>

text \<open>The packet that carries \<open>msgs\<close> as the messages \<open>seq\<close>, \<open>seq + 1\<close> and so on.\<close>

definition mold_packet :: "session \<Rightarrow> u64 \<Rightarrow> bytes list \<Rightarrow> bytes" where
  "mold_packet ses seq msgs =
     mold_layout \<lparr>mh_session = ses, mh_sequence = seq, mh_message_count = word_of_nat (length msgs)\<rparr> @
     concat (map frame msgs)"

definition eos_packet :: "session \<Rightarrow> u64 \<Rightarrow> bytes" where
  "eos_packet ses seq =
     mold_layout \<lparr>mh_session = ses, mh_sequence = seq, mh_message_count = kEndOfSession\<rparr>"

definition blocks_length :: "bytes list \<Rightarrow> nat" where
  "blocks_length msgs = (\<Sum>m \<leftarrow> msgs. 2 + length m)"

lemma blocks_length_simps [simp]:
  "blocks_length [] = 0" "blocks_length (m # msgs) = 2 + length m + blocks_length msgs"
  "blocks_length (msgs @ msgs') = blocks_length msgs + blocks_length msgs'"
  by (simp_all add: blocks_length_def)

lemma length_frame [simp]: "length (frame m) = 2 + length m"
  by (simp add: frame_def)

lemma length_frames [simp]: "length (concat (map frame msgs)) = blocks_length msgs"
  by (induction msgs) simp_all

text \<open>The messages \<open>msgs\<close> are in the packet under construction.\<close>

definition pk_holds :: "bytes list \<Rightarrow> packer \<Rightarrow> bool" where
  "pk_holds msgs pk \<longleftrightarrow>
     length (pk_session pk) = kSessionSize \<and>
     length (pk_buffer pk) = kHeaderSize + unat (pk_max_payload pk) \<and>
     unat (pk_body pk) = blocks_length msgs \<and> blocks_length msgs \<le> unat (pk_max_payload pk) \<and>
     unat (pk_count pk) = length msgs \<and> length msgs < 65535 \<and>
     take (blocks_length msgs) (drop kHeaderSize (pk_buffer pk)) = concat (map frame msgs)"

text \<open>There is room for one more message.\<close>

definition pk_room :: "bytes list \<Rightarrow> bytes \<Rightarrow> packer \<Rightarrow> bool" where
  "pk_room msgs m pk \<longleftrightarrow>
     blocks_length (msgs @ [m]) \<le> unat (pk_max_payload pk) \<and> length msgs < 65534"

text \<open>A view that is inside its buffer and short enough for a length prefix.\<close>

definition mv_ok :: "message_view \<Rightarrow> bool" where
  "mv_ok v \<longleftrightarrow> unat (mv_size v) \<le> length (mv_data v) \<and> unat (mv_size v) < 65536 \<and> mv_size v \<noteq> 0"

lemma length_view_bytes: "mv_ok v \<Longrightarrow> length (view_bytes v) = unat (mv_size v)"
  by (simp add: mv_ok_def view_bytes_def)

lemma new_packer_holds:
  assumes "length ses = kSessionSize" and "unat max_payload + kHeaderSize < 2 ^ 64"
  shows "pk_holds [] (new_packer ses seq max_payload)"
proof -
  have "unat (word_of_nat kHeaderSize + max_payload) = kHeaderSize + unat max_payload"
    using assms(2) by (simp add: unat_word_ariths kHeaderSize_def)
  then show ?thesis using assms(1) by (simp add: pk_holds_def new_packer_def)
qed

lemma too_large_iff:
  assumes "mv_ok v"
  shows "packer_too_large (mv_size v) pk \<longleftrightarrow> unat (pk_max_payload pk) < blocks_length [view_bytes v]"
proof -
  have "unat (2 + mv_size v) = 2 + unat (mv_size v)" using assms by (simp add: mv_ok_def unat_word_ariths)
  then show ?thesis
    using length_view_bytes [OF assms] by (simp add: packer_too_large_def word_less_nat_alt)
qed

lemma length_prefix:
  fixes w :: u64
  assumes "unat w < 65536"
  shows "[ucast (drop_bit 8 w), ucast (w AND 0xFF)] = be_bytes 2 (word_of_nat (unat w) :: u16)"
proof -
  have "(word_of_nat (unat w) :: u16) = ucast w" by simp
  then show ?thesis
    by (simp add: numeral_2_eq_2 low_byte) (auto intro!: bit_word_eqI simp: bit_ucast_iff bit_drop_bit_eq)
qed

section \<open>Adding a message\<close>

lemma block_write:
  assumes "k + 2 + length m \<le> length buf"
  shows "vwrite (buf[k := a, k + 1 := b]) (k + 2) m = Some (take k buf @ [a, b] @ m @ drop (k + 2 + length m) buf)"
proof -
  have "k < length buf" "Suc k < length buf" using assms by simp_all
  then have "buf[k := a, k + 1 := b] = take k buf @ [a, b] @ drop (k + 2) buf"
    by (simp add: upd_conv_take_nth_drop nth_append min_def take_Suc_conv_app_nth)
  then show ?thesis using assms by (simp add: vwrite_def ac_simps)
qed

text \<open>The comparison of \<open>try_add\<close> with the room that is left.\<close>

lemma room_test:
  assumes holds: "pk_holds msgs pk" and v: "mv_ok v"
  shows "(pk_max_payload pk - pk_body pk < 2 \<or> pk_max_payload pk - pk_body pk - 2 < mv_size v) \<longleftrightarrow>
      unat (pk_max_payload pk) < blocks_length (msgs @ [view_bytes v])"
proof -
  note size = length_view_bytes [OF v]
  have body: "unat (pk_body pk) = blocks_length msgs" "blocks_length msgs \<le> unat (pk_max_payload pk)"
    "pk_body pk \<le> pk_max_payload pk"
    using holds by (simp_all add: pk_holds_def word_le_nat_alt)
  have room: "unat (pk_max_payload pk - pk_body pk) = unat (pk_max_payload pk) - blocks_length msgs"
    using unat_sub [OF body(3)] body(1) by simp
  show ?thesis
  proof (cases "pk_max_payload pk - pk_body pk < 2")
    case True
    then show ?thesis using body(2) by (simp add: word_less_nat_alt room)
  next
    case False
    then have "2 \<le> pk_max_payload pk - pk_body pk" by simp
    from unat_sub [OF this] have "unat (pk_max_payload pk - pk_body pk - 2) = unat (pk_max_payload pk) - blocks_length msgs - 2"
      by (simp add: room)
    then show ?thesis using False body(2) size by (auto simp: word_less_nat_alt room)
  qed
qed

lemma try_add_correct:
  assumes holds: "pk_holds msgs pk" and v: "mv_ok v"
  shows "\<not> pk_room msgs (view_bytes v) pk \<Longrightarrow> packer_try_add v pk = Some (False, pk)"
    and "pk_room msgs (view_bytes v) pk \<Longrightarrow> \<exists>pk'. packer_try_add v pk = Some (True, pk') \<and>
      pk_holds (msgs @ [view_bytes v]) pk' \<and> pk_session pk' = pk_session pk \<and>
      pk_sequence pk' = pk_sequence pk \<and> pk_max_payload pk' = pk_max_payload pk"
proof -
  let ?m = "view_bytes v" and ?body = "blocks_length msgs"
  have size: "length ?m = unat (mv_size v)" by (rule length_view_bytes [OF v])
  have body: "unat (pk_body pk) = ?body" using holds by (simp add: pk_holds_def)
  note fits = room_test [OF holds v]
  have full: "pk_count pk = kEndOfSession - 1 \<longleftrightarrow> length msgs = 65534"
    using holds by (simp add: pk_holds_def kEndOfSession_def word_unat_eq_iff)
  have count: "length msgs < 65535" using holds by (simp add: pk_holds_def)
  {
    assume "\<not> pk_room msgs ?m pk"
    then show "packer_try_add v pk = Some (False, pk)"
      using fits full count unfolding packer_try_add_def Let_def pk_room_def by auto
  }
  assume r: "pk_room msgs ?m pk"
  let ?k = "kHeaderSize + ?body" and ?buf = "pk_buffer pk"
  have len: "length ?buf = kHeaderSize + unat (pk_max_payload pk)" using holds by (simp add: pk_holds_def)
  then have in_buf: "?k + 2 + length ?m \<le> length ?buf" using r by (simp add: pk_room_def)
  define buf where "buf = take ?k ?buf @ frame ?m @ drop (?k + 2 + length ?m) ?buf"
  have wr: "vwrite (?buf[?k := ucast (drop_bit 8 (mv_size v)), ?k + 1 := ucast (mv_size v AND 0xFF)]) (?k + 2) ?m
      = Some buf"
    using block_write [OF in_buf] length_prefix [of "mv_size v"] v size
    by (simp add: buf_def frame_def mv_ok_def)
  define pk' where "pk' = pk\<lparr>pk_buffer := buf, pk_body := pk_body pk + (2 + mv_size v), pk_count := pk_count pk + 1\<rparr>"
  have "bytes_at (mv_data v) (unat (mv_size v)) = Some ?m"
    using v by (simp add: bytes_at_def view_bytes_def mv_ok_def)
  moreover have "?k < length ?buf" "?k + 1 < length ?buf" using in_buf by simp_all
  moreover have "\<not> (pk_max_payload pk - pk_body pk < 2 \<or> pk_max_payload pk - pk_body pk - 2 < mv_size v)"
    "pk_count pk \<noteq> kEndOfSession - 1"
    using fits full r by (simp_all add: pk_room_def)
  ultimately have run: "packer_try_add v pk = Some (True, pk')"
    using wr by (simp add: packer_try_add_def Let_def body pk'_def)
  have "unat (pk_body pk + (2 + mv_size v)) = ?body + (2 + length ?m)"
    using r body size unat_lt_64 [of "pk_max_payload pk"] by (simp add: pk_room_def unat_word_ariths)
  moreover have "unat (pk_count pk + 1) = Suc (length msgs)"
    using r holds by (simp add: pk_room_def pk_holds_def unat_word_ariths)
  moreover have "take (?body + (2 + length ?m)) (drop kHeaderSize buf) = concat (map frame msgs) @ frame ?m"
  proof -
    have "drop kHeaderSize buf = take ?body (drop kHeaderSize ?buf) @ frame ?m @ drop (?k + 2 + length ?m) ?buf"
      using in_buf by (simp add: buf_def drop_take)
    also have "take ?body (drop kHeaderSize ?buf) = concat (map frame msgs)" using holds by (simp add: pk_holds_def)
    finally show ?thesis by simp
  qed
  moreover have "length buf = length ?buf" using in_buf by (simp add: buf_def)
  ultimately have "pk_holds (msgs @ [?m]) pk'"
    using holds r len unfolding pk_holds_def pk'_def by (simp add: pk_room_def)
  then show "\<exists>pk'. packer_try_add v pk = Some (True, pk') \<and>
      pk_holds (msgs @ [view_bytes v]) pk' \<and> pk_session pk' = pk_session pk \<and>
      pk_sequence pk' = pk_sequence pk \<and> pk_max_payload pk' = pk_max_payload pk"
    using run unfolding pk'_def by auto
qed

section \<open>Finishing a packet\<close>

lemma encode_packer:
  assumes "pk_holds msgs pk"
  shows "encode_header (packer_header count pk) (pk_buffer pk) =
      Some (mold_layout (packer_header count pk) @ drop kHeaderSize (pk_buffer pk))"
    and "length (mold_layout (packer_header count pk)) = kHeaderSize"
  using assms encode_header_eq [of "packer_header count pk" "pk_buffer pk"]
  by (simp_all add: pk_holds_def packer_header_def mold_header_ok_def)

lemma finish_correct:
  assumes holds: "pk_holds msgs pk"
  shows "\<exists>pk'. packer_finish pk = Some (mold_packet (pk_session pk) (pk_sequence pk) msgs, pk') \<and>
      pk_holds [] pk' \<and> pk_session pk' = pk_session pk \<and>
      pk_sequence pk' = pk_sequence pk + word_of_nat (length msgs) \<and> pk_max_payload pk' = pk_max_payload pk"
proof -
  note enc = encode_packer [OF holds, of "pk_count pk"]
  have "word_of_nat (unat (pk_count pk)) = pk_count pk" by simp
  moreover have n: "unat (pk_count pk) = length msgs" using holds by (simp add: pk_holds_def)
  ultimately have count: "pk_count pk = word_of_nat (length msgs)" "unat (pk_count pk) = length msgs" by simp_all
  then have "ucast (pk_count pk) = (word_of_nat (length msgs) :: u64)" by (metis of_nat_unat)
  moreover have "bytes_at (mold_layout (packer_header (pk_count pk) pk) @ drop kHeaderSize (pk_buffer pk))
      (kHeaderSize + unat (pk_body pk)) = Some (mold_packet (pk_session pk) (pk_sequence pk) msgs)"
    using holds enc(2) by (simp add: bytes_at_def mold_packet_def packer_header_def pk_holds_def flip: count(1))
  ultimately show ?thesis
    using holds enc by (simp add: packer_finish_def pk_holds_def)
qed

lemma end_of_session_correct:
  assumes holds: "pk_holds msgs pk"
  shows "\<exists>pk'. packer_end_of_session pk = Some (eos_packet (pk_session pk) (pk_sequence pk), pk') \<and>
      pk_holds msgs pk' \<and> pk_session pk' = pk_session pk \<and> pk_sequence pk' = pk_sequence pk"
proof -
  note enc = encode_packer [OF holds, of kEndOfSession]
  then show ?thesis
    using holds
    by (simp add: packer_end_of_session_def eos_packet_def packer_header_def pk_holds_def bytes_at_def)
qed

end
