(* ===== verification/Mold_Decoder.thy ===== *)
theory Mold_Decoder
  imports Packer
begin

text \<open>
  The receiving side of MoldUDP64, \<open>src/mold/decoder.h\<close> and \<open>src/mold/decoder.cc\<close>: session
  tracking, the three sequence cases, validation of a packet before any message of it is
  delivered, and the gap list. The sink is a parameter that may change a state of its own and
  may have no result.
\<close>

section \<open>The decoder\<close>

record packet_view =
  pv_data :: bytes
  pv_len :: size_t
  pv_rx_tsc :: u64

record gap =
  gap_first_missing :: u64
  gap_count :: u64

record mold_decoder =
  md_expected :: u64
  md_last_sequence :: u64
  md_started :: bool
  md_eos :: bool
  md_session :: session
  md_session_changes :: u64
  md_applied :: u64
  md_messages :: u64
  md_duplicates :: u64
  md_malformed :: u64
  md_heartbeats :: u64
  md_gaps_total :: u64
  md_gap_messages :: u64
  md_gaps :: "gap list"

text \<open>What the class lets others read.\<close>

definition expected_sequence :: "mold_decoder \<Rightarrow> u64" where
  "expected_sequence d = md_expected d"

definition last_sequence :: "mold_decoder \<Rightarrow> u64" where
  "last_sequence d = md_last_sequence d"

definition packets_applied :: "mold_decoder \<Rightarrow> u64" where
  "packets_applied d = md_applied d"

definition messages_delivered :: "mold_decoder \<Rightarrow> u64" where
  "messages_delivered d = md_messages d"

definition duplicates :: "mold_decoder \<Rightarrow> u64" where
  "duplicates d = md_duplicates d"

definition malformed :: "mold_decoder \<Rightarrow> u64" where
  "malformed d = md_malformed d"

definition heartbeats :: "mold_decoder \<Rightarrow> u64" where
  "heartbeats d = md_heartbeats d"

definition end_of_session_seen :: "mold_decoder \<Rightarrow> bool" where
  "end_of_session_seen d = md_eos d"

definition decoder_gaps :: "mold_decoder \<Rightarrow> gap list" where
  "decoder_gaps d = md_gaps d"

definition gaps_total :: "mold_decoder \<Rightarrow> u64" where
  "gaps_total d = md_gaps_total d"

definition gap_messages :: "mold_decoder \<Rightarrow> u64" where
  "gap_messages d = md_gap_messages d"

definition decoder_session :: "mold_decoder \<Rightarrow> session" where
  "decoder_session d = md_session d"

definition session_changes :: "mold_decoder \<Rightarrow> u64" where
  "session_changes d = md_session_changes d"

lemmas decoder_reads [simp] = expected_sequence_def last_sequence_def packets_applied_def messages_delivered_def duplicates_def malformed_def heartbeats_def
  end_of_session_seen_def decoder_gaps_def gaps_total_def gap_messages_def decoder_session_def session_changes_def

definition kMaxGaps :: nat where
  "kMaxGaps = 4096"

definition new_decoder :: mold_decoder where
  "new_decoder = \<lparr>md_expected = 1, md_last_sequence = 0, md_started = False, md_eos = False,
     md_session = replicate kSessionSize (CHR 0x00), md_session_changes = 0, md_applied = 0, md_messages = 0,
     md_duplicates = 0, md_malformed = 0, md_heartbeats = 0, md_gaps_total = 0, md_gap_messages = 0, md_gaps = []\<rparr>"

definition note_gap :: "u64 \<Rightarrow> u64 \<Rightarrow> mold_decoder \<Rightarrow> mold_decoder" where
  "note_gap first count d =
     (let d = d\<lparr>md_gaps_total := md_gaps_total d + 1, md_gap_messages := md_gap_messages d + count\<rparr>
      in if length (md_gaps d) < kMaxGaps
         then d\<lparr>md_gaps := md_gaps d @ [\<lparr>gap_first_missing = first, gap_count = count\<rparr>]\<rparr> else d)"

text \<open>The first packet defines the session; a change of session restarts the sequence.\<close>

definition enter_session :: "mold_header \<Rightarrow> mold_decoder \<Rightarrow> mold_decoder" where
  "enter_session h d =
     (if \<not> md_started d
      then d\<lparr>md_session := mh_session h, md_expected := mh_sequence h, md_started := True\<rparr>
      else if mh_session h \<noteq> md_session d
      then d\<lparr>md_session_changes := md_session_changes d + 1, md_session := mh_session h,
             md_expected := mh_sequence h\<rparr>
      else d)"

text \<open>The hole between the expected sequence and the one that came.\<close>

definition note_hole :: "u64 \<Rightarrow> mold_decoder \<Rightarrow> mold_decoder" where
  "note_hole seq d =
     (if seq > md_expected d then note_gap (md_expected d) (seq - md_expected d) d else d)"

type_synonym 's message_sink = "message_view \<Rightarrow> u64 \<Rightarrow> 's \<Rightarrow> 's option"

definition on_packet :: "packet_view \<Rightarrow> 's message_sink \<Rightarrow> mold_decoder \<times> 's \<Rightarrow> (mold_decoder \<times> 's) option" where
  "on_packet pkt sink = (\<lambda>(d, s).
     if pv_len pkt < word_of_nat kHeaderSize then Some (d\<lparr>md_malformed := md_malformed d + 1\<rparr>, s)
     else do {
       h \<leftarrow> mold_decode_header (pv_data pkt);
       let d = enter_session h d;
       if mh_message_count h = kEndOfSession then
         (let d = (if mh_sequence h > md_expected d
                   then (note_gap (md_expected d) (mh_sequence h - md_expected d) d)\<lparr>md_expected := mh_sequence h\<rparr>
                   else d)
          in Some (d\<lparr>md_eos := True, md_last_sequence := mh_sequence h\<rparr>, s))
       else if mh_message_count h = kHeartbeat then Some (d\<lparr>md_heartbeats := md_heartbeats d + 1\<rparr>, s)
       else if mh_sequence h < md_expected d then Some (d\<lparr>md_duplicates := md_duplicates d + 1\<rparr>, s)
       else do {
         let body = new_framer (drop kHeaderSize (pv_data pkt)) (pv_len pkt - word_of_nat kHeaderSize);
         (check, blocks) \<leftarrow> framer_walk (\<lambda>_ n. Some (True, n + 1)) body (0 :: u32);
         if \<not> framer_exhausted check \<or> blocks \<noteq> ucast (mh_message_count h)
         then Some (d\<lparr>md_malformed := md_malformed d + 1\<rparr>, s)
         else do {
           let d = note_hole (mh_sequence h) d;
           let d = d\<lparr>md_last_sequence := mh_sequence h\<rparr>;
           (_, s) \<leftarrow> framer_walk (\<lambda>mv s. map_option (Pair True) (sink mv (pv_rx_tsc pkt) s)) body s;
           Some (d\<lparr>md_messages := md_messages d + ucast (mh_message_count h), md_applied := md_applied d + 1,
                   md_expected := mh_sequence h + ucast (mh_message_count h)\<rparr>, s) } } })"

section \<open>What a packet says\<close>

text \<open>A datagram inside its buffer; the length of a UDP datagram is far below the bound.\<close>

definition pkt_ok :: "packet_view \<Rightarrow> bool" where
  "pkt_ok pkt \<longleftrightarrow> unat (pv_len pkt) \<le> length (pv_data pkt) \<and> unat (pv_len pkt) < 2 ^ 32"

lemma pkt_ok_code [code]:
  "pkt_ok pkt \<longleftrightarrow> unat (pv_len pkt) \<le> length (pv_data pkt) \<and> pv_len pkt < 0x100000000"
  by (simp add: pkt_ok_def word_less_nat_alt)

definition pkt_bytes :: "packet_view \<Rightarrow> bytes" where
  "pkt_bytes pkt = take (unat (pv_len pkt)) (pv_data pkt)"

definition pkt_header :: "packet_view \<Rightarrow> mold_header" where
  "pkt_header pkt = the (mold_decode_header (pkt_bytes pkt))"

definition pkt_views :: "packet_view \<Rightarrow> message_view list" where
  "pkt_views pkt = frame_views (unat (pv_len pkt) - kHeaderSize) (drop kHeaderSize (pv_data pkt))"

definition pkt_messages :: "packet_view \<Rightarrow> bytes list" where
  "pkt_messages pkt = fst (split_frames (drop kHeaderSize (pkt_bytes pkt)))"

text \<open>The blocks fill the packet and there are as many of them as the header says.\<close>

definition pkt_whole :: "packet_view \<Rightarrow> bool" where
  "pkt_whole pkt \<longleftrightarrow> snd (split_frames (drop kHeaderSize (pkt_bytes pkt))) = [] \<and>
     length (pkt_messages pkt) = unat (mh_message_count (pkt_header pkt))"

datatype packet_kind = Runt | SessionEnd | Heartbeat | Stale | Garbled | Fresh

definition packet_kind :: "packet_view \<Rightarrow> mold_decoder \<Rightarrow> packet_kind" where
  "packet_kind pkt d =
     (let h = pkt_header pkt
      in if length (pkt_bytes pkt) < kHeaderSize then Runt
         else if mh_message_count h = kEndOfSession then SessionEnd
         else if mh_message_count h = kHeartbeat then Heartbeat
         else if mh_sequence h < md_expected (enter_session h d) then Stale
         else if pkt_whole pkt then Fresh else Garbled)"

definition decoder_step :: "packet_view \<Rightarrow> mold_decoder \<Rightarrow> mold_decoder" where
  "decoder_step pkt d =
     (let h = pkt_header pkt; e = enter_session h d
      in case packet_kind pkt d of
           Runt \<Rightarrow> d\<lparr>md_malformed := md_malformed d + 1\<rparr>
         | SessionEnd \<Rightarrow> (note_hole (mh_sequence h) e)\<lparr>md_expected := max (mh_sequence h) (md_expected e),
                            md_eos := True, md_last_sequence := mh_sequence h\<rparr>
         | Heartbeat \<Rightarrow> e\<lparr>md_heartbeats := md_heartbeats e + 1\<rparr>
         | Stale \<Rightarrow> e\<lparr>md_duplicates := md_duplicates e + 1\<rparr>
         | Garbled \<Rightarrow> e\<lparr>md_malformed := md_malformed e + 1\<rparr>
         | Fresh \<Rightarrow> (note_hole (mh_sequence h) e)\<lparr>md_last_sequence := mh_sequence h,
                       md_messages := md_messages e + ucast (mh_message_count h),
                       md_applied := md_applied e + 1,
                       md_expected := mh_sequence h + ucast (mh_message_count h)\<rparr>)"

definition delivered_views :: "packet_view \<Rightarrow> mold_decoder \<Rightarrow> message_view list" where
  "delivered_views pkt d = (if packet_kind pkt d = Fresh then pkt_views pkt else [])"

section \<open>The code against it\<close>

lemma header_prefix:
  assumes "kHeaderSize \<le> n" and "n \<le> length p"
  shows "mold_decode_header (take n p) = mold_decode_header p"
proof -
  have "kHeaderSize \<le> length p" "kHeaderSize \<le> length (take n p)" using assms by simp_all
  from mold_decode_eq [OF this(1)] mold_decode_eq [OF this(2)]
  obtain h h' where h: "mold_decode_header p = Some h" "mold_layout h = take kHeaderSize p" "mold_header_ok h"
    and h': "mold_decode_header (take n p) = Some h'" "mold_layout h' = take kHeaderSize (take n p)" "mold_header_ok h'"
    by blast
  have "mold_layout h' = mold_layout h" using h(2) h'(2) assms by (simp add: min_def)
  then have "Some h' = Some h" using mold_decode_layout [OF h(3), of "[]"] mold_decode_layout [OF h'(3), of "[]"] by simp
  then show ?thesis using h(1) h'(1) by simp
qed

lemma note_hole_simps [simp]:
  "md_expected (note_hole seq d) = md_expected d" "md_messages (note_hole seq d) = md_messages d"
  "md_applied (note_hole seq d) = md_applied d" "md_session (note_hole seq d) = md_session d"
  "md_started (note_hole seq d) = md_started d" "md_duplicates (note_hole seq d) = md_duplicates d"
  "md_malformed (note_hole seq d) = md_malformed d" "md_heartbeats (note_hole seq d) = md_heartbeats d"
  "md_session_changes (note_hole seq d) = md_session_changes d"
  by (simp_all add: note_hole_def note_gap_def Let_def)

lemma note_hole_last:
  "note_hole seq (d\<lparr>md_last_sequence := n\<rparr>) = (note_hole seq d)\<lparr>md_last_sequence := n\<rparr>"
  by (simp add: note_hole_def note_gap_def Let_def)

lemma count_blocks: "walk_views (\<lambda>_ n. Some (True, n + 1)) vs n = Some (vs, n + word_of_nat (length vs))"
  for n :: "'a::len word"
  by (induction vs arbitrary: n) (simp_all add: ac_simps)

lemma pkt_frames:
  assumes "pkt_ok pkt" and "kHeaderSize \<le> unat (pv_len pkt)"
  shows "map view_bytes (pkt_views pkt) = pkt_messages pkt"
    and "frames_length (pkt_views pkt) + length (snd (split_frames (drop kHeaderSize (pkt_bytes pkt)))) =
      unat (pv_len pkt) - kHeaderSize"
proof -
  have le: "unat (pv_len pkt) - kHeaderSize \<le> length (drop kHeaderSize (pv_data pkt))"
    using assms(1) by (simp add: pkt_ok_def diff_le_mono)
  have "take (unat (pv_len pkt) - kHeaderSize) (drop kHeaderSize (pv_data pkt)) = drop kHeaderSize (pkt_bytes pkt)"
    by (simp add: pkt_bytes_def drop_take)
  then show "map view_bytes (pkt_views pkt) = pkt_messages pkt"
    and "frames_length (pkt_views pkt) + length (snd (split_frames (drop kHeaderSize (pkt_bytes pkt)))) =
      unat (pv_len pkt) - kHeaderSize"
    using frame_views_split [OF le] by (simp_all add: pkt_views_def pkt_messages_def)
qed

lemma length_frames_views: "length vs \<le> frames_length vs"
  by (induction vs) (simp_all add: frames_length_def)

text \<open>The whole handler: the decoder makes its step, and the sink gets the delivered views in order.\<close>

text \<open>The two walks over the blocks of a packet: the first validates, the second delivers.\<close>

lemma packet_walks:
  assumes ok: "pkt_ok pkt" and len: "kHeaderSize \<le> unat (pv_len pkt)"
  defines "body \<equiv> new_framer (drop kHeaderSize (pv_data pkt)) (pv_len pkt - word_of_nat kHeaderSize)"
    and "check \<equiv> (new_framer (drop kHeaderSize (pv_data pkt)) (pv_len pkt - word_of_nat kHeaderSize))
      \<lparr>fr_pos := word_of_nat (frames_length (pkt_views pkt))\<rparr>"
  shows "framer_walk (\<lambda>_ n. Some (True, n + 1)) body (0 :: u32) = Some (check, word_of_nat (length (pkt_views pkt)))"
    and "framer_exhausted check \<and> (word_of_nat (length (pkt_views pkt)) :: u32) = ucast (mh_message_count (pkt_header pkt))
      \<longleftrightarrow> pkt_whole pkt"
    and "framer_walk (\<lambda>mv s. map_option (Pair True) (sink mv (pv_rx_tsc pkt) s)) body s =
      map_option (Pair check) (foldM (\<lambda>v. sink v (pv_rx_tsc pkt)) (pkt_views pkt) s)"
proof -
  let ?h = "pkt_header pkt"
  have "word_of_nat kHeaderSize \<le> pv_len pkt" using len by (simp add: word_le_nat_alt kHeaderSize_def)
  from unat_sub [OF this] have size: "unat (pv_len pkt - word_of_nat kHeaderSize) = unat (pv_len pkt) - kHeaderSize"
    by (simp add: kHeaderSize_def)
  have fr: "fr_ok body" unfolding body_def using ok by (intro new_framer_ok) (simp add: size pkt_ok_def diff_le_mono)
  have views: "fr_views body = pkt_views pkt" by (simp add: body_def new_framer_views size pkt_views_def)
  have check: "check = body\<lparr>fr_pos := word_of_nat (frames_length (pkt_views pkt))\<rparr>" by (simp add: check_def body_def)
  note frames = pkt_frames [OF ok len]
  have "unat (pv_len pkt) < 4294967296" using ok by (simp add: pkt_ok_def)
  with length_frames_views [of "pkt_views pkt"] frames(2)
  have vlen: "length (pkt_views pkt) < 4294967296" "frames_length (pkt_views pkt) < 18446744073709551616" by linarith+
  show "framer_walk (\<lambda>_ n. Some (True, n + 1)) body (0 :: u32) = Some (check, word_of_nat (length (pkt_views pkt)))"
    unfolding framer_walk_correct [OF fr] views count_blocks check by (simp add: body_def new_framer_def)
  from vlen(2) have "framer_exhausted check \<longleftrightarrow> frames_length (pkt_views pkt) = unat (pv_len pkt) - kHeaderSize"
    by (simp add: check_def framer_exhausted_def new_framer_def word_unat_eq_iff unat_of_nat_64 size
        take_bit_nat_eq_self_iff flip: size)
  moreover have "(word_of_nat (length (pkt_views pkt)) :: u32) = ucast (mh_message_count ?h) \<longleftrightarrow>
      length (pkt_views pkt) = unat (mh_message_count ?h)"
    using vlen(1) unat_lt_16 [of "mh_message_count ?h"]
    by (simp add: word_unat_eq_iff unsigned_ucast_eq take_bit_nat_eq_self unat_of_nat_32)
  moreover have "length (pkt_views pkt) = length (pkt_messages pkt)" using frames(1) by (metis length_map)
  ultimately show "framer_exhausted check \<and> (word_of_nat (length (pkt_views pkt)) :: u32) = ucast (mh_message_count ?h)
      \<longleftrightarrow> pkt_whole pkt"
    using frames(2) by (auto simp: pkt_whole_def)
  show "framer_walk (\<lambda>mv s. map_option (Pair True) (sink mv (pv_rx_tsc pkt) s)) body s =
      map_option (Pair check) (foldM (\<lambda>v. sink v (pv_rx_tsc pkt)) (pkt_views pkt) s)"
    unfolding framer_walk_correct [OF fr] views walk_views_all check
    by (simp add: option.map_comp comp_def) (simp add: body_def new_framer_def)
qed

lemma on_packet_eq:
  assumes ok: "pkt_ok pkt"
  shows "on_packet pkt sink (d, s) = map_option (Pair (decoder_step pkt d))
     (foldM (\<lambda>v. sink v (pv_rx_tsc pkt)) (delivered_views pkt d) s)"
proof (cases "pv_len pkt < word_of_nat kHeaderSize")
  case True
  then have "length (pkt_bytes pkt) < kHeaderSize"
    using ok by (simp add: pkt_bytes_def pkt_ok_def word_less_nat_alt kHeaderSize_def)
  then have "packet_kind pkt d = Runt" by (simp add: packet_kind_def)
  then show ?thesis using True by (simp add: on_packet_def decoder_step_def delivered_views_def)
next
  case False
  then have len: "kHeaderSize \<le> unat (pv_len pkt)" "word_of_nat kHeaderSize \<le> pv_len pkt"
    by (simp_all add: word_less_nat_alt word_le_nat_alt kHeaderSize_def)
  define h where "h = pkt_header pkt"
  have long: "\<not> length (pkt_bytes pkt) < kHeaderSize" using ok len by (simp add: pkt_bytes_def pkt_ok_def)
  have "mold_decode_header (pkt_bytes pkt) = mold_decode_header (pv_data pkt)"
    unfolding pkt_bytes_def using ok len(1) by (intro header_prefix) (simp_all add: pkt_ok_def)
  then have head: "mold_decode_header (pv_data pkt) = Some h"
    using long mold_decode_None [of "pkt_bytes pkt"] by (auto simp: h_def pkt_header_def)
  let ?e = "enter_session h d"
  note walks = packet_walks [OF ok len(1), folded h_def]
  have kind: "packet_kind pkt d =
      (if mh_message_count h = kEndOfSession then SessionEnd
       else if mh_message_count h = kHeartbeat then Heartbeat
       else if mh_sequence h < md_expected ?e then Stale
       else if pkt_whole pkt then Fresh else Garbled)"
    using long by (simp add: packet_kind_def h_def)
  have "(if mh_sequence h > md_expected ?e
       then (note_gap (md_expected ?e) (mh_sequence h - md_expected ?e) ?e)\<lparr>md_expected := mh_sequence h\<rparr> else ?e) =
      (note_hole (mh_sequence h) ?e)\<lparr>md_expected := max (mh_sequence h) (md_expected ?e)\<rparr>"
    by (simp add: note_hole_def max_def)
  then show ?thesis
    using False head walks(1) walks(3) [of sink s] walks(2)
    by (auto simp: on_packet_def kind decoder_step_def delivered_views_def Let_def note_hole_last
        simp flip: h_def split: Option.bind_split)
qed

end
