(* ===== verification/Mold_Stream.thy ===== *)
theory Mold_Stream
  imports Mold_Decoder "HOL-Library.Sublist"
begin

text \<open>
  A decoder over a stream of packets: what it delivers and counts for any packets at all, and
  for packets a packer made that the network lost, repeated or reordered.
\<close>

section \<open>Runs of the decoder\<close>

text \<open>The views the sink gets over a list of packets, with their stamps.\<close>

fun stream_views :: "packet_view list \<Rightarrow> mold_decoder \<Rightarrow> (message_view \<times> u64) list" where
  "stream_views [] d = []"
| "stream_views (pkt # pkts) d =
     map (\<lambda>v. (v, pv_rx_tsc pkt)) (delivered_views pkt d) @ stream_views pkts (decoder_step pkt d)"

lemma foldM_map: "foldM f (map g xs) s = foldM (\<lambda>x. f (g x)) xs s"
  by (induction xs arbitrary: s) (auto split: Option.bind_split)

lemma on_packets_eq:
  assumes "\<forall>pkt \<in> set pkts. pkt_ok pkt"
  shows "foldM (\<lambda>pkt. on_packet pkt sink) pkts (d, s) = map_option (Pair (fold decoder_step pkts d))
     (foldM (\<lambda>(v, tsc). sink v tsc) (stream_views pkts d) s)"
  using assms
proof (induction pkts arbitrary: d s)
  case (Cons pkt pkts)
  then have ok: "pkt_ok pkt" by simp
  show ?case
    using Cons by (cases "foldM (\<lambda>v. sink v (pv_rx_tsc pkt)) (delivered_views pkt d) s")
      (simp_all add: on_packet_eq [OF ok] foldM_append foldM_map)
qed simp

text \<open>The same messages with their sequence numbers, as natural numbers.\<close>

definition numbered :: "packet_view \<Rightarrow> (nat \<times> bytes) list" where
  "numbered pkt = (let n = unat (mh_sequence (pkt_header pkt))
     in zip [n..<n + length (pkt_messages pkt)] (pkt_messages pkt))"

fun stream_log :: "packet_view list \<Rightarrow> mold_decoder \<Rightarrow> (nat \<times> bytes) list" where
  "stream_log [] d = []"
| "stream_log (pkt # pkts) d =
     (if packet_kind pkt d = Fresh then numbered pkt else []) @ stream_log pkts (decoder_step pkt d)"

lemma fresh_long: "packet_kind pkt d = Fresh \<Longrightarrow> kHeaderSize \<le> length (pkt_bytes pkt)"
  by (auto simp: packet_kind_def Let_def split: if_splits)

lemma fresh_len: "pkt_ok pkt \<Longrightarrow> packet_kind pkt d = Fresh \<Longrightarrow> kHeaderSize \<le> unat (pv_len pkt)"
  using fresh_long [of pkt d] by (simp add: pkt_bytes_def)

lemma map_snd_numbered [simp]: "map snd (numbered pkt) = pkt_messages pkt"
  by (simp add: numbered_def Let_def)

lemma map_fst_numbered: "map fst (numbered pkt) =
    (let n = unat (mh_sequence (pkt_header pkt)) in [n..<n + length (pkt_messages pkt)])"
  by (simp add: numbered_def Let_def)

lemma stream_log_messages:
  assumes "\<forall>pkt \<in> set pkts. pkt_ok pkt"
  shows "map snd (stream_log pkts d) = map (view_bytes \<circ> fst) (stream_views pkts d)"
  using assms
  by (induction pkts arbitrary: d)
    (auto simp: delivered_views_def pkt_frames(1) fresh_len simp flip: map_map, simp add: comp_def pkt_frames(1) fresh_len)

section \<open>What is conserved\<close>

text \<open>
  The decoder states reachable with one session, from a first packet that has a header. Packets
  too short for a header may come at any time.
\<close>

inductive decoder_reach :: "session \<Rightarrow> u64 \<Rightarrow> mold_decoder \<Rightarrow> bool" for ses :: session and first :: u64 where
  first_packet: "pkt_ok pkt \<Longrightarrow> kHeaderSize \<le> unat (pv_len pkt) \<Longrightarrow> mh_session (pkt_header pkt) = ses \<Longrightarrow>
     mh_sequence (pkt_header pkt) = first \<Longrightarrow>
     on_packet pkt (\<lambda>_ _. Some) (new_decoder\<lparr>md_malformed := k\<rparr>, ()) = Some (d, ()) \<Longrightarrow>
     decoder_reach ses first d"
| next_packet: "decoder_reach ses first d \<Longrightarrow> pkt_ok pkt \<Longrightarrow>
     (kHeaderSize \<le> unat (pv_len pkt) \<Longrightarrow> mh_session (pkt_header pkt) = ses) \<Longrightarrow>
     on_packet pkt (\<lambda>_ _. Some) (d, ()) = Some (d', ()) \<Longrightarrow> decoder_reach ses first d'"

definition gap_sum :: "gap list \<Rightarrow> u64" where
  "gap_sum gs = (\<Sum>g \<leftarrow> gs. gap_count g)"

definition gaps_ok :: "mold_decoder \<Rightarrow> bool" where
  "gaps_ok d \<longleftrightarrow> length (md_gaps d) \<le> kMaxGaps \<and>
     (length (md_gaps d) < kMaxGaps \<longrightarrow>
        md_gaps_total d = word_of_nat (length (md_gaps d)) \<and> md_gap_messages d = gap_sum (md_gaps d))"

definition decoder_inv :: "session \<Rightarrow> u64 \<Rightarrow> mold_decoder \<Rightarrow> bool" where
  "decoder_inv ses first d \<longleftrightarrow> md_started d \<and> md_session d = ses \<and> md_session_changes d = 0 \<and>
     md_messages d + md_gap_messages d = md_expected d - first \<and> gaps_ok d"

lemma note_gap_ok:
  assumes "gaps_ok d"
  shows "gaps_ok (note_gap seq n d)" and "md_gap_messages (note_gap seq n d) = md_gap_messages d + n"
  using assms by (auto simp: gaps_ok_def note_gap_def gap_sum_def Let_def)

lemma note_hole_ok:
  assumes "gaps_ok d"
  shows "gaps_ok (note_hole seq d)"
    and "md_gap_messages (note_hole seq d) = md_gap_messages d + (max seq (md_expected d) - md_expected d)"
  using note_gap_ok [OF assms] assms by (auto simp: note_hole_def max_def)

lemma gaps_ok_cong:
  assumes "gaps_ok e" and "md_gaps d = md_gaps e" and "md_gaps_total d = md_gaps_total e"
    and "md_gap_messages d = md_gap_messages e"
  shows "gaps_ok d"
  using assms by (simp add: gaps_ok_def)

text \<open>One step from a decoder that has entered the session of the packet.\<close>

lemma step_entered:
  assumes inv: "decoder_inv ses first (enter_session (pkt_header pkt) d)" and "packet_kind pkt d \<noteq> Runt"
  shows "decoder_inv ses first (decoder_step pkt d)"
proof -
  let ?h = "pkt_header pkt"
  let ?e = "enter_session ?h d" and ?seq = "mh_sequence ?h"
  have gaps: "gaps_ok ?e" and sum: "md_messages ?e + md_gap_messages ?e = md_expected ?e - first"
    and ses: "md_started ?e" "md_session ?e = ses" "md_session_changes ?e = 0"
    using inv by (simp_all add: decoder_inv_def)
  note hole = note_hole_ok [OF gaps, of ?seq]
  have acct: "md_messages ?e + md_gap_messages (note_hole ?seq ?e) = max ?seq (md_expected ?e) - first"
    unfolding hole(2) add.assoc [symmetric] sum by simp
  show ?thesis
  proof (cases "packet_kind pkt d")
    case SessionEnd
    then show ?thesis using acct ses gaps_ok_cong [OF hole(1)]
      by (simp add: decoder_step_def decoder_inv_def Let_def)
  next
    case Fresh
    then have "\<not> ?seq < md_expected ?e" by (auto simp: packet_kind_def Let_def split: if_splits)
    then have "max ?seq (md_expected ?e) = ?seq" by (simp add: max_def)
    then show ?thesis using Fresh acct ses gaps_ok_cong [OF hole(1)]
      by (simp add: decoder_step_def decoder_inv_def Let_def algebra_simps)
  qed (use assms(2) gaps_ok_cong [OF gaps] sum ses in \<open>simp_all add: decoder_step_def decoder_inv_def Let_def\<close>)
qed

lemma foldM_unit [simp]: "foldM (\<lambda>v. Some) vs () = Some ()"
  by (induction vs) simp_all

lemma decoder_reach_inv: "decoder_reach ses first d \<Longrightarrow> decoder_inv ses first d"
proof (induction rule: decoder_reach.induct)
  case (first_packet pkt k d)
  let ?d = "new_decoder\<lparr>md_malformed := k\<rparr>"
  have d: "d = decoder_step pkt ?d" using first_packet(5) by (simp add: on_packet_eq [OF first_packet(1)])
  have "decoder_inv ses first (enter_session (pkt_header pkt) ?d)"
    using first_packet(3,4) by (simp add: decoder_inv_def enter_session_def new_decoder_def gaps_ok_def kMaxGaps_def gap_sum_def)
  moreover have "packet_kind pkt ?d \<noteq> Runt"
    using first_packet(1,2) by (auto simp: packet_kind_def Let_def pkt_bytes_def pkt_ok_def)
  ultimately show ?case unfolding d by (rule step_entered)
next
  case (next_packet d pkt d')
  have d': "d' = decoder_step pkt d" using next_packet.hyps(4) by (simp add: on_packet_eq [OF next_packet.hyps(2)])
  show ?case
  proof (cases "kHeaderSize \<le> unat (pv_len pkt)")
    case True
    then have "enter_session (pkt_header pkt) d = d"
      using next_packet.hyps(3) next_packet.IH by (simp add: enter_session_def decoder_inv_def)
    moreover have "packet_kind pkt d \<noteq> Runt"
      using True next_packet.hyps(2) by (auto simp: packet_kind_def Let_def pkt_bytes_def pkt_ok_def)
    ultimately show ?thesis unfolding d' using next_packet.IH by (intro step_entered) simp_all
  next
    case False
    then have "packet_kind pkt d = Runt" by (simp add: packet_kind_def Let_def pkt_bytes_def)
    then show ?thesis
      unfolding d' using next_packet.IH gaps_ok_cong [of d "d\<lparr>md_malformed := md_malformed d + 1\<rparr>"]
      by (simp add: decoder_step_def decoder_inv_def Let_def)
  qed
qed

end
