(* ===== verification/Mold_Network.thy ===== *)
theory Mold_Network
  imports Mold_Stream
begin

text \<open>
  Packets a packer made, carried by a network to a decoder: what a decoder reads in such a
  packet, a run in which every packet arrives, and runs in which packets are lost, repeated or
  reordered.
\<close>

section \<open>What was sent\<close>

text \<open>The packets that carry the chunks one after the other, from sequence \<open>seq\<close> on.\<close>

fun packets_of :: "session \<Rightarrow> u64 \<Rightarrow> bytes list list \<Rightarrow> bytes list" where
  "packets_of ses seq [] = []"
| "packets_of ses seq (c # cs) = mold_packet ses seq c # packets_of ses (seq + word_of_nat (length c)) cs"

definition chunk_ok :: "bytes list \<Rightarrow> bool" where
  "chunk_ok c \<longleftrightarrow> c \<noteq> [] \<and> length c < 65535 \<and> (\<forall>m \<in> set c. m \<noteq> [] \<and> length m < 65536)"

definition carries :: "packet_view \<Rightarrow> bytes \<Rightarrow> bool" where
  "carries pkt b \<longleftrightarrow> pkt_ok pkt \<and> pkt_bytes pkt = b"

text \<open>What the decoder reads in it.\<close>

lemma carries_packet:
  assumes "carries pkt (mold_packet ses seq c)" and "length ses = kSessionSize" and "chunk_ok c"
  shows "pkt_header pkt = \<lparr>mh_session = ses, mh_sequence = seq, mh_message_count = word_of_nat (length c)\<rparr>"
    and "pkt_messages pkt = c" and "pkt_whole pkt" and "pkt_ok pkt"
    and "kHeaderSize \<le> length (pkt_bytes pkt)"
    and "mh_message_count (pkt_header pkt) \<noteq> kEndOfSession" and "mh_message_count (pkt_header pkt) \<noteq> kHeartbeat"
    and "unat (mh_message_count (pkt_header pkt)) = length c"
proof -
  let ?h = "\<lparr>mh_session = ses, mh_sequence = seq, mh_message_count = word_of_nat (length c) :: u16\<rparr>"
  have ok: "mold_header_ok ?h" using assms(2) by (simp add: mold_header_ok_def)
  have bytes: "pkt_bytes pkt = mold_layout ?h @ concat (map frame c)"
    using assms(1) by (simp add: carries_def mold_packet_def)
  show h: "pkt_header pkt = ?h" using mold_decode_layout [OF ok] by (simp add: pkt_header_def bytes)
  have n: "unat (word_of_nat (length c) :: u16) = length c" and pos: "0 < length c" "length c < 65535"
    using assms(3) by (simp_all add: chunk_ok_def unat_of_nat take_bit_nat_eq_self)
  have msgs: "\<forall>m \<in> set c. m \<noteq> [] \<and> length m < 65536" using assms(3) by (simp add: chunk_ok_def)
  show c: "pkt_messages pkt = c"
    using ok split_frames_framed [OF msgs] by (simp add: pkt_messages_def bytes)
  show "unat (mh_message_count (pkt_header pkt)) = length c" using n by (simp add: h)
  then show "mh_message_count (pkt_header pkt) \<noteq> kEndOfSession" "mh_message_count (pkt_header pkt) \<noteq> kHeartbeat"
    using pos by (auto simp: kEndOfSession_def kHeartbeat_def)
  show "pkt_whole pkt"
    using ok split_frames_framed [OF msgs] n c by (simp add: pkt_whole_def bytes h)
  show "pkt_ok pkt" using assms(1) by (simp add: carries_def)
  show "kHeaderSize \<le> length (pkt_bytes pkt)" using ok by (simp add: bytes)
qed

lemma carries_eos:
  assumes "carries pkt (eos_packet ses seq)" and "length ses = kSessionSize"
  shows "pkt_header pkt = \<lparr>mh_session = ses, mh_sequence = seq, mh_message_count = kEndOfSession\<rparr>"
    and "packet_kind pkt d = SessionEnd"
proof -
  let ?h = "\<lparr>mh_session = ses, mh_sequence = seq, mh_message_count = kEndOfSession\<rparr>"
  have ok: "mold_header_ok ?h" using assms(2) by (simp add: mold_header_ok_def)
  have bytes: "pkt_bytes pkt = mold_layout ?h" using assms(1) by (simp add: carries_def eos_packet_def)
  show h: "pkt_header pkt = ?h" using mold_decode_layout [OF ok, of "[]"] by (simp add: pkt_header_def bytes)
  show "packet_kind pkt d = SessionEnd" using ok by (simp add: packet_kind_def h bytes)
qed

lemma kind_packet:
  assumes "carries pkt (mold_packet ses seq c)" and "length ses = kSessionSize" and "chunk_ok c"
  shows "packet_kind pkt d =
    (if seq < md_expected (enter_session (pkt_header pkt) d) then Stale else Fresh)"
  using carries_packet [OF assms] by (simp add: packet_kind_def Let_def)

section \<open>Nothing lost\<close>

text \<open>The decoder is in the session and waits for \<open>seq\<close>.\<close>

definition awaits :: "session \<Rightarrow> u64 \<Rightarrow> mold_decoder \<Rightarrow> bool" where
  "awaits ses seq d \<longleftrightarrow> (md_started d \<longrightarrow> md_session d = ses \<and> md_expected d = seq)"

text \<open>What a decoder has not seen go wrong.\<close>

definition troubles :: "mold_decoder \<Rightarrow> u64 \<times> u64 \<times> u64 \<times> u64 \<times> u64 \<times> gap list" where
  "troubles d = (md_session_changes d, md_duplicates d, md_malformed d, md_gaps_total d, md_gap_messages d, md_gaps d)"

lemma awaited_packet:
  assumes "carries pkt (mold_packet ses seq c)" and "length ses = kSessionSize" and "chunk_ok c"
    and "awaits ses seq d"
  shows "packet_kind pkt d = Fresh" and "awaits ses (seq + word_of_nat (length c)) (decoder_step pkt d)"
    and "troubles (decoder_step pkt d) = troubles d" and "md_started (decoder_step pkt d)"
    and "md_messages (decoder_step pkt d) = md_messages d + word_of_nat (length c)"
    and "map view_bytes (delivered_views pkt d) = c"
proof -
  note pkt = carries_packet [OF assms(1-3)]
  let ?e = "enter_session (pkt_header pkt) d"
  have e: "md_expected ?e = seq" "md_session ?e = ses" "md_started ?e" "md_messages ?e = md_messages d"
    "troubles ?e = troubles d"
    using assms(4) by (auto simp: pkt(1) enter_session_def awaits_def troubles_def)
  show kind: "packet_kind pkt d = Fresh" using e(1) by (simp add: kind_packet [OF assms(1-3)])
  have "note_hole seq ?e = ?e" by (simp add: note_hole_def e(1))
  then have step: "decoder_step pkt d = ?e\<lparr>md_last_sequence := seq,
      md_messages := md_messages d + word_of_nat (length c), md_applied := md_applied ?e + 1,
      md_expected := seq + word_of_nat (length c)\<rparr>"
    using kind pkt(8) e(4) by (simp add: decoder_step_def Let_def pkt(1)) (metis of_nat_unat)
  show "awaits ses (seq + word_of_nat (length c)) (decoder_step pkt d)" "md_started (decoder_step pkt d)"
    "md_messages (decoder_step pkt d) = md_messages d + word_of_nat (length c)"
    using e by (simp_all add: step awaits_def)
  show "troubles (decoder_step pkt d) = troubles d" using e(5) by (simp add: step troubles_def)
  show "map view_bytes (delivered_views pkt d) = c"
    using kind pkt_frames(1) [OF pkt(4) fresh_len [OF pkt(4) kind]] pkt(2) by (simp add: delivered_views_def)
qed

lemma lossless_run:
  assumes "list_all2 carries pkts (packets_of ses seq cs)" and "length ses = kSessionSize"
    and "\<forall>c \<in> set cs. chunk_ok c" and "awaits ses seq d"
  shows "awaits ses (seq + word_of_nat (length (concat cs))) (fold decoder_step pkts d)"
    and "troubles (fold decoder_step pkts d) = troubles d"
    and "cs \<noteq> [] \<Longrightarrow> md_started (fold decoder_step pkts d)"
    and "md_messages (fold decoder_step pkts d) = md_messages d + word_of_nat (length (concat cs))"
    and "map (view_bytes \<circ> fst) (stream_views pkts d) = concat cs"
proof -
  have "awaits ses (seq + word_of_nat (length (concat cs))) (fold decoder_step pkts d) \<and>
      troubles (fold decoder_step pkts d) = troubles d \<and>
      (cs \<noteq> [] \<or> md_started d \<longrightarrow> md_started (fold decoder_step pkts d)) \<and>
      md_messages (fold decoder_step pkts d) = md_messages d + word_of_nat (length (concat cs)) \<and>
      map (view_bytes \<circ> fst) (stream_views pkts d) = concat cs"
    using assms(1,3,4)
  proof (induction cs arbitrary: pkts seq d)
    case (Cons c cs)
    from Cons.prems(1) obtain pkt rest where pkts: "pkts = pkt # rest"
      and pkt: "carries pkt (mold_packet ses seq c)"
      and rest: "list_all2 carries rest (packets_of ses (seq + word_of_nat (length c)) cs)"
      by (auto simp: list_all2_Cons2)
    have "chunk_ok c" "\<forall>c \<in> set cs. chunk_ok c" using Cons.prems(2) by simp_all
    note step = awaited_packet [OF pkt assms(2) this(1) Cons.prems(3)] and IH = Cons.IH [OF rest this(2)]
    show ?case
      using IH [OF step(2)] step(3-6) unfolding pkts by (simp add: comp_def add.assoc)
  qed simp
  then show "awaits ses (seq + word_of_nat (length (concat cs))) (fold decoder_step pkts d)"
    and "troubles (fold decoder_step pkts d) = troubles d"
    and "cs \<noteq> [] \<Longrightarrow> md_started (fold decoder_step pkts d)"
    and "md_messages (fold decoder_step pkts d) = md_messages d + word_of_nat (length (concat cs))"
    and "map (view_bytes \<circ> fst) (stream_views pkts d) = concat cs" by blast+
qed

section \<open>Loss, repetition and reordering\<close>

text \<open>A packet of the session whose sequence numbers do not wrap.\<close>

definition in_session :: "session \<Rightarrow> packet_view \<Rightarrow> bool" where
  "in_session ses pkt \<longleftrightarrow> pkt_ok pkt \<and>
     (kHeaderSize \<le> length (pkt_bytes pkt) \<longrightarrow> mh_session (pkt_header pkt) = ses \<and>
        unat (mh_sequence (pkt_header pkt)) + unat (mh_message_count (pkt_header pkt)) < 2 ^ 64)"

lemma step_expected:
  assumes "in_session ses pkt" and "md_started d \<longrightarrow> md_session d = ses"
  shows "md_started (decoder_step pkt d) \<longrightarrow> md_session (decoder_step pkt d) = ses"
    and "md_started d \<Longrightarrow> md_started (decoder_step pkt d) \<and> md_expected d \<le> md_expected (decoder_step pkt d)"
    and "packet_kind pkt d = Fresh \<Longrightarrow> md_started (decoder_step pkt d) \<and>
      (md_started d \<longrightarrow> md_expected d \<le> mh_sequence (pkt_header pkt)) \<and>
      unat (md_expected (decoder_step pkt d)) = unat (mh_sequence (pkt_header pkt)) + length (pkt_messages pkt)"
proof -
  let ?h = "pkt_header pkt" and ?k = "packet_kind pkt d"
  let ?e = "enter_session ?h d"
  have head: "?k \<noteq> Runt \<Longrightarrow> mh_session ?h = ses \<and> unat (mh_sequence ?h) + unat (mh_message_count ?h) < 2 ^ 64"
    using assms(1) by (auto simp: in_session_def packet_kind_def Let_def)
  have e: "?k \<noteq> Runt \<Longrightarrow> md_started ?e \<and> md_session ?e = ses \<and> (md_started d \<longrightarrow> md_expected ?e = md_expected d)"
    using assms(2) head by (auto simp: enter_session_def)
  have fresh: "md_expected ?e \<le> mh_sequence ?h \<and> length (pkt_messages pkt) = unat (mh_message_count ?h)"
    if "?k = Fresh" using that by (auto simp: packet_kind_def Let_def pkt_whole_def split: if_splits)
  have sum: "unat (mh_sequence ?h + ucast (mh_message_count ?h)) = unat (mh_sequence ?h) + unat (mh_message_count ?h)"
    if "?k = Fresh" using head that by (simp add: unat_word_ariths unat_ucast_16_64)
  show "md_started (decoder_step pkt d) \<longrightarrow> md_session (decoder_step pkt d) = ses"
    using e assms(2) by (cases ?k) (simp_all add: decoder_step_def Let_def)
  show "md_started (decoder_step pkt d) \<and>
      (md_started d \<longrightarrow> md_expected d \<le> mh_sequence ?h) \<and>
      unat (md_expected (decoder_step pkt d)) = unat (mh_sequence ?h) + length (pkt_messages pkt)" if "?k = Fresh"
    using e fresh sum that by (auto simp: decoder_step_def Let_def)
  assume d: "md_started d"
  show "md_started (decoder_step pkt d) \<and> md_expected d \<le> md_expected (decoder_step pkt d)"
  proof (cases ?k)
    case Fresh
    then have "md_expected d \<le> mh_sequence ?h" using d e fresh by simp
    then have "unat (md_expected d) \<le> unat (mh_sequence ?h + ucast (mh_message_count ?h))"
      using sum [OF Fresh] by (simp add: word_le_nat_alt)
    then show ?thesis using Fresh e by (simp add: decoder_step_def Let_def word_le_nat_alt)
  qed (use d e in \<open>simp_all add: decoder_step_def Let_def\<close>)
qed

text \<open>Sequence numbers are delivered in increasing order, so none is delivered twice.\<close>

lemma log_increases:
  assumes "\<forall>pkt \<in> set pkts. in_session ses pkt" and "md_started d \<longrightarrow> md_session d = ses"
  shows "sorted_wrt (<) (map fst (stream_log pkts d)) \<and>
    (md_started d \<longrightarrow> (\<forall>n \<in> set (map fst (stream_log pkts d)). unat (md_expected d) \<le> n))"
  using assms
proof (induction pkts arbitrary: d)
  case (Cons pkt pkts)
  then have pkt: "in_session ses pkt" by simp
  note step = step_expected [OF pkt Cons.prems(2)]
  let ?d = "decoder_step pkt d" and ?n = "unat (mh_sequence (pkt_header pkt))"
  have IH: "sorted_wrt (<) (map fst (stream_log pkts ?d)) \<and>
    (md_started ?d \<longrightarrow> (\<forall>n \<in> set (map fst (stream_log pkts ?d)). unat (md_expected ?d) \<le> n))"
    using Cons.IH [OF _ step(1)] Cons.prems(1) by simp
  show ?case
  proof (cases "packet_kind pkt d = Fresh")
    case True
    have "map fst (stream_log (pkt # pkts) d) =
        [?n..<?n + length (pkt_messages pkt)] @ map fst (stream_log pkts ?d)"
      using True by (simp add: map_fst_numbered Let_def)
    moreover have "\<forall>n \<in> set (map fst (stream_log pkts ?d)). ?n + length (pkt_messages pkt) \<le> n"
      using IH step(3) [OF True] by simp
    ultimately show ?thesis
      using IH step(3) [OF True] by (force simp: sorted_wrt_append word_le_nat_alt simp del: stream_log.simps)
  next
    case False
    then show ?thesis using IH step(2) by (fastforce simp: word_le_nat_alt)
  qed
qed simp

text \<open>Increasing positions of a list pick out a subsequence of it.\<close>

lemma subseq_positions:
  assumes "sorted_wrt (<) ns" and "\<forall>n \<in> set ns. k \<le> n \<and> n < length xs"
  shows "subseq (map ((!) xs) ns) (drop k xs)"
  using assms
proof (induction ns arbitrary: k)
  case (Cons n ns)
  then have n: "k \<le> n" "n < length xs" by simp_all
  have "subseq (map ((!) xs) ns) (drop (Suc n) xs)"
    by (rule Cons.IH) (use Cons.prems in auto)
  then have "subseq (map ((!) xs) (n # ns)) (drop n xs)"
    using n(2) by (simp flip: Cons_nth_drop_Suc)
  moreover have "subseq (drop n xs) (drop k xs)"
  proof -
    have "drop n xs = drop (n - k) (drop k xs)" using n(1) by simp
    then show ?thesis by (metis append_take_drop_id list_emb_append2 subseq_order.order_refl)
  qed
  ultimately show ?case by (rule subseq_order.order_trans)
qed simp

text \<open>A packet with messages of \<open>ms\<close>, numbered from 1, or the end of the session.\<close>

definition sent_by :: "session \<Rightarrow> bytes list \<Rightarrow> packet_view \<Rightarrow> bool" where
  "sent_by ses ms pkt \<longleftrightarrow> carries pkt (eos_packet ses (1 + word_of_nat (length ms))) \<or>
     (\<exists>k c. carries pkt (mold_packet ses (1 + word_of_nat k) c) \<and> chunk_ok c \<and>
        k + length c \<le> length ms \<and> c = take (length c) (drop k ms))"

lemma packets_of_sent:
  assumes "b \<in> set (packets_of ses seq cs)"
  shows "\<exists>k c. c \<in> set cs \<and> b = mold_packet ses (seq + word_of_nat k) c \<and> k + length c \<le> length (concat cs) \<and>
    c = take (length c) (drop k (concat cs))"
  using assms
proof (induction cs arbitrary: seq)
  case (Cons c cs)
  show ?case
  proof (cases "b = mold_packet ses seq c")
    case True
    then show ?thesis by (intro exI [of _ 0] exI [of _ c]) simp
  next
    case False
    then obtain k c' where "c' \<in> set cs" "b = mold_packet ses (seq + word_of_nat (length c) + word_of_nat k) c'"
      "k + length c' \<le> length (concat cs)" "c' = take (length c') (drop k (concat cs))"
      using Cons.IH [of "seq + word_of_nat (length c)"] Cons.prems by auto
    then show ?thesis by (intro exI [of _ "length c + k"] exI [of _ c']) (simp add: add.assoc)
  qed
qed simp

lemma sent_by_session:
  assumes "sent_by ses ms pkt" and "length ses = kSessionSize" and "length ms + 65537 < 2 ^ 64"
  shows "in_session ses pkt"
    and "packet_kind pkt d = Fresh \<Longrightarrow> (n, m) \<in> set (numbered pkt) \<Longrightarrow> 0 < n \<and> n \<le> length ms \<and> m = ms ! (n - 1)"
proof -
  consider (eos) "carries pkt (eos_packet ses (1 + word_of_nat (length ms)))"
    | (msgs) k c where "carries pkt (mold_packet ses (1 + word_of_nat k) c)" "chunk_ok c"
      "k + length c \<le> length ms" "c = take (length c) (drop k ms)"
    using assms(1) by (auto simp: sent_by_def)
  then have "in_session ses pkt \<and> (packet_kind pkt d = Fresh \<longrightarrow> (n, m) \<in> set (numbered pkt) \<longrightarrow>
      0 < n \<and> n \<le> length ms \<and> m = ms ! (n - 1))"
  proof cases
    case eos
    have "unat (1 + word_of_nat (length ms) :: u64) = 1 + length ms"
      using assms(3) by (simp add: unat_word_ariths unat_of_nat take_bit_nat_eq_self)
    then show ?thesis
      using carries_eos [OF eos assms(2)] eos assms(3) by (simp add: in_session_def carries_def kEndOfSession_def)
  next
    case msgs
    note pkt = carries_packet [OF msgs(1) assms(2) msgs(2)]
    have seq: "unat (1 + word_of_nat k :: u64) = 1 + k"
      using assms(3) msgs(3) by (simp add: unat_word_ariths unat_of_nat take_bit_nat_eq_self)
    have "in_session ses pkt"
      using pkt msgs(3) assms(3) seq by (simp add: in_session_def)
    moreover have "0 < n \<and> n \<le> length ms \<and> m = ms ! (n - 1)" if "(n, m) \<in> set (numbered pkt)"
    proof -
      have "(n, m) \<in> set (zip [1 + k..<1 + k + length c] c)"
        using that pkt(2) seq by (simp only: numbered_def Let_def pkt(1) mold_header.simps)
      then obtain i where i: "i < length c" "n = [1 + k..<1 + k + length c] ! i" "m = c ! i"
        unfolding in_set_zip by (metis fst_conv snd_conv)
      have "n = 1 + k + i" unfolding i(2) using i(1) by (intro nth_upt) simp
      note i = i(1) this i(3)
      moreover have "c ! i = ms ! (k + i)" using i(1) msgs(3) by (subst msgs(4)) simp
      ultimately show ?thesis using msgs(3) by simp
    qed
    ultimately show ?thesis by blast
  qed
  then show "in_session ses pkt"
    and "packet_kind pkt d = Fresh \<Longrightarrow> (n, m) \<in> set (numbered pkt) \<Longrightarrow> 0 < n \<and> n \<le> length ms \<and> m = ms ! (n - 1)"
    by blast+
qed

lemma stream_log_sent:
  assumes "\<forall>pkt \<in> set pkts. sent_by ses ms pkt" and "length ses = kSessionSize" and "length ms + 65537 < 2 ^ 64"
    and "(n, m) \<in> set (stream_log pkts d)"
  shows "0 < n \<and> n \<le> length ms \<and> m = ms ! (n - 1)"
  using assms(1,4)
proof (induction pkts arbitrary: d)
  case (Cons pkt pkts)
  then show ?case using sent_by_session(2) [of ses ms pkt d n m] assms(2,3) by (auto split: if_splits)
qed simp

text \<open>Whatever the network does with the packets, the messages delivered are a subsequence of those sent.\<close>

lemma delivered_subseq:
  assumes "\<forall>pkt \<in> set pkts. sent_by ses ms pkt" and "length ses = kSessionSize" and "length ms + 65537 < 2 ^ 64"
  shows "subseq (map (view_bytes \<circ> fst) (stream_views pkts new_decoder)) ms"
proof -
  let ?log = "stream_log pkts new_decoder"
  have ses: "\<forall>pkt \<in> set pkts. in_session ses pkt" using sent_by_session(1) assms by blast
  have "\<not> md_started new_decoder" by (simp add: new_decoder_def)
  then have sorted: "sorted_wrt (<) (map fst ?log)" using log_increases [OF ses, of new_decoder] by simp
  have log: "n \<in> set (map fst ?log) \<Longrightarrow> 0 < n \<and> n \<le> length ms" for n
    using stream_log_sent [OF assms] by fastforce
  let ?ns = "map (\<lambda>n. n - 1) (map fst ?log)"
  have "sorted_wrt (<) ?ns"
    unfolding sorted_wrt_map
  proof (rule sorted_wrt_mono_rel [of _ "\<lambda>a b. fst a < fst b"])
    show "sorted_wrt (\<lambda>a b. fst a < fst b) ?log" using sorted by (simp add: sorted_wrt_map)
  qed (use log in fastforce)
  then have "subseq (map ((!) ms) ?ns) (drop 0 ms)"
    by (rule subseq_positions) (use log in fastforce)
  moreover have "map ((!) ms) ?ns = map snd ?log"
    using stream_log_sent [OF assms] by (auto simp: comp_def)
  moreover have "map snd ?log = map (view_bytes \<circ> fst) (stream_views pkts new_decoder)"
    using stream_log_messages [of pkts new_decoder] ses by (simp add: in_session_def)
  ultimately show ?thesis by simp
qed

end
