(* ===== verification/Receiver.thy ===== *)
theory Receiver
  imports Mold_Network
begin

text \<open>
  The blocking receiver of \<open>src/receive/recvfrom_receiver.h\<close> and
  \<open>src/receive/recvfrom_receiver.cc\<close>: one \<open>recvfrom\<close> per datagram into one buffer, and a view of
  it for the sink. The kernel, the time stamp counter and other threads that ask the receiver to
  stop are a parameter over a state of the world of any type; the sink may change the world and
  stop the receiver.
\<close>

section \<open>The receiver\<close>

definition kBufferSize :: nat where
  "kBufferSize = 2048"

record receiver =
  rv_stop :: bool
  rv_packets :: u64
  rv_syscalls :: u64
  rv_truncated :: u64
  rv_buffer :: bytes

definition new_receiver :: receiver where
  "new_receiver = \<lparr>rv_stop = False, rv_packets = 0, rv_syscalls = 0, rv_truncated = 0,
     rv_buffer = replicate kBufferSize 0\<rparr>"

text \<open>What the class lets others read.\<close>

definition packets_received :: "receiver \<Rightarrow> u64" where
  "packets_received rv = rv_packets rv"

definition syscalls :: "receiver \<Rightarrow> u64" where
  "syscalls rv = rv_syscalls rv"

definition truncated :: "receiver \<Rightarrow> u64" where
  "truncated rv = rv_truncated rv"

definition receiver_name :: "receiver \<Rightarrow> string" where
  "receiver_name rv = ''recvfrom''"

lemmas receiver_reads [simp] = packets_received_def syscalls_def truncated_def receiver_name_def

definition receiver_stop :: "receiver \<Rightarrow> receiver" where
  "receiver_stop rv = rv\<lparr>rv_stop := True\<rparr>"

text \<open>
  \<open>rx_recvfrom\<close> takes the buffer and returns the result of the call and the buffer after it;
  \<open>rx_errno\<close> reads \<open>errno\<close>; \<open>rx_asked\<close> says at a load of the flag whether another thread has
  called \<open>stop\<close> since the last one.
\<close>

record 'w rx_host =
  rx_recvfrom :: "bytes \<Rightarrow> 'w \<Rightarrow> int \<times> bytes \<times> 'w"
  rx_errno :: "'w \<Rightarrow> int"
  rx_now :: "'w \<Rightarrow> u64 \<times> 'w"
  rx_asked :: "'w \<Rightarrow> bool \<times> 'w"

definition EINTR :: int where
  "EINTR = 4"

type_synonym 'w rx_sink = "packet_view \<Rightarrow> receiver \<times> 'w \<Rightarrow> (receiver \<times> 'w) option"

definition load_stop :: "'w rx_host \<Rightarrow> receiver \<times> 'w \<Rightarrow> bool \<times> receiver \<times> 'w" where
  "load_stop host = (\<lambda>(rv, w).
     let (asked, w) = rx_asked host w; rv = (if asked then receiver_stop rv else rv)
     in (rv_stop rv, rv, w))"

partial_function (option) receiver_run :: "'w rx_host \<Rightarrow> 'w rx_sink \<Rightarrow> receiver \<times> 'w \<Rightarrow> (receiver \<times> 'w) option" where
  "receiver_run host sink st =
     (let (stopped, rv, w) = load_stop host st
      in if stopped then Some (rv, w)
         else
           (let (n, buf, w) = rx_recvfrom host (rv_buffer rv) w;
                (rx_tsc, w) = rx_now host w;
                rv = rv\<lparr>rv_buffer := buf, rv_syscalls := rv_syscalls rv + 1\<rparr>
            in if n < 0
               then if rx_errno host w = EINTR then receiver_run host sink (rv, w) else Some (rv, w)
               else if (word_of_int n :: size_t) > word_of_nat (length buf)
               then receiver_run host sink (rv\<lparr>rv_truncated := rv_truncated rv + 1\<rparr>, w)
               else do {
                 st \<leftarrow> sink \<lparr>pv_data = buf, pv_len = word_of_int n, pv_rx_tsc = rx_tsc\<rparr>
                         (rv\<lparr>rv_packets := rv_packets rv + 1\<rparr>, w);
                 receiver_run host sink st }))"

declare receiver_run.simps [code]

section \<open>What arrives\<close>

text \<open>
  The future of a socket: datagrams, signals that interrupt the call, a failure of the socket,
  and requests to stop. \<open>pending w\<close> lists it, and says nothing of what comes after a request.
\<close>

datatype rx_event = Arrives bytes | Signal | Fails | StopAsked

text \<open>
  The documented behaviour of the calls. With \<open>MSG_TRUNC\<close>, \<open>recvfrom\<close> returns the length of the
  datagram, stores as much of it as fits in the buffer and leaves the rest of the buffer alone;
  it fails with a negative value, and \<open>errno\<close> says why.
\<close>

definition rx_source :: "('w \<Rightarrow> rx_event list) \<Rightarrow> 'w rx_host \<Rightarrow> bool" where
  "rx_source pending host \<longleftrightarrow>
     (\<forall>w. fst (rx_asked host w) \<longleftrightarrow> pending w = [] \<or> hd (pending w) = StopAsked) \<and>
     (\<forall>w. pending (snd (rx_asked host w)) = pending w) \<and>
     (\<forall>w. pending (snd (rx_now host w)) = pending w \<and> rx_errno host (snd (rx_now host w)) = rx_errno host w) \<and>
     (\<forall>w e es buf n buf' w'. pending w = e # es \<longrightarrow> e \<noteq> StopAsked \<longrightarrow> rx_recvfrom host buf w = (n, buf', w') \<longrightarrow>
        pending w' = es \<and> length buf' = length buf \<and>
        (case e of
           Arrives b \<Rightarrow> n = int (length b) \<and> buf' = take (length buf) b @ drop (length b) buf
         | Signal \<Rightarrow> n < 0 \<and> rx_errno host w' = EINTR
         | _ \<Rightarrow> n < 0 \<and> rx_errno host w' \<noteq> EINTR))"

text \<open>The datagrams the loop comes to see, and how many calls it makes for them.\<close>

fun rx_seen :: "rx_event list \<Rightarrow> bytes list" where
  "rx_seen (Arrives b # es) = b # rx_seen es"
| "rx_seen (Signal # es) = rx_seen es"
| "rx_seen _ = []"

fun rx_calls :: "rx_event list \<Rightarrow> nat" where
  "rx_calls (Arrives b # es) = Suc (rx_calls es)"
| "rx_calls (Signal # es) = Suc (rx_calls es)"
| "rx_calls (Fails # es) = 1"
| "rx_calls _ = 0"

definition rx_fits :: "bytes \<Rightarrow> bool" where
  "rx_fits b \<longleftrightarrow> length b \<le> kBufferSize"

text \<open>
  A sink that works on its own state, behind the world of the socket, and asks the receiver to
  stop when \<open>until\<close> says so after a packet.
\<close>

definition feed :: "(packet_view \<Rightarrow> 's \<Rightarrow> 's option) \<Rightarrow> ('s \<Rightarrow> bool) \<Rightarrow> ('w \<times> 's) rx_sink" where
  "feed f until pkt = (\<lambda>(rv, w, s). do {
     s \<leftarrow> f pkt s;
     Some (if until s then receiver_stop rv else rv, w, s) })"

text \<open>The host of a socket beside the state of such a sink.\<close>

definition beside :: "'w rx_host \<Rightarrow> ('w \<times> 's) rx_host" where
  "beside host = \<lparr>rx_recvfrom = (\<lambda>buf (w, s). let (n, buf, w) = rx_recvfrom host buf w in (n, buf, w, s)),
     rx_errno = (\<lambda>(w, s). rx_errno host w),
     rx_now = (\<lambda>(w, s). let (t, w) = rx_now host w in (t, w, s)),
     rx_asked = (\<lambda>(w, s). let (a, w) = rx_asked host w in (a, w, s))\<rparr>"

text \<open>What such a sink does with a list of packets.\<close>

fun feed_run :: "(packet_view \<Rightarrow> 's \<Rightarrow> 's option) \<Rightarrow> ('s \<Rightarrow> bool) \<Rightarrow> packet_view list \<Rightarrow> 's \<Rightarrow> 's option" where
  "feed_run f until [] s = Some s"
| "feed_run f until (pkt # pkts) s = do { s \<leftarrow> f pkt s; if until s then Some s else feed_run f until pkts s }"

lemma feed_run_never: "feed_run f (\<lambda>_. False) pkts s = foldM f pkts s"
  by (induction pkts arbitrary: s) simp_all

section \<open>The run\<close>

lemma beside_load:
  assumes "rx_source pending host"
  shows "load_stop (beside host) (rv, w, s) =
     ((pending w = [] \<or> hd (pending w) = StopAsked) \<or> rv_stop rv,
      (if pending w = [] \<or> hd (pending w) = StopAsked then receiver_stop rv else rv), snd (rx_asked host w), s)"
proof -
  have "fst (rx_asked host w) \<longleftrightarrow> pending w = [] \<or> hd (pending w) = StopAsked"
    using assms unfolding rx_source_def by blast
  then show ?thesis
    by (cases "rx_asked host w") (auto simp: load_stop_def beside_def receiver_stop_def)
qed

lemma run_stopped:
  assumes "rx_source pending host" and "rv_stop rv \<or> pending w = [] \<or> hd (pending w) = StopAsked"
  shows "receiver_run (beside host) sink (rv, w, s) = Some (receiver_stop rv, snd (rx_asked host w), s)"
proof -
  have "load_stop (beside host) (rv, w, s) = (True, receiver_stop rv, snd (rx_asked host w), s)"
    unfolding beside_load [OF assms(1)] using assms(2) by (auto simp: receiver_stop_def)
  then show ?thesis by (subst receiver_run.simps) simp
qed

text \<open>One turn of the loop, with the buffer and the world it leaves.\<close>

definition after_call :: "receiver \<Rightarrow> bytes \<Rightarrow> receiver" where
  "after_call rv buf = rv\<lparr>rv_buffer := buf, rv_syscalls := rv_syscalls rv + 1\<rparr>"

lemma run_turn:
  assumes "rx_source pending host" and "pending w = e # es" and "e \<noteq> StopAsked" and "\<not> rv_stop rv"
  shows "\<exists>n buf tsc w'. pending w' = es \<and> length buf = length (rv_buffer rv) \<and>
     (case e of
        Arrives b \<Rightarrow> n = int (length b) \<and> buf = take (length buf) b @ drop (length b) (rv_buffer rv)
      | Signal \<Rightarrow> n < 0 \<and> rx_errno host w' = EINTR
      | _ \<Rightarrow> n < 0 \<and> rx_errno host w' \<noteq> EINTR) \<and>
     (\<forall>sink s. receiver_run (beside host) sink (rv, w, s) =
        (if n < 0
         then if rx_errno host w' = EINTR then receiver_run (beside host) sink (after_call rv buf, w', s)
              else Some (after_call rv buf, w', s)
         else if (word_of_int n :: size_t) > word_of_nat (length buf)
         then receiver_run (beside host) sink
                ((after_call rv buf)\<lparr>rv_truncated := rv_truncated rv + 1\<rparr>, w', s)
         else do {
           st \<leftarrow> sink \<lparr>pv_data = buf, pv_len = word_of_int n, pv_rx_tsc = tsc\<rparr>
                   ((after_call rv buf)\<lparr>rv_packets := rv_packets rv + 1\<rparr>, w', s);
           receiver_run (beside host) sink st }))"
proof -
  obtain w1 where w1: "rx_asked host w = (False, w1)" "pending w1 = e # es"
    using assms(1-3) unfolding rx_source_def by (metis (full_types) list.distinct(1) list.sel(1) prod.collapse)
  obtain n buf w2 where call: "rx_recvfrom host (rv_buffer rv) w1 = (n, buf, w2)" by (metis surj_pair)
  obtain tsc w' where now: "rx_now host w2 = (tsc, w')" by fastforce
  have w2: "pending w2 = es \<and> length buf = length (rv_buffer rv) \<and>
     (case e of
        Arrives b \<Rightarrow> n = int (length b) \<and> buf = take (length (rv_buffer rv)) b @ drop (length b) (rv_buffer rv)
      | Signal \<Rightarrow> n < 0 \<and> rx_errno host w2 = EINTR
      | _ \<Rightarrow> n < 0 \<and> rx_errno host w2 \<noteq> EINTR)"
    using assms(1,3) w1(2) call unfolding rx_source_def by blast
  have w': "pending w' = pending w2 \<and> rx_errno host w' = rx_errno host w2"
    using assms(1) now unfolding rx_source_def by (metis snd_conv)
  have run: "receiver_run (beside host) sink (rv, w, s) =
        (if n < 0
         then if rx_errno host w' = EINTR then receiver_run (beside host) sink (after_call rv buf, w', s)
              else Some (after_call rv buf, w', s)
         else if (word_of_int n :: size_t) > word_of_nat (length buf)
         then receiver_run (beside host) sink
                ((after_call rv buf)\<lparr>rv_truncated := rv_truncated rv + 1\<rparr>, w', s)
         else do {
           st \<leftarrow> sink \<lparr>pv_data = buf, pv_len = word_of_int n, pv_rx_tsc = tsc\<rparr>
                   ((after_call rv buf)\<lparr>rv_packets := rv_packets rv + 1\<rparr>, w', s);
           receiver_run (beside host) sink st })" for sink s
  proof -
    have ops: "load_stop (beside host) (rv, w, s) = (False, rv, w1, s)"
      "rx_recvfrom (beside host) (rv_buffer rv) (w1, s) = (n, buf, w2, s)"
      "rx_now (beside host) (w2, s) = (tsc, w', s)" "rx_errno (beside host) (w', s) = rx_errno host w'"
      using w1(1) call now assms(4) by (simp_all add: load_stop_def beside_def)
    show ?thesis by (subst receiver_run.simps) (simp add: ops after_call_def)
  qed
  have "case e of
        Arrives b \<Rightarrow> n = int (length b) \<and> buf = take (length buf) b @ drop (length b) (rv_buffer rv)
      | Signal \<Rightarrow> n < 0 \<and> rx_errno host w' = EINTR
      | _ \<Rightarrow> n < 0 \<and> rx_errno host w' \<noteq> EINTR"
    using w2 w' by (cases e) auto
  then show ?thesis
    by (intro exI [of _ n] exI [of _ buf] exI [of _ tsc] exI [of _ w'] conjI allI run) (use w2 w' in auto)
qed

text \<open>The three kinds of turn.\<close>

lemma turn_arrives:
  assumes "rx_source pending host" and "pending w = Arrives b # es" and "\<not> rv_stop rv"
  obtains buf tsc w' where "pending w' = es" and "length buf = length (rv_buffer rv)"
    and "buf = take (length buf) b @ drop (length b) (rv_buffer rv)"
    and "\<And>sink (s :: 's). receiver_run (beside host) sink (rv, w, s) =
      (if (word_of_nat (length b) :: size_t) > word_of_nat (length buf)
       then receiver_run (beside host) sink ((after_call rv buf)\<lparr>rv_truncated := rv_truncated rv + 1\<rparr>, w', s)
       else do {
         st \<leftarrow> sink \<lparr>pv_data = buf, pv_len = word_of_nat (length b), pv_rx_tsc = tsc\<rparr>
                 ((after_call rv buf)\<lparr>rv_packets := rv_packets rv + 1\<rparr>, w', s);
         receiver_run (beside host) sink st })"
proof -
  from run_turn [OF assms(1,2) _ assms(3), where 'b = 's] that show thesis by (simp del: length_append) (metis of_int_of_nat_eq of_nat_less_0_iff)
qed

lemma turn_interrupted:
  assumes "rx_source pending host" and "pending w = Signal # es" and "\<not> rv_stop rv"
  obtains buf w' where "pending w' = es" and "length buf = length (rv_buffer rv)"
    and "\<And>sink (s :: 's). receiver_run (beside host) sink (rv, w, s) = receiver_run (beside host) sink (after_call rv buf, w', s)"
proof -
  from run_turn [OF assms(1,2) _ assms(3), where 'b = 's] that show thesis by simp metis
qed

lemma turn_fails:
  assumes "rx_source pending host" and "pending w = Fails # es" and "\<not> rv_stop rv"
  obtains buf w' where "\<And>sink (s :: 's). receiver_run (beside host) sink (rv, w, s) = Some (after_call rv buf, w', s)"
proof -
  from run_turn [OF assms(1,2) _ assms(3), where 'b = 's] that show thesis by simp metis
qed

section \<open>The run as a loop over the datagrams\<close>

definition run_counts :: "rx_event list \<Rightarrow> receiver \<Rightarrow> receiver \<Rightarrow> bool" where
  "run_counts es rv rv' \<longleftrightarrow>
     rv_packets rv' = rv_packets rv + word_of_nat (length (filter rx_fits (rx_seen es))) \<and>
     rv_truncated rv' = rv_truncated rv + word_of_nat (length (filter (Not \<circ> rx_fits) (rx_seen es))) \<and>
     rv_syscalls rv' = rv_syscalls rv + word_of_nat (rx_calls es)"

definition small_events :: "rx_event list \<Rightarrow> bool" where
  "small_events es \<longleftrightarrow> (\<forall>b. Arrives b \<in> set es \<longrightarrow> length b < 2 ^ 63)"

lemma filled_view:
  assumes "length buf = kBufferSize" and "length b \<le> kBufferSize"
    and "buf = take (length buf) b @ drop (length b) old"
  shows "carries \<lparr>pv_data = buf, pv_len = word_of_nat (length b), pv_rx_tsc = t\<rparr> b"
proof -
  have "unat (word_of_nat (length b) :: size_t) = length b"
    using assms(2) by (intro unat_of_nat_64) (simp add: kBufferSize_def)
  moreover have "take (length b) buf = b" using assms by (metis append_eq_conv_conj take_all)
  ultimately show ?thesis using assms(1,2) by (simp add: carries_def pkt_ok_def pkt_bytes_def kBufferSize_def)
qed

text \<open>
  From \<open>(rv, w)\<close> the loop hands over \<open>pkts\<close> and ends in \<open>fin\<close>, for every sink with a state of type
  \<open>'s\<close>; a sink that asks to stop gets the packets up to then.
\<close>

definition outcome :: "'s itself \<Rightarrow> 'w rx_host \<Rightarrow> receiver \<times> 'w \<Rightarrow> packet_view list \<Rightarrow> receiver \<times> 'w \<Rightarrow> bool" where
  "outcome _ host = (\<lambda>(rv, w) pkts (rv', w').
     \<forall>(f :: packet_view \<Rightarrow> 's \<Rightarrow> 's option) until s.
       receiver_run (beside host) (feed f (\<lambda>_. False)) (rv, w, s) = map_option (\<lambda>s. (rv', w', s)) (foldM f pkts s) \<and>
       map_option (snd \<circ> snd) (receiver_run (beside host) (feed f until) (rv, w, s)) = feed_run f until pkts s)"

lemma outcome_end:
  assumes "\<And>sink (s :: 's). receiver_run (beside host) sink (rv, w, s) = Some (rv', w', s)"
  shows "outcome TYPE('s) host (rv, w) [] (rv', w')"
  by (simp add: outcome_def assms)

lemma outcome_skip:
  assumes "\<And>sink (s :: 's). receiver_run (beside host) sink (rv, w, s) = receiver_run (beside host) sink (rv1, w1, s)"
    and "outcome TYPE('s) host (rv1, w1) pkts fin"
  shows "outcome TYPE('s) host (rv, w) pkts fin"
  using assms(2) by (simp add: outcome_def assms(1))

lemma outcome_packet:
  assumes source: "rx_source pending host"
    and step: "\<And>sink (s :: 's). receiver_run (beside host) sink (rv, w, s) =
      do { st \<leftarrow> sink pkt (rv1, w1, s); receiver_run (beside host) sink st }"
    and rest: "outcome TYPE('s) host (rv1, w1) pkts fin"
  shows "outcome TYPE('s) host (rv, w) (pkt # pkts) fin"
proof -
  obtain rv' w' where fin: "fin = (rv', w')" by (cases fin)
  have run: "receiver_run (beside host) (feed f (\<lambda>_. False)) (rv1, w1, s) = map_option (\<lambda>s. (rv', w', s)) (foldM f pkts s)"
    and until: "map_option (snd \<circ> snd) (receiver_run (beside host) (feed f stop) (rv1, w1, s)) = feed_run f stop pkts s"
    for f :: "packet_view \<Rightarrow> 's \<Rightarrow> 's option" and stop s
    using rest by (simp_all add: outcome_def fin)
  have "receiver_run (beside host) (feed f (\<lambda>_. False)) (rv, w, s) =
      map_option (\<lambda>s. (rv', w', s)) (foldM f (pkt # pkts) s)" for f :: "packet_view \<Rightarrow> 's \<Rightarrow> 's option" and s
    using run by (cases "f pkt s") (simp_all add: step feed_def)
  moreover have "map_option (snd \<circ> snd) (receiver_run (beside host) (feed f stop) (rv, w, s)) =
      feed_run f stop (pkt # pkts) s" for f :: "packet_view \<Rightarrow> 's \<Rightarrow> 's option" and stop s
  proof (cases "f pkt s")
    case (Some s')
    have "receiver_run (beside host) (feed f stop) (receiver_stop rv1, w1, s') =
        Some (receiver_stop (receiver_stop rv1), snd (rx_asked host w1), s')"
      by (rule run_stopped [OF source]) (simp add: receiver_stop_def)
    then show ?thesis using Some until by (simp add: step feed_def)
  qed (simp add: step feed_def)
  ultimately show ?thesis by (simp add: outcome_def fin)
qed

text \<open>One event, from a loop that goes on, and what is left of the run.\<close>

definition ready :: "receiver \<Rightarrow> bool" where
  "ready rv \<longleftrightarrow> \<not> rv_stop rv \<and> length (rv_buffer rv) = kBufferSize"

definition turn_counts :: "rx_event \<Rightarrow> receiver \<Rightarrow> receiver \<Rightarrow> bool" where
  "turn_counts e rv rv1 \<longleftrightarrow> ready rv1 \<and> rv_syscalls rv1 = rv_syscalls rv + 1 \<and>
     (let (got, long) = (case e of Arrives b \<Rightarrow> (rx_fits b, \<not> rx_fits b) | _ \<Rightarrow> (False, False))
      in rv_packets rv1 = rv_packets rv + (if got then 1 else 0) \<and>
         rv_truncated rv1 = rv_truncated rv + (if long then 1 else 0))"

lemma turn_counts_run:
  assumes "turn_counts e rv rv1" and "run_counts es rv1 rv'" and "e = Signal \<or> e = Arrives b"
  shows "run_counts (e # es) rv rv'"
  using assms by (auto simp: turn_counts_def run_counts_def)

lemma run_arrives:
  assumes source: "rx_source pending host" and pend: "pending w = Arrives b # es"
    and rv: "ready rv" and size: "length b < 2 ^ 63"
  shows "\<exists>rv1 w1 pkts. pending w1 = es \<and> turn_counts (Arrives b) rv rv1 \<and>
    list_all2 carries pkts (filter rx_fits [b]) \<and>
    (\<forall>rest fin. outcome TYPE('s) host (rv1, w1) rest fin \<longrightarrow> outcome TYPE('s) host (rv, w) (pkts @ rest) fin)"
proof -
  have live: "\<not> rv_stop rv" and len: "length (rv_buffer rv) = kBufferSize" using rv by (simp_all add: ready_def)
  obtain buf tsc w1 where turn: "pending w1 = es" "length buf = kBufferSize"
    "buf = take (length buf) b @ drop (length b) (rv_buffer rv)"
    and run: "\<And>sink (s :: 's). receiver_run (beside host) sink (rv, w, s) =
      (if (word_of_nat (length b) :: size_t) > word_of_nat (length buf)
       then receiver_run (beside host) sink ((after_call rv buf)\<lparr>rv_truncated := rv_truncated rv + 1\<rparr>, w1, s)
       else do {
         st \<leftarrow> sink \<lparr>pv_data = buf, pv_len = word_of_nat (length b), pv_rx_tsc = tsc\<rparr>
                 ((after_call rv buf)\<lparr>rv_packets := rv_packets rv + 1\<rparr>, w1, s);
         receiver_run (beside host) sink st })"
    by (rule turn_arrives [OF source pend live, unfolded len, where 's = 's]) (rule that)
  have big: "(word_of_nat (length b) :: size_t) > word_of_nat (length buf) \<longleftrightarrow> \<not> rx_fits b"
    using size by (simp add: word_less_nat_alt unat_of_nat_64 turn(2) rx_fits_def kBufferSize_def not_le)
  show ?thesis
  proof (cases "rx_fits b")
    case True
    let ?pkt = "\<lparr>pv_data = buf, pv_len = word_of_nat (length b), pv_rx_tsc = tsc\<rparr>"
    let ?rv = "(after_call rv buf)\<lparr>rv_packets := rv_packets rv + 1\<rparr>"
    have "carries ?pkt b" by (rule filled_view [OF turn(2) _ turn(3)]) (use True in \<open>simp add: rx_fits_def\<close>)
    moreover have "turn_counts (Arrives b) rv ?rv"
      using live turn(2) True by (simp add: turn_counts_def ready_def after_call_def)
    moreover have "outcome TYPE('s) host (rv, w) (?pkt # rest) fin" if "outcome TYPE('s) host (?rv, w1) rest fin" for rest fin
      by (rule outcome_packet [OF source _ that]) (use True in \<open>simp add: run big\<close>)
    ultimately show ?thesis
      using turn(1) True by (intro exI [of _ ?rv] exI [of _ w1] exI [of _ "[?pkt]"]) simp
  next
    case False
    let ?rv = "(after_call rv buf)\<lparr>rv_truncated := rv_truncated rv + 1\<rparr>"
    have "turn_counts (Arrives b) rv ?rv"
      using live turn(2) False by (simp add: turn_counts_def ready_def after_call_def)
    moreover have "outcome TYPE('s) host (rv, w) rest fin" if "outcome TYPE('s) host (?rv, w1) rest fin" for rest fin
      by (rule outcome_skip [OF _ that]) (use False in \<open>simp add: run big\<close>)
    ultimately show ?thesis
      using turn(1) False by (intro exI [of _ ?rv] exI [of _ w1] exI [of _ "[]"]) simp
  qed
qed

lemma run_interrupted:
  assumes source: "rx_source pending host" and pend: "pending w = Signal # es" and rv: "ready rv"
  shows "\<exists>rv1 w1. pending w1 = es \<and> turn_counts Signal rv rv1 \<and>
    (\<forall>rest fin. outcome TYPE('s) host (rv1, w1) rest fin \<longrightarrow> outcome TYPE('s) host (rv, w) rest fin)"
proof -
  have live: "\<not> rv_stop rv" and len: "length (rv_buffer rv) = kBufferSize" using rv by (simp_all add: ready_def)
  obtain buf w1 where turn: "pending w1 = es" "length buf = kBufferSize"
    and run: "\<And>sink (s :: 's). receiver_run (beside host) sink (rv, w, s) = receiver_run (beside host) sink (after_call rv buf, w1, s)"
    by (rule turn_interrupted [OF source pend live, unfolded len, where 's = 's]) (rule that)
  have "turn_counts Signal rv (after_call rv buf)"
    using live turn(2) by (simp add: turn_counts_def ready_def after_call_def)
  then show ?thesis using turn(1) outcome_skip [OF run] by blast
qed

lemma run_fails:
  assumes source: "rx_source pending host" and pend: "pending w = Fails # es" and rv: "ready rv"
  shows "\<exists>rv' w'. run_counts (Fails # es) rv rv' \<and> outcome TYPE('s) host (rv, w) [] (rv', w')"
proof -
  have live: "\<not> rv_stop rv" using rv by (simp add: ready_def)
  obtain buf w1 where
    run: "\<And>sink (s :: 's). receiver_run (beside host) sink (rv, w, s) = Some (after_call rv buf, w1, s)"
    by (rule turn_fails [OF source pend live, where 's = 's]) (rule that)
  have "run_counts (Fails # es) rv (after_call rv buf)" by (simp add: run_counts_def after_call_def)
  then show ?thesis using outcome_end [OF run] by blast
qed

lemma run_events:
  assumes "rx_source pending host" and "small_events (pending w)" and "ready rv"
  shows "\<exists>pkts rv' w'. list_all2 carries pkts (filter rx_fits (rx_seen (pending w))) \<and> run_counts (pending w) rv rv' \<and>
     outcome TYPE('s) host (rv, w) pkts (rv', w')"
  using assms(2,3)
proof (induction "pending w" arbitrary: w rv)
  case Nil
  then have "outcome TYPE('s) host (rv, w) [] (receiver_stop rv, snd (rx_asked host w))"
    by (intro outcome_end run_stopped [OF assms(1)]) simp
  then show ?case unfolding Nil.hyps [symmetric]
    by (intro exI conjI) (auto simp: run_counts_def receiver_stop_def)
next
  case (Cons e es)
  note pend = Cons.hyps(2) [symmetric]
  have small: "small_events (pending w1)" if "pending w1 = es" for w1
    using Cons.prems(1) that by (auto simp: small_events_def pend)
  show ?case
  proof (cases e)
    case (Arrives b)
    have size: "length b < 2 ^ 63" using Cons.prems(1) by (auto simp: small_events_def pend Arrives)
    from run_arrives [OF assms(1) pend [unfolded Arrives] Cons.prems(2) size, where 's = 's] obtain rv1 w1 got
      where turn: "pending w1 = es" "turn_counts (Arrives b) rv rv1" "list_all2 carries got (filter rx_fits [b])"
        and go: "\<And>rest fin. outcome TYPE('s) host (rv1, w1) rest fin \<Longrightarrow> outcome TYPE('s) host (rv, w) (got @ rest) fin"
      by blast
    have "ready rv1" using turn(2) by (simp add: turn_counts_def)
    from Cons.hyps(1) [OF turn(1) [symmetric] small [OF turn(1)] this] obtain pkts rv' w' where
      rest: "list_all2 carries pkts (filter rx_fits (rx_seen es))" "run_counts es rv1 rv'"
        "outcome TYPE('s) host (rv1, w1) pkts (rv', w')" unfolding turn(1) by blast
    have "list_all2 carries (got @ pkts) (filter rx_fits (rx_seen (e # es)))"
      using list_all2_appendI [OF turn(3) rest(1)] by (simp add: Arrives split: if_splits)
    then show ?thesis
      using go [OF rest(3)] turn_counts_run [OF turn(2) rest(2)] unfolding pend Arrives by blast
  next
    case Signal
    from run_interrupted [OF assms(1) pend [unfolded Signal] Cons.prems(2), where 's = 's] obtain rv1 w1
      where turn: "pending w1 = es" "turn_counts Signal rv rv1"
        and go: "\<And>rest fin. outcome TYPE('s) host (rv1, w1) rest fin \<Longrightarrow> outcome TYPE('s) host (rv, w) rest fin"
      by blast
    have "ready rv1" using turn(2) by (simp add: turn_counts_def)
    from Cons.hyps(1) [OF turn(1) [symmetric] small [OF turn(1)] this] obtain pkts rv' w' where
      rest: "list_all2 carries pkts (filter rx_fits (rx_seen es))" "run_counts es rv1 rv'"
        "outcome TYPE('s) host (rv1, w1) pkts (rv', w')" unfolding turn(1) by blast
    then show ?thesis
      using go [OF rest(3)] turn_counts_run [OF turn(2) rest(2)] unfolding pend Signal
      by (intro exI [of _ pkts] exI [of _ rv'] exI [of _ w']) simp
  next
    case Fails
    from run_fails [OF assms(1) pend [unfolded Fails] Cons.prems(2), where 's = 's] show ?thesis
      unfolding pend Fails by auto
  next
    case StopAsked
    have "outcome TYPE('s) host (rv, w) [] (receiver_stop rv, snd (rx_asked host w))"
      by (intro outcome_end run_stopped [OF assms(1)]) (simp add: pend StopAsked)
    then show ?thesis unfolding pend StopAsked
      by (intro exI conjI) (auto simp: run_counts_def receiver_stop_def)
  qed
qed

lemma run_loop:
  assumes "rx_source pending host" and "small_events (pending w)"
    and "\<not> rv_stop rv" and "length (rv_buffer rv) = kBufferSize"
  shows "\<exists>pkts rv' w'. list_all2 carries pkts (filter rx_fits (rx_seen (pending w))) \<and> run_counts (pending w) rv rv' \<and>
     (\<forall>(f :: packet_view \<Rightarrow> 's \<Rightarrow> 's option) s. receiver_run (beside host) (feed f (\<lambda>_. False)) (rv, w, s) = map_option (\<lambda>s. (rv', w', s)) (foldM f pkts s)) \<and>
     (\<forall>(f :: packet_view \<Rightarrow> 's \<Rightarrow> 's option) until s. map_option (snd \<circ> snd) (receiver_run (beside host) (feed f until) (rv, w, s)) = feed_run f until pkts s)"
proof -
  have "ready rv" using assms(3,4) by (simp add: ready_def)
  from run_events [OF assms(1,2) this, where 's = 's] show ?thesis by (fastforce simp: outcome_def)
qed

end
