(* ===== verification/Checksum.thy ===== *)
theory Checksum
  imports Wire_Bytes
begin

text \<open>
  \<open>ip_checksum\<close> of \<open>src/apps/replayer/capture.cc\<close>: the ones' complement sum of the 16 bit words of
  a header. A header with its checksum in place sums to zero, which is how a receiver checks it.
\<close>

section \<open>The code\<close>

text \<open>The loop over the pairs of bytes.\<close>

fun pair_sum :: "bytes \<Rightarrow> u32 \<Rightarrow> u32" where
  "pair_sum (a # b # r) acc = pair_sum r (acc + (push_bit 8 (ucast a) OR ucast b))"
| "pair_sum _ acc = acc"

lemma fold_step_less: "drop_bit 16 (acc :: u32) \<noteq> 0 \<Longrightarrow> unat ((acc AND 0xFFFF) + drop_bit 16 acc) < unat acc"
  and fold_step_unat: "unat ((acc AND 0xFFFF) + drop_bit 16 acc) = unat acc mod 65536 + unat acc div 65536"
proof -
  have mask: "unat (acc AND 0xFFFF) = unat acc mod 65536"
    using unat_and_mask [of acc 16] by (simp add: mask_eq_exp_minus_1)
  have high: "unat (drop_bit 16 acc) = unat acc div 65536" by (simp add: unat_drop_bit_eq drop_bit_eq_div unat_div_distrib)
  have "unat acc < 4294967296" by (rule unat_lt_32)
  then have "unat acc mod 65536 + unat acc div 65536 < 4294967296" by linarith
  then show eq: "unat ((acc AND 0xFFFF) + drop_bit 16 acc) = unat acc mod 65536 + unat acc div 65536"
    by (simp add: unat_word_ariths mask high)
  assume "drop_bit 16 acc \<noteq> 0"
  then have "0 < unat acc div 65536" using high by (metis gr0I unat_eq_0)
  then show "unat ((acc AND 0xFFFF) + drop_bit 16 acc) < unat acc"
    unfolding eq using div_mult_mod_eq [of "unat acc" 65536] by linarith
qed

text \<open>\<open>while (sum >> 16) sum = (sum & 0xFFFF) + (sum >> 16)\<close>.\<close>

function fold_carries :: "u32 \<Rightarrow> u32" where
  "fold_carries acc = (if drop_bit 16 acc = 0 then acc else fold_carries ((acc AND 0xFFFF) + drop_bit 16 acc))"
  by auto
termination
  by (relation "measure unat") (simp_all add: fold_step_less)

declare fold_carries.simps [simp del]

definition ip_checksum :: "bytes \<Rightarrow> nat \<Rightarrow> u16 option" where
  "ip_checksum p n = map_option (\<lambda>q. ucast (NOT (fold_carries (pair_sum q 0)))) (bytes_at p n)"

section \<open>The acc\<close>

text \<open>The exact sum of the words.\<close>

fun words_sum :: "bytes \<Rightarrow> nat" where
  "words_sum (a # b # r) = 256 * unat a + unat b + words_sum r"
| "words_sum _ = 0"

lemma unat_ucast_8_32: "unat (ucast (a :: u8) :: u32) = unat a"
  using unsigned_less [of a, where ?'a = nat] by (simp add: unsigned_ucast_eq take_bit_nat_eq_self)

lemma unat_pair: "unat ((push_bit 8 (ucast a) OR ucast b) :: u32) = 256 * unat (a :: u8) + unat (b :: u8)"
proof -
  have "(push_bit 8 (ucast a) OR ucast b :: u32) = push_bit 8 (ucast a) + ucast b"
    by (intro disjunctive_add_eq_or [symmetric] bit_word_eqI) (auto simp: bit_simps dest: bit_imp_le_length)
  moreover have "unat (push_bit 8 (ucast a) :: u32) = 256 * unat a"
    using unsigned_less [of a, where ?'a = nat] by (simp add: push_bit_eq_mult unat_word_ariths unat_ucast_8_32)
  ultimately show ?thesis
    using unsigned_less [of a, where ?'a = nat] unsigned_less [of b, where ?'a = nat]
    by (simp add: unat_word_ariths unat_ucast_8_32)
qed

lemma words_sum_bound: "2 * words_sum p \<le> 65535 * length p"
proof (induction p rule: words_sum.induct)
  case (1 a b r)
  then show ?case using unsigned_less [of a, where ?'a = nat] unsigned_less [of b, where ?'a = nat] by simp
qed simp_all

lemma unat_pair_sum:
  assumes "unat acc + words_sum p < 4294967296"
  shows "unat (pair_sum p acc) = unat acc + words_sum p"
  using assms
proof (induction p acc rule: pair_sum.induct)
  case (1 a b r acc)
  then have "unat (acc + (push_bit 8 (ucast a) OR ucast b)) = unat acc + (256 * unat a + unat b)"
    by (simp add: unat_word_ariths unat_pair)
  then show ?case using 1 by simp
qed simp_all

text \<open>Folding the carries keeps the sum modulo \<open>2 ^ 16 - 1\<close>, and is zero only for zero.\<close>

lemma fold_carries_mod:
  "unat (fold_carries acc) < 65536" "unat (fold_carries acc) mod 65535 = unat acc mod 65535"
  "unat (fold_carries acc) = 0 \<longleftrightarrow> unat acc = 0"
proof -
  have "unat (fold_carries acc) < 65536 \<and> unat (fold_carries acc) mod 65535 = unat acc mod 65535 \<and>
      (unat (fold_carries acc) = 0 \<longleftrightarrow> unat acc = 0)"
  proof (induction acc rule: fold_carries.induct)
    case (1 acc)
    let ?next = "(acc AND 0xFFFF) + drop_bit 16 acc"
    have high: "unat (drop_bit 16 acc) = unat acc div 65536" by (simp add: unat_drop_bit_eq drop_bit_eq_div unat_div_distrib)
    have split: "unat acc = 65536 * (unat acc div 65536) + unat acc mod 65536" by simp
    show ?case
    proof (cases "drop_bit 16 acc = 0")
      case True
      have "unat acc div 65536 = 0" using high True by simp
      moreover have "fold_carries acc = acc" using True by (subst fold_carries.simps) simp
      ultimately show ?thesis using split by simp
    next
      case False
      have "unat acc = (unat acc mod 65536 + unat acc div 65536) + 65535 * (unat acc div 65536)" using split by linarith
      then have "unat acc mod 65535 = unat ?next mod 65535" unfolding fold_step_unat by (metis mod_mult_self2)
      moreover have "unat ?next = 0 \<longleftrightarrow> unat acc = 0" unfolding fold_step_unat using split by linarith
      moreover have "fold_carries acc = fold_carries ?next" using False by (subst fold_carries.simps) simp
      ultimately show ?thesis using 1 [OF False] by simp
    qed
  qed
  then show "unat (fold_carries acc) < 65536" "unat (fold_carries acc) mod 65535 = unat acc mod 65535"
    "unat (fold_carries acc) = 0 \<longleftrightarrow> unat acc = 0" by blast+
qed

section \<open>A header with its checksum in place\<close>

lemma words_sum_update:
  "Suc (2 * k) < length p \<Longrightarrow>
   words_sum (p[2 * k := a, Suc (2 * k) := b]) + (256 * unat (p ! (2 * k)) + unat (p ! Suc (2 * k))) =
   words_sum p + (256 * unat a + unat b)"
proof (induction p arbitrary: k rule: words_sum.induct)
  case (1 x y r)
  then show ?case by (cases k) simp_all
qed simp_all

lemma unat_complement:
  assumes "unat (s :: u32) < 65536"
  shows "unat (ucast (NOT s) :: u16) = 65535 - unat s"
proof -
  have "unat (NOT s) = 4294967295 - unat s"
  proof -
    have "NOT s = 0xFFFFFFFF - s" by (simp add: not_eq_complement)
    moreover have "s \<le> 0xFFFFFFFF" using unat_lt_32 [of s] by (simp add: word_le_nat_alt)
    ultimately show ?thesis by (simp add: unat_sub)
  qed
  also have "\<dots> = 4294901760 + (65535 - unat s)" using assms by simp
  finally have "unat (NOT s) = (65535 - unat s) + 65536 * 65535" by simp
  then have "unat (NOT s) mod 65536 = 65535 - unat s" by (simp only: mod_mult_self2) simp
  then show ?thesis by (simp add: unsigned_ucast_eq take_bit_eq_mod)
qed

lemma high_low: "256 * unat (ucast (drop_bit 8 c) :: u8) + unat (ucast (c AND 0xFF) :: u8) = unat (c :: u16)"
proof -
  have "unat (ucast (drop_bit 8 c) :: u8) = unat c div 256"
    using unat_lt_16 [of c] by (simp add: unsigned_ucast_eq take_bit_eq_mod unat_drop_bit_eq drop_bit_eq_div unat_div_distrib)
  moreover have "unat (ucast (c AND 0xFF) :: u8) = unat c mod 256"
    using unat_and_mask [of c 8] by (simp add: unsigned_ucast_eq take_bit_eq_mod mask_eq_exp_minus_1)
  ultimately show ?thesis by simp
qed

lemma checksum_verifies:
  assumes "Suc (2 * k) < length p" and "length p \<le> 65536" and "p ! (2 * k) = 0" and "p ! Suc (2 * k) = 0"
    and "ip_checksum p (length p) = Some c"
  shows "ip_checksum (p[2 * k := ucast (drop_bit 8 c), Suc (2 * k) := ucast (c AND 0xFF)]) (length p) = Some 0"
proof -
  let ?p = "p[2 * k := ucast (drop_bit 8 c), Suc (2 * k) := ucast (c AND 0xFF)]"
  let ?s = "fold_carries (pair_sum p 0)" and ?t = "fold_carries (pair_sum ?p 0)"
  have c: "c = ucast (NOT ?s)" using assms(5) by (simp add: ip_checksum_def bytes_at_def)
  have bound: "words_sum q < 4294967296" if "length q \<le> 65536" for q
    using words_sum_bound [of q] that by linarith
  have w: "unat (pair_sum p 0) = words_sum p" using unat_pair_sum [of 0 p] bound assms(2) by simp
  have w': "unat (pair_sum ?p 0) = words_sum ?p" using unat_pair_sum [of 0 ?p] bound assms(2) by simp
  note s = fold_carries_mod [of "pair_sum p 0", unfolded w]
  note t = fold_carries_mod [of "pair_sum ?p 0", unfolded w']
  have "words_sum ?p = words_sum p + unat c"
    using words_sum_update [OF assms(1), of "ucast (drop_bit 8 c)" "ucast (c AND 0xFF)"] assms(3,4)
    by (simp add: high_low)
  then have sum': "words_sum ?p = words_sum p + (65535 - unat ?s)" using unat_complement [OF s(1)] by (simp add: c)
  have "words_sum ?p mod 65535 = (words_sum p mod 65535 + (65535 - unat ?s) mod 65535) mod 65535"
    unfolding sum' by (rule mod_add_eq [symmetric])
  also have "\<dots> = (unat ?s mod 65535 + (65535 - unat ?s) mod 65535) mod 65535" unfolding s(2) ..
  also have "\<dots> = (unat ?s + (65535 - unat ?s)) mod 65535" by (rule mod_add_eq)
  also have "\<dots> = 0" using s(1) by simp
  finally have "unat ?t mod 65535 = 0" using t(2) by simp
  have "words_sum ?p \<noteq> 0" using s(1,3) unfolding sum' by (cases "unat ?s = 65535") auto
  then have "unat ?t \<noteq> 0" using t(3) by simp
  moreover obtain q where "unat ?t = 65535 * q" using \<open>unat ?t mod 65535 = 0\<close> by (metis dvdE mod_0_imp_dvd)
  ultimately have "unat ?t = 65535" using t(1) by (cases "q = 1") auto
  then have "unat (ucast (NOT ?t) :: u16) = 0" using unat_complement [OF t(1)] by simp
  then have "(ucast (NOT ?t) :: u16) = 0" by (simp add: unsigned_eq_0_iff)
  then show ?thesis by (simp add: ip_checksum_def bytes_at_def)
qed

end
