(* ===== verification/Doubles.thy ===== *)
theory Doubles
  imports Prelude Complex_Main "HOL-Library.Log_Nat"
begin

text \<open>
  The floating point arithmetic the code uses, on the rationals that are the values of finite
  \<open>double\<close>s: every operation computes exactly and rounds to 53 significant bits, ties to even.
  Infinities, numbers that are not numbers and the subnormal range are left out: the code
  multiplies counts by rates and by tick lengths, which are far from both ends.
\<close>

section \<open>Rounding\<close>

text \<open>The exponent \<open>e\<close> with \<open>2 ^ e \<le> \<bar>x\<bar> < 2 ^ (e + 1)\<close>, from the bit lengths of the fraction.\<close>

definition pow2 :: "int \<Rightarrow> rat" where
  "pow2 e = (if 0 \<le> e then 2 ^ nat e else 1 / 2 ^ nat (- e))"

definition exponent_of :: "rat \<Rightarrow> int" where
  "exponent_of x =
     (let (p, q) = quotient_of \<bar>x\<bar>; e = int (floorlog 2 (nat p)) - int (floorlog 2 (nat q))
      in if pow2 e \<le> \<bar>x\<bar> then e else e - 1)"

definition round_even :: "rat \<Rightarrow> int" where
  "round_even y =
     (let f = \<lfloor>y\<rfloor>; r = y - of_int f
      in if r < 1 / 2 then f else if 1 / 2 < r then f + 1 else if even f then f else f + 1)"

definition fl :: "rat \<Rightarrow> rat" where
  "fl x = (if x = 0 then 0
     else let e = exponent_of x - 52 in of_int (round_even (x / pow2 e)) * pow2 e)"

text \<open>Conversions: from \<open>uint64_t\<close>, and truncation, which has no result out of range.\<close>

definition double_of_u64 :: "u64 \<Rightarrow> rat" where
  "double_of_u64 w = fl (of_nat (unat w))"

definition trunc :: "rat \<Rightarrow> int" where
  "trunc x = (if 0 \<le> x then \<lfloor>x\<rfloor> else \<lceil>x\<rceil>)"

definition u64_of_double :: "rat \<Rightarrow> u64 option" where
  "u64_of_double x = (if 0 \<le> trunc x \<and> trunc x < 2 ^ 64 then Some (word_of_int (trunc x)) else None)"

definition i64_of_double :: "rat \<Rightarrow> int option" where
  "i64_of_double x = (if - (2 ^ 63) \<le> trunc x \<and> trunc x < 2 ^ 63 then Some (trunc x) else None)"

section \<open>Whole numbers of at most 53 bits are exact\<close>

lemma pow2_pos: "0 < pow2 e"
  by (simp add: pow2_def)

lemma round_even_int [simp]: "round_even (of_int n) = n"
  by (simp add: round_even_def)

lemma trunc_int [simp]: "trunc (of_int n) = n"
  by (simp add: trunc_def)

lemma exponent_of_int:
  assumes "0 < n" and "n < 2 ^ 53"
  shows "exponent_of (of_int n) \<le> 52"
proof -
  have n: "floorlog 2 (nat n) \<le> 53"
    using assms by (intro floorlog_leI) (simp_all add: nat_less_iff)
  have one: "floorlog 2 (nat 1) = 1" by code_simp
  have "quotient_of \<bar>of_int n\<bar> = (n, 1)" using assms(1) by simp
  then show ?thesis unfolding exponent_of_def Let_def by (simp only: prod.case one) (use n in simp)
qed

lemma fl_int:
  assumes "0 \<le> n" and "n < 2 ^ 53"
  shows "fl (of_int n) = of_int n"
proof (cases "n = 0")
  case False
  define k where "k = nat (52 - exponent_of (of_int n))"
  have e: "exponent_of (of_int n :: rat) - 52 = - int k" using exponent_of_int [of n] assms False by (simp add: k_def)
  then have "pow2 (exponent_of (of_int n) - 52) = 1 / 2 ^ k" by (cases "k = 0") (simp_all add: pow2_def)
  moreover have "(of_int n :: rat) / (1 / 2 ^ k) = of_int (n * 2 ^ k)" by simp
  ultimately show ?thesis using False by (simp add: fl_def Let_def del: of_int_mult) simp
qed (simp add: fl_def)

lemma fl_nat: "n < 2 ^ 53 \<Longrightarrow> fl (of_nat n) = of_nat n"
  using fl_int [of "int n"] by simp

end
