(* ===== verification/C_Text.thy ===== *)
theory C_Text
  imports Doubles
begin

text \<open>
  The C library's conversions between text and numbers, as far as the programs use them:
  \<open>strtoull\<close> in base 10, \<open>atoi\<close>, \<open>atof\<close> on decimal numbers, and the decimal digits \<open>printf\<close>
  writes. \<open>printf\<close> and the readers are proved to be inverse.
\<close>

section \<open>Reading\<close>

text \<open>\<open>c_str\<close> ends at the first null character.\<close>

definition c_str :: "string \<Rightarrow> string" where
  "c_str s = takeWhile (\<lambda>c. c \<noteq> CHR 0x00) s"

definition is_space :: "char \<Rightarrow> bool" where
  "is_space c \<longleftrightarrow> c = CHR '' '' \<or> ((9 :: nat) \<le> of_char c \<and> of_char c \<le> (13 :: nat))"

definition is_digit :: "char \<Rightarrow> bool" where
  "is_digit c \<longleftrightarrow> (48 :: nat) \<le> of_char c \<and> of_char c \<le> (57 :: nat)"

definition digit_value :: "char \<Rightarrow> nat" where
  "digit_value c = of_char c - 48"

definition decimal_value :: "string \<Rightarrow> nat" where
  "decimal_value s = foldl (\<lambda>v c. 10 * v + digit_value c) 0 s"

text \<open>The sign and what follows it.\<close>

definition take_sign :: "string \<Rightarrow> bool \<times> string" where
  "take_sign s = (case s of
     [] \<Rightarrow> (False, [])
   | c # r \<Rightarrow> if c = CHR ''-'' then (True, r) else if c = CHR ''+'' then (False, r) else (False, s))"

definition signed_digits :: "string \<Rightarrow> bool \<times> nat" where
  "signed_digits s =
     (let (neg, r) = take_sign (dropWhile is_space (c_str s)) in (neg, decimal_value (takeWhile is_digit r)))"

text \<open>\<open>strtoull (s, nullptr, 10)\<close> returns the largest value for a number out of range.\<close>

definition strtoull :: "string \<Rightarrow> u64" where
  "strtoull s =
     (let (neg, v) = signed_digits s
      in if v > 18446744073709551615 then 18446744073709551615
         else if neg then - word_of_nat v else word_of_nat v)"

text \<open>\<open>atoi\<close> has no defined result for a number out of the range of \<open>int\<close>.\<close>

definition atoi :: "string \<Rightarrow> int option" where
  "atoi s =
     (let (neg, v) = signed_digits s; z = (if neg then - int v else int v)
      in if - 2147483648 \<le> z \<and> z \<le> 2147483647 then Some z else None)"

text \<open>
  \<open>atof\<close> on decimal numbers: digits, a fraction and an exponent, rounded. Hexadecimal numbers,
  infinities and what is not a number have no value in \<open>Doubles\<close>, nor here.
\<close>

definition take_exponent :: "string \<Rightarrow> int" where
  "take_exponent s = (case s of
     [] \<Rightarrow> 0
   | c # r \<Rightarrow> if c = CHR ''e'' \<or> c = CHR ''E''
       then (let (neg, r) = take_sign r; v = int (decimal_value (takeWhile is_digit r)) in if neg then - v else v)
       else 0)"

definition ten_to :: "int \<Rightarrow> rat" where
  "ten_to e = (if 0 \<le> e then 10 ^ nat e else 1 / 10 ^ nat (- e))"

definition special_number :: "string \<Rightarrow> bool" where
  "special_number s \<longleftrightarrow> take 2 s \<in> {''0x'', ''0X''} \<or> (s \<noteq> [] \<and> hd s \<in> set ''iInN'')"

definition atof :: "string \<Rightarrow> rat option" where
  "atof s =
     (let (neg, r) = take_sign (dropWhile is_space (c_str s))
      in if special_number r then None
         else
           (let whole = takeWhile is_digit r; r = dropWhile is_digit r;
                fraction = (if r \<noteq> [] \<and> hd r = CHR ''.'' then takeWhile is_digit (tl r) else []);
                r = (if r \<noteq> [] \<and> hd r = CHR ''.'' then dropWhile is_digit (tl r) else r);
                e = (if whole = [] \<and> fraction = [] then 0 else take_exponent r);
                x = of_nat (decimal_value (whole @ fraction)) * ten_to (e - int (length fraction))
            in Some (fl (if neg then - x else x))))"

section \<open>Writing\<close>

definition digit_char :: "nat \<Rightarrow> char" where
  "digit_char d = char_of (48 + d)"

text \<open>The digits of \<open>%llu\<close> and \<open>%u\<close>.\<close>

fun decimal :: "nat \<Rightarrow> string" where
  "decimal n = (if n < 10 then [digit_char n] else decimal (n div 10) @ [digit_char (n mod 10)])"

declare decimal.simps [simp del]

section \<open>Reading what was written\<close>

lemma digit_char_less:
  assumes "d < 10"
  shows "is_digit (digit_char d)" and "digit_value (digit_char d) = d"
  using assms by (simp_all add: is_digit_def digit_value_def digit_char_def of_char_of)

lemma decimal_value_snoc [simp]: "decimal_value (s @ [c]) = 10 * decimal_value s + digit_value c"
  by (simp add: decimal_value_def)

lemma decimal_digits: "\<forall>c \<in> set (decimal n). is_digit c"
  by (induction n rule: decimal.induct) (subst decimal.simps, auto simp: digit_char_less)

lemma decimal_value_decimal [simp]: "decimal_value (decimal n) = n"
proof (induction n rule: decimal.induct)
  case (1 n)
  show ?case
    by (subst decimal.simps) (use 1 in \<open>auto simp: digit_char_less decimal_value_def [of "[_]"]\<close>)
qed

lemma decimal_not_Nil [simp]: "decimal n \<noteq> []"
  by (subst decimal.simps) simp

lemma digit_not:
  assumes "is_digit c"
  shows "c \<noteq> CHR 0x00" and "\<not> is_space c" and "c \<noteq> CHR ''-''" and "c \<noteq> CHR ''+''" and "c \<noteq> CHR '' ''" and "c \<noteq> CHR 0x0A"
  using assms by (auto simp: is_digit_def is_space_def)

lemma signed_digits_decimal:
  assumes "r = [] \<or> \<not> is_digit (hd r)"
  shows "signed_digits (decimal n @ r) = (False, n)"
proof -
  obtain c cs where d: "decimal n = c # cs" by (cases "decimal n") simp_all
  have digits: "\<forall>x \<in> set (c # cs). is_digit x" using decimal_digits [of n] by (simp add: d)
  have c: "is_digit c" using digits by simp
  have str: "c_str ((c # cs) @ r) = (c # cs) @ c_str r"
    unfolding c_str_def using digits digit_not(1) by (intro takeWhile_append2) blast
  have "takeWhile is_digit ((c # cs) @ c_str r) = c # cs"
  proof (cases "c_str r = []")
    case False
    then have "hd (c_str r) = hd r" and "r \<noteq> []" by (cases r; simp add: c_str_def split: if_splits)+
    then show ?thesis using digits assms False by (cases "c_str r") (auto simp: takeWhile_append)
  qed (use digits in \<open>auto simp: takeWhile_append\<close>)
  moreover have "take_sign ((c # cs) @ c_str r) = (False, (c # cs) @ c_str r)"
    using digit_not(3,4) [OF c] by (simp add: take_sign_def)
  moreover have "dropWhile is_space ((c # cs) @ c_str r) = (c # cs) @ c_str r"
    using digit_not(2) [OF c] by simp
  ultimately have "signed_digits ((c # cs) @ r) = (False, decimal_value (c # cs))"
    unfolding signed_digits_def str by simp
  then show ?thesis using decimal_value_decimal [of n] by (simp add: d)
qed

lemma strtoull_decimal [simp]: "strtoull (decimal (unat w)) = w"
proof -
  have "\<not> unat w > 18446744073709551615" using unsigned_less [of w, where ?'a = nat] by simp
  then show ?thesis using signed_digits_decimal [of "[]" "unat w"] by (simp add: strtoull_def)
qed

lemma atoi_decimal: "n < 2 ^ 31 \<Longrightarrow> atoi (decimal n) = Some (int n)"
  using signed_digits_decimal [of "[]" n] by (simp add: atoi_def)

section \<open>Words of a line\<close>

fun split_on :: "char \<Rightarrow> string \<Rightarrow> string list" where
  "split_on c [] = [[]]"
| "split_on c (x # xs) =
     (if x = c then [] # split_on c xs
      else (case split_on c xs of [] \<Rightarrow> [[x]] | y # ys \<Rightarrow> (x # y) # ys))"

lemma split_on_word: "c \<notin> set w \<Longrightarrow> split_on c w = [w]"
  by (induction w) auto

lemma split_on_append: "c \<notin> set w \<Longrightarrow> split_on c (w @ c # r) = w # split_on c r"
  by (induction w) auto

lemma split_on_not_Nil [simp]: "split_on c s \<noteq> []"
  by (cases s) (auto split: list.splits)

lemma split_on_cases:
  obtains "c \<notin> set s" | w r where "s = w @ c # r" and "c \<notin> set w"
  using split_list_first [of c s] by blast

fun str_contains :: "string \<Rightarrow> string \<Rightarrow> bool" where
  "str_contains needle [] \<longleftrightarrow> needle = []"
| "str_contains needle (x # xs) \<longleftrightarrow> take (length needle) (x # xs) = needle \<or> str_contains needle xs"

lemma contains_skip:
  assumes "c \<notin> set w"
  shows "str_contains (c # n) (w @ ys) \<longleftrightarrow> str_contains (c # n) ys"
  using assms by (induction w) auto

lemma take_between:
  assumes "c \<notin> set u" and "c \<notin> set w"
  shows "take (length u + 1) (w @ c # ys) = u @ [c] \<longleftrightarrow> w = u"
proof
  assume eq: "take (length u + 1) (w @ c # ys) = u @ [c]"
  show "w = u"
  proof (cases "length w \<le> length u")
    case True
    then have "w @ take (length u + 1 - length w) (c # ys) = u @ [c]" using eq by simp
    moreover obtain k where "length u + 1 - length w = Suc k" using True by (metis Suc_diff_le Suc_eq_plus1)
    ultimately have "w @ c # take k ys = u @ c # []" by simp
    then have "takeWhile (\<lambda>x. x \<noteq> c) (w @ c # take k ys) = takeWhile (\<lambda>x. x \<noteq> c) (u @ c # [])" by (rule arg_cong)
    moreover have "takeWhile (\<lambda>x. x \<noteq> c) (v @ c # zs) = v" if "c \<notin> set v" for v zs
      using that by (subst takeWhile_append2) auto
    ultimately show ?thesis using assms by metis
  next
    case False
    then have "take (length u + 1) w = u @ [c]" using eq by simp
    then have "c \<in> set w" by (metis in_set_conv_decomp in_set_takeD)
    then show ?thesis using assms(2) by simp
  qed
qed simp

text \<open>A word of a padded line is a word between two separators.\<close>

lemma contains_word:
  assumes "c \<notin> set u"
  shows "str_contains (c # u @ [c]) (c # s @ [c]) \<longleftrightarrow> u \<in> set (split_on c s)"
proof (induction "length s" arbitrary: s rule: less_induct)
  case less
  show ?case
  proof (cases rule: split_on_cases [of c s])
    case 1
    have "str_contains (c # u @ [c]) (s @ [c]) \<longleftrightarrow> False" using contains_skip [OF 1, of "u @ [c]" "[c]"] by simp
    then show ?thesis using take_between [OF assms 1, of "[]"] by (auto simp: split_on_word [OF 1])
  next
    case (2 w r)
    have "str_contains (c # u @ [c]) (s @ [c]) \<longleftrightarrow> str_contains (c # u @ [c]) (c # r @ [c])"
      unfolding 2(1) using contains_skip [OF 2(2), of "u @ [c]" "c # r @ [c]"] by simp
    also have "\<dots> \<longleftrightarrow> u \<in> set (split_on c r)" by (rule less) (simp add: 2(1))
    finally show ?thesis
      using take_between [OF assms 2(2), of "r @ [c]"] by (auto simp: 2(1) split_on_append [OF 2(2)])
  qed
qed

end
