(* ===== verification/Sockets.thy ===== *)
theory Sockets
  imports C_Text
begin

text \<open>
  Opening and closing the sockets: \<open>open_udp_socket\<close> of \<open>src/receive/socket_setup.cc\<close>, the
  constructor and destructor of \<open>UdpSender\<close> (\<open>src/mold/udp_sender.cc\<close>) and of
  \<open>RecvfromReceiver\<close> (\<open>src/receive/recvfrom_receiver.cc\<close>). The system calls are a parameter over
  a state of the world of any type; a thrown \<open>runtime_error\<close> is \<open>Inl\<close> its message.
\<close>

section \<open>The system calls\<close>

record sockaddr =
  sin_port :: u16
  sin_addr :: u32

text \<open>\<open>htons\<close> and \<open>ntohs\<close> on the little endian target.\<close>

definition htons :: "u16 \<Rightarrow> u16" where
  "htons p = push_bit 8 p OR drop_bit 8 p"

definition ntohs :: "u16 \<Rightarrow> u16" where
  "ntohs p = push_bit 8 p OR drop_bit 8 p"

definition INADDR_ANY :: u32 where
  "INADDR_ANY = 0"

datatype sock_opt =
    SO_REUSEADDR int
  | IP_ADD_MEMBERSHIP u32 u32
  | IP_MULTICAST_TTL u8
  | IP_MULTICAST_LOOP u8
  | IP_MULTICAST_IF u32
  | SO_SNDBUF int

text \<open>
  \<open>sk_getsockopt\<close> takes what the variable for the result holds and returns what it holds after;
  \<open>sk_pton\<close> is \<open>inet_pton\<close> for \<open>AF_INET\<close>, \<open>None\<close> when it does not return 1.
\<close>

record 'w sock_host =
  sk_socket :: "'w \<Rightarrow> int \<times> 'w"
  sk_close :: "int \<Rightarrow> 'w \<Rightarrow> 'w"
  sk_setopt :: "int \<Rightarrow> sock_opt \<Rightarrow> 'w \<Rightarrow> int \<times> 'w"
  sk_bind :: "int \<Rightarrow> sockaddr \<Rightarrow> 'w \<Rightarrow> int \<times> 'w"
  sk_getsockname :: "int \<Rightarrow> 'w \<Rightarrow> int \<times> sockaddr \<times> 'w"
  sk_getsockopt :: "int \<Rightarrow> int \<Rightarrow> 'w \<Rightarrow> int \<times> 'w"
  sk_pton :: "string \<Rightarrow> u32 option"
  sk_errno :: "'w \<Rightarrow> int"
  sk_strerror :: "int \<Rightarrow> string"

section \<open>The receiving socket\<close>

text \<open>The lambda \<open>fail\<close>: \<open>errno\<close> is saved before the close.\<close>

definition setup_fail :: "'w sock_host \<Rightarrow> int \<Rightarrow> string \<Rightarrow> 'w \<Rightarrow> (string + 'a) \<times> 'w" where
  "setup_fail host fd what w =
     (let e = sk_errno host w; w = sk_close host fd w
      in (Inl (what @ '': '' @ sk_strerror host e), w))"

text \<open>\<open>want_port\<close> says whether \<open>bound_port\<close> is not null; the result has the port it is set to.\<close>

definition read_port :: "'w sock_host \<Rightarrow> bool \<Rightarrow> int \<Rightarrow> 'w \<Rightarrow> (string + int \<times> u16 option) \<times> 'w" where
  "read_port host want_port fd w =
     (if want_port
      then (let (r, got, w) = sk_getsockname host fd w
            in if r < 0 then setup_fail host fd ''getsockname'' w
               else (Inr (fd, Some (ntohs (sin_port got))), w))
      else (Inr (fd, None), w))"

definition join_group :: "'w sock_host \<Rightarrow> string \<Rightarrow> string \<Rightarrow> bool \<Rightarrow> int \<Rightarrow> 'w \<Rightarrow> (string + int \<times> u16 option) \<times> 'w" where
  "join_group host bind_host multicast_group want_port fd w =
     (case sk_pton host (c_str multicast_group) of
        None \<Rightarrow> setup_fail host fd ''bad multicast group'' w
      | Some grp \<Rightarrow>
          (let interface = (case sk_pton host (c_str bind_host) of None \<Rightarrow> INADDR_ANY | Some a \<Rightarrow> a);
               (r, w) = sk_setopt host fd (IP_ADD_MEMBERSHIP grp interface) w
           in if r < 0 then setup_fail host fd ''IP_ADD_MEMBERSHIP'' w
              else read_port host want_port fd w))"

definition open_udp_socket :: "'w sock_host \<Rightarrow> string \<Rightarrow> u16 \<Rightarrow> bool \<Rightarrow> string \<Rightarrow> bool \<Rightarrow> 'w \<Rightarrow>
    (string + int \<times> u16 option) \<times> 'w" where
  "open_udp_socket host bind_host port multicast multicast_group want_port w =
     (let (fd, w) = sk_socket host w
      in if fd < 0 then (Inl (''socket: '' @ sk_strerror host (sk_errno host w)), w)
         else
           (let (r, w) = sk_setopt host fd (SO_REUSEADDR 1) w
            in if r < 0 then setup_fail host fd ''SO_REUSEADDR'' w
               else case (if multicast then Some INADDR_ANY else sk_pton host (c_str bind_host)) of
                 None \<Rightarrow> setup_fail host fd ''bad bind address'' w
               | Some addr \<Rightarrow>
                   (let (r, w) = sk_bind host fd \<lparr>sin_port = htons port, sin_addr = addr\<rparr> w
                    in if r < 0 then setup_fail host fd ''bind'' w
                       else if multicast then join_group host bind_host multicast_group want_port fd w
                       else read_port host want_port fd w)))"

section \<open>The sending socket\<close>

record send_socket =
  ss_fd :: int
  ss_dest :: sockaddr
  ss_effective_sndbuf :: int

definition sender_fd :: "send_socket \<Rightarrow> int" where
  "sender_fd ss = ss_fd ss"

definition effective_send_buffer :: "send_socket \<Rightarrow> int" where
  "effective_send_buffer ss = ss_effective_sndbuf ss"

lemmas socket_reads [simp] = sender_fd_def effective_send_buffer_def

text \<open>\<open>fail\<close> of \<open>udp_sender.cc\<close> reads \<open>errno\<close> when it builds the message.\<close>

definition sender_fail :: "'w sock_host \<Rightarrow> string \<Rightarrow> 'w \<Rightarrow> (string + 'a) \<times> 'w" where
  "sender_fail host what w = (Inl (what @ '': '' @ sk_strerror host (sk_errno host w)), w)"

text \<open>The multicast options, set until one fails.\<close>

fun set_options :: "'w sock_host \<Rightarrow> int \<Rightarrow> sock_opt list \<Rightarrow> 'w \<Rightarrow> bool \<times> 'w" where
  "set_options host fd [] w = (True, w)"
| "set_options host fd (opt # opts) w =
     (let (r, w) = sk_setopt host fd opt w in if r < 0 then (False, w) else set_options host fd opts w)"

definition send_buffer_part :: "'w sock_host \<Rightarrow> int \<Rightarrow> int \<Rightarrow> sockaddr \<Rightarrow> 'w \<Rightarrow> (string + send_socket) \<times> 'w" where
  "send_buffer_part host send_buffer fd dest w =
     (let (ok, w) = (if send_buffer > 0 then set_options host fd [SO_SNDBUF send_buffer] w else (True, w))
      in if \<not> ok then sender_fail host ''setsockopt SO_SNDBUF'' (sk_close host fd w)
         else (let (granted, w) = sk_getsockopt host fd 0 w
               in (Inr \<lparr>ss_fd = fd, ss_dest = dest, ss_effective_sndbuf = granted\<rparr>, w)))"

definition open_sender :: "'w sock_host \<Rightarrow> string \<Rightarrow> u16 \<Rightarrow> bool \<Rightarrow> string \<Rightarrow> int \<Rightarrow> 'w \<Rightarrow> (string + send_socket) \<times> 'w" where
  "open_sender host host_name port multicast interface send_buffer w =
     (let (fd, w) = sk_socket host w
      in if fd < 0 then sender_fail host ''socket'' w
         else case sk_pton host (c_str host_name) of
           None \<Rightarrow> (Inl (''bad IPv4 address: '' @ host_name), sk_close host fd w)
         | Some addr \<Rightarrow>
             (let dest = \<lparr>sin_port = htons port, sin_addr = addr\<rparr>
              in if multicast
                 then case sk_pton host (c_str interface) of
                   None \<Rightarrow> (Inl (''bad interface address: '' @ interface), sk_close host fd w)
                 | Some ifaddr \<Rightarrow>
                     (let (ok, w) = set_options host fd
                        [IP_MULTICAST_TTL 1, IP_MULTICAST_LOOP 1, IP_MULTICAST_IF ifaddr] w
                      in if \<not> ok then sender_fail host ''setsockopt multicast'' (sk_close host fd w)
                         else send_buffer_part host send_buffer fd dest w)
                 else send_buffer_part host send_buffer fd dest w))"

text \<open>The destructors of \<open>UdpSender\<close> and \<open>RecvfromReceiver\<close>.\<close>

definition close_socket :: "'w sock_host \<Rightarrow> int \<Rightarrow> 'w \<Rightarrow> 'w" where
  "close_socket host fd w = (if fd \<ge> 0 then sk_close host fd w else w)"

section \<open>The socket of a receiver\<close>

text \<open>
  The constructor of \<open>RecvfromReceiver\<close>: the descriptor and the port actually bound, \<open>port_\<close> being
  0 until it is read; and its destructor.
\<close>

definition open_receiver :: "'w sock_host \<Rightarrow> string \<Rightarrow> u16 \<Rightarrow> bool \<Rightarrow> string \<Rightarrow> 'w \<Rightarrow> (string + int \<times> u16) \<times> 'w" where
  "open_receiver host bind_host port multicast multicast_group w =
     (let (res, w) = open_udp_socket host bind_host port multicast multicast_group True w
      in (map_sum id (\<lambda>(fd, got). (fd, case got of None \<Rightarrow> 0 | Some p \<Rightarrow> p)) res, w))"

definition close_receiver :: "'w sock_host \<Rightarrow> int \<Rightarrow> 'w \<Rightarrow> 'w" where
  "close_receiver host fd w = (if fd \<ge> 0 then sk_close host fd w else w)"

section \<open>The calls made\<close>

text \<open>
  The documented behaviour of the calls, over a record \<open>calls w\<close> of those that succeeded: a new
  descriptor is not one that is open, a failing call changes nothing, and \<open>close\<close> gives the
  descriptor back.
\<close>

datatype sock_call = Opened int | Closed int | SetOpt int sock_opt | Bound int sockaddr

fun open_step :: "sock_call \<Rightarrow> int set \<Rightarrow> int set" where
  "open_step (Opened fd) fds = insert fd fds"
| "open_step (Closed fd) fds = fds - {fd}"
| "open_step _ fds = fds"

definition open_fds :: "sock_call list \<Rightarrow> int set" where
  "open_fds cs = fold open_step cs {}"

lemma open_fds_snoc [simp]: "open_fds (cs @ [c]) = open_step c (open_fds cs)"
  by (simp add: open_fds_def)

lemma open_fds_append2 [simp]: "open_fds (cs @ c # ds) = fold open_step ds (open_step c (open_fds cs))"
  by (simp add: open_fds_def)

definition socket_laws :: "('w \<Rightarrow> sock_call list) \<Rightarrow> 'w sock_host \<Rightarrow> bool" where
  "socket_laws calls host \<longleftrightarrow>
     (\<forall>w fd w'. sk_socket host w = (fd, w') \<longrightarrow>
        (fd < 0 \<and> calls w' = calls w) \<or> (0 \<le> fd \<and> fd \<notin> open_fds (calls w) \<and> calls w' = calls w @ [Opened fd])) \<and>
     (\<forall>fd w. calls (sk_close host fd w) = calls w @ [Closed fd]) \<and>
     (\<forall>fd opt w r w'. sk_setopt host fd opt w = (r, w') \<longrightarrow>
        (r < 0 \<and> calls w' = calls w) \<or> (0 \<le> r \<and> calls w' = calls w @ [SetOpt fd opt])) \<and>
     (\<forall>fd addr w r w'. sk_bind host fd addr w = (r, w') \<longrightarrow>
        (r < 0 \<and> calls w' = calls w) \<or> (0 \<le> r \<and> calls w' = calls w @ [Bound fd addr])) \<and>
     (\<forall>fd w. calls (snd (snd (sk_getsockname host fd w))) = calls w) \<and>
     (\<forall>fd v w. calls (snd (sk_getsockopt host fd v w)) = calls w)"

text \<open>Whatever the outcome of a call, only the calls named in it are recorded.\<close>

lemma socket_law:
  assumes "socket_laws calls host"
  obtains "fst (sk_socket host w) < 0" and "calls (snd (sk_socket host w)) = calls w"
  | "0 \<le> fst (sk_socket host w)" and "fst (sk_socket host w) \<notin> open_fds (calls w)"
    and "calls (snd (sk_socket host w)) = calls w @ [Opened (fst (sk_socket host w))]"
proof -
  obtain fd w' where "sk_socket host w = (fd, w')" by fastforce
  moreover from this have "(fd < 0 \<and> calls w' = calls w) \<or> (0 \<le> fd \<and> fd \<notin> open_fds (calls w) \<and> calls w' = calls w @ [Opened fd])"
    using assms by (simp add: socket_laws_def)
  ultimately show thesis using that by auto
qed

lemma setopt_law:
  assumes "socket_laws calls host"
  shows "calls (snd (sk_setopt host fd opt w)) = (if fst (sk_setopt host fd opt w) < 0 then calls w else calls w @ [SetOpt fd opt])"
proof -
  obtain r w' where "sk_setopt host fd opt w = (r, w')" by fastforce
  moreover from this have "(r < 0 \<and> calls w' = calls w) \<or> (0 \<le> r \<and> calls w' = calls w @ [SetOpt fd opt])"
    using assms by (simp add: socket_laws_def)
  ultimately show ?thesis by auto
qed

lemma bind_law:
  assumes "socket_laws calls host"
  shows "calls (snd (sk_bind host fd addr w)) = (if fst (sk_bind host fd addr w) < 0 then calls w else calls w @ [Bound fd addr])"
proof -
  obtain r w' where "sk_bind host fd addr w = (r, w')" by fastforce
  moreover from this have "(r < 0 \<and> calls w' = calls w) \<or> (0 \<le> r \<and> calls w' = calls w @ [Bound fd addr])"
    using assms by (simp add: socket_laws_def)
  ultimately show ?thesis by auto
qed

lemma quiet_laws:
  assumes "socket_laws calls host"
  shows "calls (sk_close host fd w) = calls w @ [Closed fd]"
    and "calls (snd (snd (sk_getsockname host fd w))) = calls w"
    and "calls (snd (sk_getsockopt host fd v w)) = calls w"
  using assms by (simp_all add: socket_laws_def)

lemmas call_laws = setopt_law bind_law quiet_laws

section \<open>No descriptor is lost\<close>

text \<open>What an attempt to open a socket leaves behind: \<open>made fd\<close> are the calls of a success.\<close>

definition opens_or_restores :: "sock_call list \<Rightarrow> (int \<Rightarrow> sock_call list \<Rightarrow> bool) \<Rightarrow> (string + int) \<Rightarrow> sock_call list \<Rightarrow> bool" where
  "opens_or_restores before made res after \<longleftrightarrow>
     (case res of
        Inl msg \<Rightarrow> open_fds after = open_fds before
      | Inr fd \<Rightarrow> 0 \<le> fd \<and> fd \<notin> open_fds before \<and>
          (\<exists>cs. made fd cs \<and> after = before @ Opened fd # cs \<and> open_fds after = insert fd (open_fds before)))"

definition receive_calls :: "'w sock_host \<Rightarrow> string \<Rightarrow> u16 \<Rightarrow> bool \<Rightarrow> string \<Rightarrow> int \<Rightarrow> sock_call list \<Rightarrow> bool" where
  "receive_calls host bind_host port multicast multicast_group fd cs \<longleftrightarrow>
     (if multicast
      then \<exists>grp. sk_pton host (c_str multicast_group) = Some grp \<and>
        cs = [SetOpt fd (SO_REUSEADDR 1), Bound fd \<lparr>sin_port = htons port, sin_addr = INADDR_ANY\<rparr>,
              SetOpt fd (IP_ADD_MEMBERSHIP grp (case sk_pton host (c_str bind_host) of None \<Rightarrow> INADDR_ANY | Some a \<Rightarrow> a))]
      else \<exists>addr. sk_pton host (c_str bind_host) = Some addr \<and>
        cs = [SetOpt fd (SO_REUSEADDR 1), Bound fd \<lparr>sin_port = htons port, sin_addr = addr\<rparr>])"

lemma open_udp_socket_calls:
  assumes "socket_laws calls host"
  shows "opens_or_restores (calls w) (receive_calls host bind_host port multicast multicast_group)
     (map_sum id fst (fst (open_udp_socket host bind_host port multicast multicast_group want_port w)))
     (calls (snd (open_udp_socket host bind_host port multicast multicast_group want_port w)))"
proof (cases rule: socket_law [OF assms, of w])
  case 1
  then show ?thesis by (simp add: open_udp_socket_def opens_or_restores_def case_prod_unfold Let_def)
next
  case 2
  then show ?thesis
    by (auto simp: open_udp_socket_def join_group_def read_port_def setup_fail_def opens_or_restores_def receive_calls_def
        case_prod_unfold Let_def call_laws [OF assms] split: option.split)
qed

definition sender_calls :: "'w sock_host \<Rightarrow> bool \<Rightarrow> string \<Rightarrow> int \<Rightarrow> int \<Rightarrow> sock_call list \<Rightarrow> bool" where
  "sender_calls host multicast interface send_buffer fd cs \<longleftrightarrow>
     (\<exists>opts. cs = map (SetOpt fd) (opts @ (if send_buffer > 0 then [SO_SNDBUF send_buffer] else [])) \<and>
        (if multicast then \<exists>ifaddr. sk_pton host (c_str interface) = Some ifaddr \<and>
           opts = [IP_MULTICAST_TTL 1, IP_MULTICAST_LOOP 1, IP_MULTICAST_IF ifaddr]
         else opts = []))"

lemma set_options_calls:
  assumes "socket_laws calls host"
  shows "\<exists>made. calls (snd (set_options host fd opts w)) = calls w @ map (SetOpt fd) made \<and>
     (fst (set_options host fd opts w) \<longrightarrow> made = opts)"
proof (induction opts arbitrary: w)
  case (Cons opt opts)
  let ?w = "snd (sk_setopt host fd opt w)"
  from Cons.IH obtain ds where ds: "calls (snd (set_options host fd opts ?w)) = calls ?w @ map (SetOpt fd) ds"
    "fst (set_options host fd opts ?w) \<longrightarrow> ds = opts" by blast
  show ?case
  proof (cases "fst (sk_setopt host fd opt w) < 0")
    case True
    then show ?thesis by (intro exI [of _ "[]"]) (simp add: case_prod_unfold Let_def call_laws [OF assms])
  next
    case False
    then show ?thesis
      by (intro exI [of _ "opt # ds"]) (use ds in \<open>simp add: case_prod_unfold Let_def call_laws [OF assms]\<close>)
  qed
qed simp

lemma fold_open_options [simp]: "fold open_step (map (SetOpt fd) opts) fds = fds"
  by (induction opts) simp_all

lemma open_fds_options [simp]: "open_fds (cs @ map (SetOpt fd) opts) = open_fds cs"
  by (simp add: open_fds_def)

lemma send_buffer_part_calls:
  assumes "socket_laws calls host" and "calls w = before @ Opened fd # map (SetOpt fd) opts"
    and "0 \<le> fd" and "fd \<notin> open_fds before"
  shows "opens_or_restores before
     (\<lambda>fd cs. cs = map (SetOpt fd) (opts @ (if send_buffer > 0 then [SO_SNDBUF send_buffer] else [])))
     (map_sum id ss_fd (fst (send_buffer_part host send_buffer fd dest w)))
     (calls (snd (send_buffer_part host send_buffer fd dest w)))"
  using assms(2-4)
  by (auto simp: send_buffer_part_def sender_fail_def opens_or_restores_def case_prod_unfold Let_def call_laws [OF assms(1)])

lemma open_sender_calls:
  assumes "socket_laws calls host"
  shows "opens_or_restores (calls w) (sender_calls host multicast interface send_buffer)
     (map_sum id ss_fd (fst (open_sender host host_name port multicast interface send_buffer w)))
     (calls (snd (open_sender host host_name port multicast interface send_buffer w)))"
proof (cases rule: socket_law [OF assms, of w])
  case 1
  then show ?thesis by (simp add: open_sender_def sender_fail_def opens_or_restores_def case_prod_unfold Let_def)
next
  case 2
  let ?fd = "fst (sk_socket host w)" and ?w = "snd (sk_socket host w)"
  define dest where "dest = \<lparr>sin_port = htons port, sin_addr = the (sk_pton host (c_str host_name))\<rparr>"
  show ?thesis
  proof (cases "sk_pton host (c_str host_name)")
    case None
    then show ?thesis using 2
      by (simp add: open_sender_def opens_or_restores_def case_prod_unfold Let_def call_laws [OF assms])
  next
    case dst: (Some addr)
    show ?thesis
    proof (cases multicast)
      case False
      have "opens_or_restores (calls w)
          (\<lambda>fd cs. cs = map (SetOpt fd) ([] @ (if send_buffer > 0 then [SO_SNDBUF send_buffer] else [])))
          (map_sum id ss_fd (fst (send_buffer_part host send_buffer ?fd dest ?w)))
          (calls (snd (send_buffer_part host send_buffer ?fd dest ?w)))"
        by (rule send_buffer_part_calls [OF assms]) (use 2 in simp_all)
      then show ?thesis using 2 dst False
        by (simp add: open_sender_def case_prod_unfold Let_def dest_def sender_calls_def opens_or_restores_def
            split: sum.splits)
    next
      case True
      show ?thesis
      proof (cases "sk_pton host (c_str interface)")
        case None
        then show ?thesis using 2 dst True
          by (simp add: open_sender_def opens_or_restores_def case_prod_unfold Let_def call_laws [OF assms])
      next
        case (Some ifaddr)
        let ?opts = "[IP_MULTICAST_TTL 1, IP_MULTICAST_LOOP 1, IP_MULTICAST_IF ifaddr]"
        let ?r = "set_options host ?fd ?opts ?w"
        obtain ds where ds: "calls (snd ?r) = calls ?w @ map (SetOpt ?fd) ds" "fst ?r \<longrightarrow> ds = ?opts"
          using set_options_calls [OF assms] by blast
        show ?thesis
        proof (cases "fst ?r")
          case False
          then show ?thesis using 2 dst True Some ds(1)
            by (simp add: open_sender_def opens_or_restores_def sender_fail_def case_prod_unfold Let_def
                call_laws [OF assms] del: set_options.simps)
        next
          case ok: True
          have "opens_or_restores (calls w)
              (\<lambda>fd cs. cs = map (SetOpt fd) (?opts @ (if send_buffer > 0 then [SO_SNDBUF send_buffer] else [])))
              (map_sum id ss_fd (fst (send_buffer_part host send_buffer ?fd dest (snd ?r))))
              (calls (snd (send_buffer_part host send_buffer ?fd dest (snd ?r))))"
            by (rule send_buffer_part_calls [OF assms]) (use 2 ds ok in \<open>simp_all del: set_options.simps\<close>)
          then show ?thesis using 2 dst True Some ok
            by (simp add: open_sender_def case_prod_unfold Let_def dest_def sender_calls_def opens_or_restores_def
                del: set_options.simps split: sum.splits)
        qed
      qed
    qed
  qed
qed

text \<open>The destructor gives the descriptor back.\<close>

lemma close_socket_restores:
  assumes "socket_laws calls host" and "opens_or_restores before made (Inr fd) (calls w)"
  shows "open_fds (calls (close_socket host fd w)) = open_fds before"
  using assms(2) by (auto simp: opens_or_restores_def close_socket_def call_laws [OF assms(1)])

lemma open_receiver_calls:
  assumes "socket_laws calls host"
  shows "opens_or_restores (calls w) (receive_calls host bind_host port multicast multicast_group)
     (map_sum id fst (fst (open_receiver host bind_host port multicast multicast_group w)))
     (calls (snd (open_receiver host bind_host port multicast multicast_group w)))"
proof -
  have "map_sum id fst (map_sum id (\<lambda>(fd, got). (fd, case got of None \<Rightarrow> 0 | Some p \<Rightarrow> p)) res) = map_sum id fst res"
    for res :: "string + int \<times> u16 option"
    by (cases res) (simp_all add: case_prod_unfold)
  then show ?thesis
    using open_udp_socket_calls [OF assms, of w bind_host port multicast multicast_group True]
    by (simp add: open_receiver_def case_prod_unfold Let_def)
qed

lemma close_receiver_restores:
  assumes "socket_laws calls host" and "opens_or_restores before made (Inr fd) (calls w)"
  shows "open_fds (calls (close_receiver host fd w)) = open_fds before"
  using close_socket_restores [OF assms] by (simp add: close_receiver_def close_socket_def)

lemma ntohs_htons: "ntohs (htons p) = p"
  by (rule bit_word_eqI) (auto simp: ntohs_def htons_def bit_simps)

end
