(* ===== verification/Capture.thy ===== *)
theory Capture
  imports Packer Checksum Sockets
begin

text \<open>
  The capture tool, \<open>src/apps/replayer/capture.cc\<close>: it binds a socket, receives a number of
  datagrams and writes each to a pcap file behind an IPv4 and a UDP header it makes up. The bytes
  of the file are what is handed to \<open>fwrite\<close>; the system calls are a parameter.
\<close>

section \<open>The file\<close>

text \<open>\<open>put32\<close> and \<open>put16\<close> write in the byte order of the little endian host, which is also how
  addresses and ports lie in memory.\<close>

definition put32 :: "u32 \<Rightarrow> bytes" where
  "put32 v = [ucast v, ucast (drop_bit 8 v), ucast (drop_bit 16 v), ucast (drop_bit 24 v)]"

definition put16 :: "u16 \<Rightarrow> bytes" where
  "put16 v = [ucast v, ucast (drop_bit 8 v)]"

definition pcap_global :: bytes where
  "pcap_global = put32 0xa1b2c3d4 @ put16 2 @ put16 4 @ put32 0 @ put32 0 @ put32 65535 @ put32 228"

text \<open>The 28 bytes of \<open>hdr\<close>.\<close>

definition capture_header :: "sockaddr \<Rightarrow> u32 \<Rightarrow> u16 \<Rightarrow> u16 \<Rightarrow> bytes option" where
  "capture_header from dst port payload =
     (let total = 20 + 8 + payload;
          hdr = (replicate 28 0)[0 := 0x45, 2 := ucast (drop_bit 8 total), 3 := ucast (total AND 0xFF), 8 := 64, 9 := 17]
      in do {
        hdr \<leftarrow> vwrite hdr 12 (put32 (sin_addr from));
        hdr \<leftarrow> vwrite hdr 16 (put32 dst);
        csum \<leftarrow> ip_checksum hdr 20;
        let hdr = hdr[10 := ucast (drop_bit 8 csum), 11 := ucast (csum AND 0xFF)];
        hdr \<leftarrow> vwrite hdr 20 (put16 (sin_port from));
        hdr \<leftarrow> vwrite hdr 22 (put16 (htons port));
        let ulen = 8 + payload;
        Some (hdr[24 := ucast (drop_bit 8 ulen), 25 := ucast (ulen AND 0xFF)]) })"

definition capture_record :: "int \<Rightarrow> int \<Rightarrow> bytes \<Rightarrow> u16 \<Rightarrow> bytes \<Rightarrow> bytes option" where
  "capture_record sec usec hdr payload buf =
     map_option (\<lambda>b. put32 (word_of_int sec) @ put32 (word_of_int usec) @ put32 (28 + ucast payload) @
         put32 (28 + ucast payload) @ hdr @ b)
       (bytes_at buf (unat payload))"

section \<open>The program\<close>

record 'w capture_host =
  cp_sock :: "'w sock_host"
  cp_fopen :: "string \<Rightarrow> 'w \<Rightarrow> bool \<times> 'w"
  cp_recvfrom :: "int \<Rightarrow> bytes \<Rightarrow> 'w \<Rightarrow> int \<times> bytes \<times> sockaddr \<times> 'w"
  cp_gettimeofday :: "'w \<Rightarrow> (int \<times> int) \<times> 'w"

record capture_options =
  co_port :: u16
  co_group :: string
  co_out :: string
  co_count :: int

definition default_capture :: capture_options where
  "default_capture = \<lparr>co_port = 26477, co_group = [], co_out = ''capture.pcap'', co_count = 5\<rparr>"

fun capture_args :: "capture_options \<Rightarrow> string list \<Rightarrow> (int + capture_options) option" where
  "capture_args opts [] = Some (Inr opts)"
| "capture_args opts [a] = Some (Inl 2)"
| "capture_args opts (a # v # args) =
     (if a = ''--port'' then Option.bind (atoi v) (\<lambda>n. capture_args (opts\<lparr>co_port := word_of_int n\<rparr>) args)
      else if a = ''--group'' then capture_args (opts\<lparr>co_group := v\<rparr>) args
      else if a = ''--out'' then capture_args (opts\<lparr>co_out := v\<rparr>) args
      else if a = ''--count'' then Option.bind (atoi v) (\<lambda>n. capture_args (opts\<lparr>co_count := n\<rparr>) args)
      else Some (Inl 2))"

text \<open>The file so far and what was printed of each packet: its number, its size and its header.\<close>

record capture_log =
  cl_file :: bytes
  cl_printed :: "(nat \<times> int \<times> mold_header) list"

definition group_address :: "'w capture_host \<Rightarrow> capture_options \<Rightarrow> u32" where
  "group_address host opts = (case sk_pton (cp_sock host) (c_str (co_group opts)) of None \<Rightarrow> 0 | Some a \<Rightarrow> a)"

text \<open>One datagram written.\<close>

definition capture_packet :: "'w capture_host \<Rightarrow> capture_options \<Rightarrow> nat \<Rightarrow> int \<Rightarrow> bytes \<Rightarrow> sockaddr \<Rightarrow> int \<times> int \<Rightarrow>
    capture_log \<Rightarrow> capture_log option" where
  "capture_packet host opts n got buf from tv cl =
     (let payload = word_of_int got;
          dst = (if co_group opts = [] then sin_addr from else group_address host opts)
      in do {
        hdr \<leftarrow> capture_header from dst (co_port opts) payload;
        rec \<leftarrow> capture_record (fst tv) (snd tv) hdr payload buf;
        let cl = cl\<lparr>cl_file := cl_file cl @ rec\<rparr>;
        if got \<ge> int kHeaderSize
        then map_option (\<lambda>h. cl\<lparr>cl_printed := cl_printed cl @ [(n, got, h)]\<rparr>) (mold_decode_header buf)
        else Some cl })"

text \<open>\<open>left\<close> is \<open>count - n\<close>.\<close>

fun capture_loop :: "'w capture_host \<Rightarrow> capture_options \<Rightarrow> int \<Rightarrow> nat \<Rightarrow> nat \<Rightarrow> bytes \<Rightarrow> capture_log \<times> 'w \<Rightarrow>
    (capture_log \<times> 'w) option" where
  "capture_loop host opts fd 0 n buf (cl, w) = Some (cl, w)"
| "capture_loop host opts fd (Suc left) n buf (cl, w) =
     (let (got, buf, from, w) = cp_recvfrom host fd buf w
      in if got < 0 then Some (cl, w)
         else
           (let (tv, w) = cp_gettimeofday host w
            in do { cl \<leftarrow> capture_packet host opts n got buf from tv cl;
                    capture_loop host opts fd left (n + 1) buf (cl, w) }))"

definition capture_run :: "'w capture_host \<Rightarrow> capture_options \<Rightarrow> int \<Rightarrow> 'w \<Rightarrow> (capture_log \<times> 'w) option" where
  "capture_run host opts fd w =
     capture_loop host opts fd (nat (co_count opts)) 0 (replicate 65536 0)
       (\<lparr>cl_file = pcap_global, cl_printed = []\<rparr>, w)"

text \<open>The socket and the file; \<open>None\<close> is the early \<open>return 1\<close>.\<close>

definition capture_open :: "'w capture_host \<Rightarrow> capture_options \<Rightarrow> 'w \<Rightarrow> int option \<times> 'w" where
  "capture_open host opts w =
     (let sk = cp_sock host;
          (fd, w) = sk_socket sk w;
          (_, w) = sk_setopt sk fd (SO_REUSEADDR 1) w;
          (r, w) = sk_bind sk fd \<lparr>sin_port = htons (co_port opts), sin_addr = INADDR_ANY\<rparr> w
      in if r < 0 then (None, w)
         else
           (let (r, w) = (if co_group opts = [] then (0, w)
                          else sk_setopt sk fd (IP_ADD_MEMBERSHIP (group_address host opts) INADDR_ANY) w)
            in if r < 0 then (None, w)
               else (let (ok, w) = cp_fopen host (c_str (co_out opts)) w in (if ok then Some fd else None, w))))"

definition capture_main :: "'w capture_host \<Rightarrow> string list \<Rightarrow> 'w \<Rightarrow> (int \<times> capture_log option \<times> 'w) option" where
  "capture_main host args w =
     do { parsed \<leftarrow> capture_args default_capture args;
          case parsed of
            Inl code \<Rightarrow> Some (code, None, w)
          | Inr opts \<Rightarrow>
              (case capture_open host opts w of
                 (None, w) \<Rightarrow> Some (1, None, w)
               | (Some fd, w) \<Rightarrow>
                   do { (cl, w) \<leftarrow> capture_run host opts fd w;
                        Some (0, Some cl, sk_close (cp_sock host) fd w) }) }"

section \<open>What a pcap file says\<close>

definition le32 :: "bytes \<Rightarrow> u32" where
  "le32 b = ucast (b ! 0) OR push_bit 8 (ucast (b ! 1)) OR push_bit 16 (ucast (b ! 2)) OR push_bit 24 (ucast (b ! 3))"

lemma le32_put32: "le32 (put32 v @ r) = v"
proof (rule bit_word_eqI)
  fix n
  assume "n < LENGTH(32)"
  then have "n < 8 \<or> 8 \<le> n \<and> n < 16 \<or> 16 \<le> n \<and> n < 24 \<or> 24 \<le> n \<and> n < 32" by auto
  then show "bit (le32 (put32 v @ r)) n = bit v n"
    by (elim disjE; simp add: le32_def put32_def bit_simps; auto)
qed

lemma length_put [simp]: "length (put32 v) = 4" "length (put16 p) = 2"
  by (simp_all add: put32_def put16_def)

function read_records :: "bytes \<Rightarrow> (u32 \<times> u32 \<times> bytes) list" where
  "read_records bs =
     (if length bs < 16 then []
      else (let n = unat (le32 (drop 8 bs))
            in (le32 bs, le32 (drop 4 bs), take n (drop 16 bs)) # read_records (drop (16 + n) bs)))"
  by auto
termination
  by (relation "measure length") auto

declare read_records.simps [simp del]

definition read_pcap :: "bytes \<Rightarrow> (u32 \<times> u32 \<times> bytes) list option" where
  "read_pcap bs = (if length bs < 24 \<or> le32 bs \<noteq> 0xa1b2c3d4 \<or> le32 (drop 20 bs) \<noteq> 228 then None
     else Some (read_records (drop 24 bs)))"

lemma read_record:
  assumes "length pkt < 2 ^ 32"
  shows "read_records (put32 sec @ put32 usec @ put32 (word_of_nat (length pkt)) @ put32 v @ pkt @ r) =
    (sec, usec, pkt) # read_records r"
proof -
  have n: "unat (word_of_nat (length pkt) :: u32) = length pkt"
    using assms by (simp add: unat_of_nat take_bit_nat_eq_self)
  have "le32 (drop 4 (put32 sec @ put32 usec @ x)) = usec" for x using le32_put32 [of usec x] by simp
  moreover have "le32 (drop 8 (put32 sec @ put32 usec @ put32 l @ x)) = l" for l x using le32_put32 [of l x] by simp
  ultimately show ?thesis by (subst read_records.simps) (simp add: le32_put32 n Let_def)
qed

lemma read_global: "read_pcap (pcap_global @ r) = Some (read_records r)"
proof -
  have "le32 (pcap_global @ r) = 0xa1b2c3d4" unfolding pcap_global_def append_assoc by (rule le32_put32)
  moreover have "le32 (drop 20 (pcap_global @ r)) = 228"
    using le32_put32 [of 228 r] by (simp add: pcap_global_def)
  moreover have "length pcap_global = 24" by (simp add: pcap_global_def)
  ultimately show ?thesis by (simp add: read_pcap_def)
qed

section \<open>The headers of a packet\<close>

lemma mask_255: "(255 :: u16) = mask 8"
  by (simp add: mask_eq_exp_minus_1)

lemma be16_pair: "be16 (ucast (drop_bit 8 x) # ucast (x AND 0xFF) # r) = Some x"
proof -
  have "ucast (push_bit 8 (ucast (ucast (drop_bit 8 x) :: u8)) OR ucast (ucast (x AND 0xFF) :: u8) :: u32) = x"
    by (rule bit_word_eqI) (auto simp: bit_simps mask_255)
  then show ?thesis by (simp add: be16_def bytes_at_def be_step_def)
qed

lemma put16_htons: "put16 (htons p) = [ucast (drop_bit 8 p), ucast (p AND 0xFF)]"
proof -
  have "(ucast (htons p) :: u8) = ucast (drop_bit 8 p)"
    by (rule bit_word_eqI) (auto simp: htons_def bit_simps)
  moreover have "(ucast (drop_bit 8 (htons p)) :: u8) = ucast (p AND 0xFF)"
    by (rule bit_word_eqI) (auto simp: htons_def bit_simps mask_255)
  ultimately show ?thesis by (simp add: put16_def)
qed

definition ip_start :: "u16 \<Rightarrow> bytes" where
  "ip_start tlen = [0x45, 0, ucast (drop_bit 8 tlen), ucast (tlen AND 0xFF), 0, 0, 0, 0, 64, 17]"

definition ip_fields :: "sockaddr \<Rightarrow> u32 \<Rightarrow> u16 \<Rightarrow> u16 \<Rightarrow> bytes" where
  "ip_fields from dst tlen csum =
     ip_start tlen @ [ucast (drop_bit 8 csum), ucast (csum AND 0xFF)] @ put32 (sin_addr from) @ put32 dst"

definition udp_fields :: "sockaddr \<Rightarrow> u16 \<Rightarrow> u16 \<Rightarrow> bytes" where
  "udp_fields from port ulen =
     put16 (sin_port from) @ put16 (htons port) @ [ucast (drop_bit 8 ulen), ucast (ulen AND 0xFF), 0, 0]"

lemma length_fields [simp]: "length (ip_fields from dst tlen csum) = 20" "length (udp_fields from port ulen) = 8"
  by (simp_all add: ip_fields_def udp_fields_def ip_start_def)

lemma capture_header_fields:
  obtains csum where "capture_header from dst port payload =
      Some (ip_fields from dst (20 + 8 + payload) csum @ udp_fields from port (8 + payload))"
    and "ip_checksum (ip_fields from dst (20 + 8 + payload) csum) 20 = Some 0"
proof -
  let ?t = "20 + 8 + payload"
  let ?z = "ip_fields from dst ?t 0"
  have csum: "ip_checksum (?z @ r) 20 = ip_checksum ?z 20" for r by (simp add: ip_checksum_def bytes_at_def)
  obtain c where c: "ip_checksum ?z 20 = Some c" by (simp add: ip_checksum_def bytes_at_def)
  have put: "?z[10 := ucast (drop_bit 8 c), 11 := ucast (c AND 0xFF)] = ip_fields from dst ?t c"
    by (simp add: ip_fields_def ip_start_def)
  have "?z ! (2 * 5) = 0" "?z ! Suc (2 * 5) = 0" by (simp_all add: ip_fields_def ip_start_def)
  from checksum_verifies [OF _ _ this, of c] c
  have ok: "ip_checksum (ip_fields from dst ?t c) 20 = Some 0" using put by simp
  let ?hdr = "(replicate 28 0)[0 := 0x45, 2 := ucast (drop_bit 8 ?t), 3 := ucast (?t AND 0xFF), 8 := 64, 9 := 17] :: bytes"
  have h0: "?hdr = ip_start ?t @ replicate 18 0"
    by (simp add: ip_start_def numeral_eq_Suc)
  have h1: "vwrite ?hdr 12 (put32 (sin_addr from)) = Some (ip_start ?t @ [0, 0] @ put32 (sin_addr from) @ replicate 12 0)"
    unfolding h0 by (simp add: vwrite_def ip_start_def numeral_eq_Suc)
  have h2: "vwrite (ip_start ?t @ [0, 0] @ put32 (sin_addr from) @ replicate 12 0) 16 (put32 dst) = Some (?z @ replicate 8 0)"
    by (simp add: vwrite_def ip_start_def ip_fields_def numeral_eq_Suc)
  let ?i = "ip_fields from dst ?t c"
  have h3: "(?z @ replicate 8 0)[10 := ucast (drop_bit 8 c), 11 := ucast (c AND 0xFF)] = ?i @ replicate 8 0"
    using put by (simp add: list_update_append)
  have h4: "vwrite (?i @ replicate 8 0) 20 (put16 x) = Some (?i @ put16 x @ replicate 6 0)" for x
    by (simp add: vwrite_def)
  have h5: "vwrite (?i @ put16 x @ replicate 6 0) 22 (put16 y) = Some (?i @ put16 x @ put16 y @ replicate 4 0)" for x y
    by (simp add: vwrite_def)
  have h6: "(?i @ put16 x @ put16 y @ replicate 4 0)[24 := a, 25 := b] = ?i @ put16 x @ put16 y @ [a, b, 0, 0]" for x y a b
    by (simp add: list_update_append numeral_eq_Suc)
  have "capture_header from dst port payload = Some (?i @ udp_fields from port (8 + payload))"
    unfolding capture_header_def Let_def h1 bind.bind_lunit h2 csum c h3 h4 h5 h6 udp_fields_def append_assoc ..
  then show thesis using ok that by blast
qed

text \<open>What an IP packet made from a datagram says.\<close>

definition packet_says :: "sockaddr \<Rightarrow> u32 \<Rightarrow> u16 \<Rightarrow> bytes \<Rightarrow> bytes \<Rightarrow> bool" where
  "packet_says from dst port b pkt \<longleftrightarrow>
     ip_checksum pkt 20 = Some 0 \<and> take 1 pkt = [0x45] \<and> take 1 (drop 9 pkt) = [17] \<and>
     be16 (drop 2 pkt) = Some (word_of_nat (length pkt)) \<and>
     take 4 (drop 12 pkt) = put32 (sin_addr from) \<and> take 4 (drop 16 pkt) = put32 dst \<and>
     take 2 (drop 20 pkt) = put16 (sin_port from) \<and> be16 (drop 22 pkt) = Some port \<and>
     be16 (drop 24 pkt) = Some (word_of_nat (8 + length b)) \<and> drop 28 pkt = b"

lemma header_says:
  assumes "ip_checksum (ip_fields from dst (20 + 8 + payload) c) 20 = Some 0" and "payload = word_of_nat (length b)"
  shows "packet_says from dst port b (ip_fields from dst (20 + 8 + payload) c @ udp_fields from port (8 + payload) @ b)"
proof -
  let ?i = "ip_fields from dst (20 + 8 + payload) c" and ?u = "udp_fields from port (8 + payload)"
  have "take 4 (drop 12 (?i @ ?u @ b)) = put32 (sin_addr from)" "take 4 (drop 16 (?i @ ?u @ b)) = put32 dst"
    "take 1 (?i @ ?u @ b) = [0x45]" "take 1 (drop 9 (?i @ ?u @ b)) = [17]"
    by (simp_all add: ip_fields_def ip_start_def)
  moreover have "drop 2 (?i @ ?u @ b) = ucast (drop_bit 8 (28 + payload)) # ucast ((28 + payload) AND 0xFF) # drop 4 (?i @ ?u @ b)"
    by (simp add: ip_fields_def ip_start_def)
  moreover have "drop 22 (?i @ ?u @ b) = ucast (drop_bit 8 port) # ucast (port AND 0xFF) # drop 4 (?u @ b)"
    "drop 24 (?i @ ?u @ b) = ucast (drop_bit 8 (8 + payload)) # ucast ((8 + payload) AND 0xFF) # drop 6 (?u @ b)"
    "take 2 (drop 20 (?i @ ?u @ b)) = put16 (sin_port from)"
    by (simp_all add: udp_fields_def put16_htons drop_append)
  moreover have "ip_checksum (?i @ ?u @ b) 20 = Some 0" using assms(1) by (simp add: ip_checksum_def bytes_at_def)
  ultimately show ?thesis
    unfolding packet_says_def be16_pair assms(2) by (simp only: be16_pair) (simp add: add.commute)
qed

section \<open>What a run captures\<close>

text \<open>
  The documented behaviour of \<open>recvfrom\<close> on a socket to which \<open>arrivals w\<close> come, each with its
  sender, after which it fails: the datagram is at the front of the buffer.
\<close>

definition capture_source :: "('w \<Rightarrow> (bytes \<times> sockaddr) list) \<Rightarrow> 'w capture_host \<Rightarrow> bool" where
  "capture_source arrivals host \<longleftrightarrow>
     (\<forall>fd buf w got buf' from w'. cp_recvfrom host fd buf w = (got, buf', from, w') \<longrightarrow>
        (case arrivals w of
           [] \<Rightarrow> got < 0
         | (b, f) # as \<Rightarrow> length b \<le> length buf \<longrightarrow>
             got = int (length b) \<and> buf' = b @ drop (length b) buf \<and> from = f \<and> arrivals w' = as)) \<and>
     (\<forall>w. arrivals (snd (cp_gettimeofday host w)) = arrivals w)"

lemma capture_source_call:
  assumes "capture_source arrivals host" and "cp_recvfrom host fd buf w = (got, buf', src, w')"
  shows "arrivals w = [] \<Longrightarrow> got < 0"
    and "arrivals w = (b, f) # as \<Longrightarrow> length b \<le> length buf \<Longrightarrow>
      got = int (length b) \<and> buf' = b @ drop (length b) buf \<and> src = f \<and> arrivals w' = as"
proof -
  have law: "case arrivals w of
      [] \<Rightarrow> got < 0
    | (b, f) # as \<Rightarrow> length b \<le> length buf \<longrightarrow>
        got = int (length b) \<and> buf' = b @ drop (length b) buf \<and> src = f \<and> arrivals w' = as"
    using assms unfolding capture_source_def by blast
  show "got < 0" if "arrivals w = []" using law that by simp
  show "got = int (length b) \<and> buf' = b @ drop (length b) buf \<and> src = f \<and> arrivals w' = as"
    if "arrivals w = (b, f) # as" and "length b \<le> length buf" using law that by simp
qed

definition packet_dst :: "'w capture_host \<Rightarrow> capture_options \<Rightarrow> sockaddr \<Rightarrow> u32" where
  "packet_dst host opts from = (if co_group opts = [] then sin_addr from else group_address host opts)"

definition captured :: "'w capture_host \<Rightarrow> capture_options \<Rightarrow> bytes \<times> sockaddr \<Rightarrow> u32 \<times> u32 \<times> bytes \<Rightarrow> bool" where
  "captured host opts = (\<lambda>(b, from) (sec, usec, pkt). packet_says from (packet_dst host opts from) (co_port opts) b pkt)"

lemma capture_packet_record:
  assumes "length b \<le> 65507" and "length buf = 65536" and "take (length b) buf = b"
  shows "\<exists>cl' raw sec usec pkt. capture_packet host opts n (int (length b)) buf from tv cl = Some cl' \<and>
     cl_file cl' = cl_file cl @ raw \<and> (\<forall>r. read_records (raw @ r) = (sec, usec, pkt) # read_records r) \<and>
     captured host opts (b, from) (sec, usec, pkt)"
proof -
  let ?payload = "word_of_nat (length b) :: u16" and ?dst = "packet_dst host opts from"
  have n: "unat ?payload = length b" using assms(1) by (simp add: unat_of_nat take_bit_nat_eq_self)
  obtain c where c: "capture_header from ?dst (co_port opts) ?payload =
      Some (ip_fields from ?dst (20 + 8 + ?payload) c @ udp_fields from (co_port opts) (8 + ?payload))"
    "ip_checksum (ip_fields from ?dst (20 + 8 + ?payload) c) 20 = Some 0"
    by (rule capture_header_fields)
  let ?hdr = "ip_fields from ?dst (20 + 8 + ?payload) c @ udp_fields from (co_port opts) (8 + ?payload)"
  let ?rec = "put32 (word_of_int (fst tv)) @ put32 (word_of_int (snd tv)) @ put32 (28 + ucast ?payload) @
    put32 (28 + ucast ?payload) @ (?hdr @ b)"
  have "(ucast ?payload :: u32) = word_of_nat (length b)" using n of_nat_unat [of ?payload] by metis
  then have len: "28 + ucast ?payload = (word_of_nat (length (?hdr @ b)) :: u32)" by simp
  have small: "length (?hdr @ b) < 2 ^ 32" using assms(1) by simp
  have "capture_record (fst tv) (snd tv) ?hdr ?payload buf = Some ?rec"
    using assms n by (simp add: capture_record_def bytes_at_def)
  moreover obtain h where "mold_decode_header buf = Some h"
    using mold_decode_eq [of buf] assms(2) by (auto simp: kHeaderSize_def)
  ultimately obtain cl' where cl': "capture_packet host opts n (int (length b)) buf from tv cl = Some cl'"
    "cl_file cl' = cl_file cl @ ?rec"
    using c(1) by (cases "kHeaderSize \<le> length b") (auto simp: capture_packet_def packet_dst_def Let_def)
  have "read_records (?rec @ r) =
      (word_of_int (fst tv), word_of_int (snd tv), ?hdr @ b) # read_records r" for r
    unfolding len append_assoc using read_record [OF small] by simp
  moreover have "captured host opts (b, from) (word_of_int (fst tv), word_of_int (snd tv), ?hdr @ b)"
    using header_says [OF c(2) refl] by (simp add: captured_def)
  ultimately show ?thesis using cl' by blast
qed

lemma capture_loop_records:
  assumes "capture_source arrivals host" and "\<forall>(b, from) \<in> set (arrivals w). length b \<le> 65507" and "length buf = 65536"
  shows "\<exists>cl' w' raw recs. capture_loop host opts fd left n buf (cl, w) = Some (cl', w') \<and>
     cl_file cl' = cl_file cl @ raw \<and> read_records raw = recs \<and>
     list_all2 (captured host opts) (take left (arrivals w)) recs"
  using assms(2,3)
proof (induction left arbitrary: n buf cl w)
  case 0
  then show ?case by (intro exI [of _ cl] exI [of _ w] exI [of _ "[]"] exI [of _ "[]"]) (simp add: read_records.simps)
next
  case (Suc left)
  obtain got buf' src w1 where call: "cp_recvfrom host fd buf w = (got, buf', src, w1)" by (metis surj_pair)
  obtain tv w2 where time: "cp_gettimeofday host w1 = (tv, w2)" by fastforce
  show ?case
  proof (cases "arrivals w")
    case Nil
    have "got < 0" by (rule capture_source_call(1) [OF assms(1) call Nil])
    then show ?thesis
      by (intro exI [of _ cl] exI [of _ w1] exI [of _ "[]"] exI [of _ "[]"]) (simp add: call Nil read_records.simps)
  next
    case (Cons bf as)
    obtain b f where bf: "bf = (b, f)" by fastforce
    have "length b \<le> 65507" using Suc.prems(1) by (simp add: Cons bf)
    then have got: "got = int (length b)" "buf' = b @ drop (length b) buf" "src = f" "arrivals w1 = as"
      using capture_source_call(2) [OF assms(1) call, of b f as] Suc.prems(2) by (simp_all add: Cons bf)
    have w2: "arrivals w2 = as" using assms(1) time got(4) unfolding capture_source_def by (metis snd_conv)
    have buf': "length buf' = 65536" "take (length b) buf' = b" using got(2) Suc.prems(2) \<open>length b \<le> 65507\<close> by simp_all
    obtain cl1 raw sec usec pkt where one:
      "capture_packet host opts n (int (length b)) buf' src tv cl = Some cl1" "cl_file cl1 = cl_file cl @ raw"
      "\<And>r. read_records (raw @ r) = (sec, usec, pkt) # read_records r" "captured host opts (b, src) (sec, usec, pkt)"
      using capture_packet_record [OF \<open>length b \<le> 65507\<close> buf'] by blast
    have "\<forall>(b, from) \<in> set (arrivals w2). length b \<le> 65507" using Suc.prems(1) by (simp add: Cons w2)
    from Suc.IH [OF this buf'(1), of "n + 1" cl1] obtain cl' w' raw' where rest:
      "capture_loop host opts fd left (n + 1) buf' (cl1, w2) = Some (cl', w')" "cl_file cl' = cl_file cl1 @ raw'"
      "list_all2 (captured host opts) (take left as) (read_records raw')"
      unfolding w2 by blast
    have "capture_loop host opts fd (Suc left) n buf (cl, w) = Some (cl', w')"
      using one(1) rest(1) by (simp add: call time got(1))
    moreover have "cl_file cl' = cl_file cl @ (raw @ raw')" using one(2) rest(2) by simp
    moreover have "list_all2 (captured host opts) (take (Suc left) (arrivals w)) (read_records (raw @ raw'))"
      using one(3,4) rest(3) by (simp add: Cons bf got(3))
    ultimately show ?thesis by blast
  qed
qed

lemma capture_run_file:
  assumes "capture_source arrivals host" and "\<forall>(b, from) \<in> set (arrivals w). length b \<le> 65507"
  shows "\<exists>cl w' recs. capture_run host opts fd w = Some (cl, w') \<and> read_pcap (cl_file cl) = Some recs \<and>
     list_all2 (captured host opts) (take (nat (co_count opts)) (arrivals w)) recs"
  using capture_loop_records [OF assms, of "replicate 65536 0" opts fd "nat (co_count opts)" 0
      "\<lparr>cl_file = pcap_global, cl_printed = []\<rparr>"]
  by (auto simp: capture_run_def read_global)

end
