(* ===== verification/Rounding.thy ===== *)
theory Rounding
  imports Doubles
begin

text \<open>How far a rounded result is from the exact one: at most one part in \<open>2 ^ 53\<close>.\<close>

section \<open>The exponent\<close>

lemma pow2_powi: "pow2 e = 2 powi e"
  by (simp add: pow2_def power_int_def inverse_eq_divide power_divide)

lemma pow2_add: "pow2 (a + b) = pow2 a * pow2 b"
  by (simp add: pow2_powi power_int_add)

lemma pow2_of_nat: "pow2 (int n) = 2 ^ n"
  by (simp add: pow2_def)

lemma pow2_mono: "a \<le> b \<Longrightarrow> pow2 a \<le> pow2 b"
  by (simp add: pow2_powi power_int_increasing)

lemma exponent_of_bounds:
  assumes "x \<noteq> 0"
  shows "pow2 (exponent_of x) \<le> \<bar>x\<bar>" and "\<bar>x\<bar> < pow2 (exponent_of x + 1)"
proof -
  obtain p q where pq: "quotient_of \<bar>x\<bar> = (p, q)" by fastforce
  then have q: "0 < q" and x: "\<bar>x\<bar> = of_int p / of_int q" by (simp_all add: quotient_of_denom_pos quotient_of_div)
  have "0 < \<bar>x\<bar>" using assms by simp
  then have "(0 :: rat) < of_int p / of_int q" unfolding x .
  then have p: "0 < p" using q by (simp add: zero_less_divide_iff)
  define a where "a = floorlog 2 (nat p)"
  define b where "b = floorlog 2 (nat q)"
  have "0 < nat p" "0 < nat q" using p q by simp_all
  with floorlog_bounds [of "nat p" 2, folded a_def] floorlog_bounds [of "nat q" 2, folded b_def]
  have a: "2 ^ (a - 1) \<le> nat p" "nat p < 2 ^ a" and b: "2 ^ (b - 1) \<le> nat q" "nat q < 2 ^ b" by auto
  have pos: "0 < a" "0 < b"
    using a(2) b(2) \<open>0 < nat p\<close> \<open>0 < nat q\<close> by (metis gr0I less_one not_less_iff_gr_or_eq power_0)+
  have real: "pow2 (int a - 1) \<le> of_int p" "of_int p < pow2 (int a)" "pow2 (int b - 1) \<le> of_int q" "of_int q < pow2 (int b)"
  proof -
    have sub: "int n - 1 = int (n - 1)" if "0 < n" for n using that by simp
    have cast: "(of_int z :: rat) = of_nat (nat z)" if "0 < z" for z using that by simp
    show "pow2 (int a - 1) \<le> of_int p" "of_int p < pow2 (int a)"
      using a unfolding sub [OF pos(1)] pow2_of_nat cast [OF p] by (metis of_nat_le_iff of_nat_less_iff of_nat_numeral of_nat_power)+
    show "pow2 (int b - 1) \<le> of_int q" "of_int q < pow2 (int b)"
      using b unfolding sub [OF pos(2)] pow2_of_nat cast [OF q] by (metis of_nat_le_iff of_nat_less_iff of_nat_numeral of_nat_power)+
  qed
  define e where "e = int a - int b"
  have e: "exponent_of x = (if pow2 e \<le> \<bar>x\<bar> then e else e - 1)"
    unfolding exponent_of_def by (simp add: pq Let_def a_def b_def e_def)
  have "pow2 (int a) = pow2 (e + 1) * pow2 (int b - 1)" "pow2 (int a - 1) = pow2 (e - 1) * pow2 (int b)"
    by (simp_all add: e_def flip: pow2_add)
  then have up: "of_int p < pow2 (e + 1) * of_int q" and low: "pow2 (e - 1) * of_int q < of_int p"
    using real pow2_pos [of "e + 1"] pow2_pos [of "e - 1"]
    by (metis mult_le_cancel_left_pos order_less_le_trans, metis mult_less_cancel_left_pos order_less_le_trans)
  have "\<bar>x\<bar> < pow2 (e + 1)" "pow2 (e - 1) < \<bar>x\<bar>"
    using up low q by (simp_all add: x pos_divide_less_eq pos_less_divide_eq)
  then show "pow2 (exponent_of x) \<le> \<bar>x\<bar>" "\<bar>x\<bar> < pow2 (exponent_of x + 1)"
    by (auto simp: e)
qed

section \<open>The rounding error\<close>

lemma round_even_error: "\<bar>of_int (round_even y) - y\<bar> \<le> 1 / 2"
proof -
  let ?r = "y - of_int \<lfloor>y\<rfloor>"
  have "0 \<le> ?r" "?r < 1" by linarith+
  then show ?thesis unfolding round_even_def Let_def by (simp only: of_int_add of_int_1 split: if_split) linarith
qed

lemma fl_error: "\<bar>fl x - x\<bar> \<le> \<bar>x\<bar> / 2 ^ 53"
proof (cases "x = 0")
  case False
  define u where "u = pow2 (exponent_of x - 52)"
  have u: "0 < u" by (simp add: u_def pow2_pos)
  have "pow2 (exponent_of x) = u * pow2 52" by (simp add: u_def flip: pow2_add)
  also have "pow2 52 = 2 ^ 52" using pow2_of_nat [of 52] by simp
  finally have big: "u * 2 ^ 52 \<le> \<bar>x\<bar>" using exponent_of_bounds(1) [OF False] by simp
  have "fl x - x = (of_int (round_even (x / u)) - x / u) * u"
    using False u by (simp add: fl_def Let_def u_def [symmetric] left_diff_distrib)
  then have "\<bar>fl x - x\<bar> = \<bar>of_int (round_even (x / u)) - x / u\<bar> * u" using u by (simp add: abs_mult)
  also have "\<dots> \<le> 1 / 2 * u" using round_even_error [of "x / u"] u by (intro mult_right_mono) simp_all
  also have "\<dots> \<le> \<bar>x\<bar> / 2 ^ 53" using big by (simp add: field_simps)
  finally show ?thesis .
qed (simp add: fl_def)

lemma fl_bounds:
  assumes "0 \<le> x"
  shows "x - x / 2 ^ 53 \<le> fl x" and "fl x \<le> x + x / 2 ^ 53" and "0 \<le> fl x"
proof -
  show "x - x / 2 ^ 53 \<le> fl x" "fl x \<le> x + x / 2 ^ 53" using fl_error [of x] assms by linarith+
  have "x / 2 ^ 53 \<le> x" using assms by (simp add: divide_le_eq)
  then show "0 \<le> fl x" using \<open>x - x / 2 ^ 53 \<le> fl x\<close> by linarith
qed

lemma double_of_u64_error: "\<bar>double_of_u64 w - of_nat (unat w)\<bar> \<le> of_nat (unat w) / 2 ^ 53"
  unfolding double_of_u64_def using fl_error [of "of_nat (unat w)"] by (simp only: abs_of_nat)

text \<open>Truncation loses less than one.\<close>

lemma u64_of_double_trunc:
  assumes "0 \<le> x" and "x < 2 ^ 64"
  obtains w where "u64_of_double x = Some w" and "of_nat (unat w) \<le> x" and "x < of_nat (unat w) + 1"
proof -
  have f: "0 \<le> \<lfloor>x\<rfloor>" using assms(1) by simp
  have lt: "\<lfloor>x\<rfloor> < 2 ^ 64" using assms(2) by (simp add: floor_less_iff)
  let ?w = "word_of_int \<lfloor>x\<rfloor> :: u64"
  have "uint ?w = \<lfloor>x\<rfloor>" using f lt by (simp add: uint_word_of_int)
  then have w: "(of_nat (unat ?w) :: rat) = of_int \<lfloor>x\<rfloor>" using f by (metis of_int_of_nat_eq uint_nat)
  show thesis
  proof (rule that [of ?w])
    show "u64_of_double x = Some ?w" using f lt assms(1) by (simp add: u64_of_double_def trunc_def)
    show "of_nat (unat ?w) \<le> x" "x < of_nat (unat ?w) + 1" unfolding w by linarith+
  qed
qed

end
