(* ===== verification/Timing.thy ===== *)
theory Timing
  imports C_Text Rounding
begin

text \<open>
  The measurement clock, \<open>src/common/timing.h\<close> and \<open>src/common/timing.cc\<close>: ticks of the time
  stamp counter converted to nanoseconds by a calibrated factor, and the test of the processor's
  flags. The counter, the wall clock and the contents of \<open>/proc/cpuinfo\<close> are parameters.
\<close>

section \<open>The clock\<close>

record tsc_clock =
  tc_ns_per_tick :: rat

definition ns_per_tick :: "tsc_clock \<Rightarrow> rat" where
  "ns_per_tick clock = tc_ns_per_tick clock"

lemmas clock_reads [simp] = ns_per_tick_def

definition to_ns :: "tsc_clock \<Rightarrow> u64 \<Rightarrow> u64 option" where
  "to_ns clock ticks = u64_of_double (fl (double_of_u64 ticks * tc_ns_per_tick clock))"

text \<open>The steady clock in nanoseconds, \<open>rdtscp\<close>, and sleeping for nanoseconds.\<close>

record 'w timing_host =
  tm_now :: "'w \<Rightarrow> int \<times> 'w"
  tm_tsc :: "'w \<Rightarrow> u64 \<times> 'w"
  tm_sleep :: "int \<Rightarrow> 'w \<Rightarrow> 'w"

definition calibrate :: "'w timing_host \<Rightarrow> int \<Rightarrow> 'w \<Rightarrow> tsc_clock \<times> 'w" where
  "calibrate host window_ms w =
     (let (wall_start, w) = tm_now host w;
          (tsc_start, w) = tm_tsc host w;
          w = tm_sleep host (1000000 * window_ms) w;
          (tsc_end, w) = tm_tsc host w;
          (wall_end, w) = tm_now host w;
          elapsed_ns = wall_end - wall_start;
          elapsed_ticks = tsc_end - tsc_start
      in (\<lparr>tc_ns_per_tick = (if elapsed_ticks = 0 \<or> elapsed_ns \<le> 0 then 0
             else fl (fl (of_int elapsed_ns) / double_of_u64 elapsed_ticks))\<rparr>, w))"

section \<open>The flags of the processor\<close>

text \<open>The lines \<open>getline\<close> returns: no line after a last line break.\<close>

definition getlines :: "string \<Rightarrow> string list" where
  "getlines s = (let ls = split_on CHR 0x0A s in if last ls = [] then butlast ls else ls)"

definition padded :: "string \<Rightarrow> string" where
  "padded s = CHR '' '' # s @ [CHR '' '']"

text \<open>\<open>line.rfind ("flags", 0) != 0\<close> is false just for a line that begins with it.\<close>

fun first_flags :: "string \<Rightarrow> string list \<Rightarrow> bool" where
  "first_flags flag [] \<longleftrightarrow> False"
| "first_flags flag (line # lines) \<longleftrightarrow>
     (if take 5 line \<noteq> ''flags'' then first_flags flag lines else str_contains (padded flag) (padded line))"

definition cpuinfo_flags_contain :: "string option \<Rightarrow> string \<Rightarrow> bool" where
  "cpuinfo_flags_contain info flag = (case info of None \<Rightarrow> False | Some s \<Rightarrow> first_flags flag (getlines s))"

definition invariant_tsc_available :: "string option \<Rightarrow> bool" where
  "invariant_tsc_available info \<longleftrightarrow>
     cpuinfo_flags_contain info ''constant_tsc'' \<and> cpuinfo_flags_contain info ''nonstop_tsc''"

text \<open>The words of the first line of flags.\<close>

definition flags_of :: "string \<Rightarrow> string set" where
  "flags_of s = (case filter (\<lambda>line. take 5 line = ''flags'') (getlines s) of
     [] \<Rightarrow> {} | line # _ \<Rightarrow> set (split_on CHR '' '' line))"

lemma first_flags_words:
  assumes "CHR '' '' \<notin> set flag"
  shows "first_flags flag lines \<longleftrightarrow>
    (case filter (\<lambda>line. take 5 line = ''flags'') lines of
       [] \<Rightarrow> False | line # _ \<Rightarrow> flag \<in> set (split_on CHR '' '' line))"
  using contains_word [OF assms] by (induction lines) (simp_all add: padded_def)

lemma cpuinfo_flags_words:
  assumes "CHR '' '' \<notin> set flag"
  shows "cpuinfo_flags_contain (Some s) flag \<longleftrightarrow> flag \<in> flags_of s"
  by (simp add: cpuinfo_flags_contain_def first_flags_words [OF assms] flags_of_def split: list.split)

lemma tsc_available_words:
  "invariant_tsc_available info \<longleftrightarrow> (\<exists>s. info = Some s \<and> {''constant_tsc'', ''nonstop_tsc''} \<subseteq> flags_of s)"
  by (cases info) (simp_all add: invariant_tsc_available_def cpuinfo_flags_words, simp add: cpuinfo_flags_contain_def)

section \<open>How exact the conversion is\<close>

lemma to_ns_error:
  fixes ticks :: u64 and clock :: tsc_clock
  defines "t \<equiv> of_nat (unat ticks) * tc_ns_per_tick clock"
  assumes "0 \<le> tc_ns_per_tick clock" and "t < 2 ^ 63"
  shows "\<exists>ns. to_ns clock ticks = Some ns \<and> \<bar>of_nat (unat ns) - t\<bar> \<le> 1 + t / 2 ^ 51"
proof -
  let ?k = "tc_ns_per_tick clock"
  let ?x = "double_of_u64 ticks * ?k"
  have t0: "0 \<le> t" unfolding t_def by (rule mult_nonneg_nonneg [OF of_nat_0_le_iff assms(2)])
  have d: "\<bar>double_of_u64 ticks - of_nat (unat ticks)\<bar> * ?k \<le> of_nat (unat ticks) / 2 ^ 53 * ?k"
    by (rule mult_right_mono [OF double_of_u64_error assms(2)])
  have "\<bar>?x - t\<bar> = \<bar>double_of_u64 ticks - of_nat (unat ticks)\<bar> * ?k"
    using assms(2) by (simp add: t_def abs_mult flip: left_diff_distrib)
  then have x: "\<bar>?x - t\<bar> \<le> t / 2 ^ 53" using d by (simp add: t_def)
  have x0: "0 \<le> ?x"
    unfolding double_of_u64_def by (rule mult_nonneg_nonneg [OF fl_bounds(3) [OF of_nat_0_le_iff] assms(2)])
  note f = fl_bounds [OF x0]
  have "t / 2 ^ 53 \<le> t" using t0 by (simp add: field_simps)
  then have xt: "?x \<le> 2 * t" using x by linarith
  have err: "\<bar>fl ?x - t\<bar> \<le> t / 2 ^ 51"
  proof -
    have "?x / 2 ^ 53 \<le> 2 * t / 2 ^ 53" using xt by (simp add: divide_right_mono)
    moreover have "t / 2 ^ 53 + 2 * t / 2 ^ 53 \<le> t / 2 ^ 51" using t0 by (simp add: field_simps)
    ultimately show ?thesis using f(1,2) x by linarith
  qed
  have "t / 2 ^ 51 \<le> t" using t0 by (simp add: field_simps)
  moreover have "(2 :: rat) ^ 64 = 2 ^ 63 + 2 ^ 63" by simp
  ultimately have "fl ?x < 2 ^ 64" using err assms(3) by linarith
  from u64_of_double_trunc [OF f(3) this] obtain ns where ns: "u64_of_double (fl ?x) = Some ns"
    "of_nat (unat ns) \<le> fl ?x" "fl ?x < of_nat (unat ns) + 1" .
  have "\<bar>of_nat (unat ns) - t\<bar> \<le> 1 + t / 2 ^ 51" using ns(2,3) err by linarith
  then show ?thesis using ns(1) by (intro exI [of _ ns] conjI) (simp_all only: to_ns_def)
qed

end
