(* ===== verification/Latency_Recorder.thy ===== *)
theory Latency_Recorder
  imports Timing
begin

text \<open>
  \<open>LatencyRecorder\<close> of \<open>src/common/latency_recorder.h\<close>: samples stamped into an array of fixed
  size, and the percentiles read off it after the run.
\<close>

section \<open>The recorder\<close>

record latency_recorder =
  lr_samples :: "u64 list"
  lr_count :: size_t
  lr_dropped :: u64

text \<open>What the class lets others read.\<close>

definition recorder_count :: "latency_recorder \<Rightarrow> size_t" where
  "recorder_count lr = lr_count lr"

definition recorder_dropped :: "latency_recorder \<Rightarrow> u64" where
  "recorder_dropped lr = lr_dropped lr"

definition recorder_data :: "latency_recorder \<Rightarrow> u64 list" where
  "recorder_data lr = lr_samples lr"

lemmas recorder_reads [simp] = recorder_count_def recorder_dropped_def recorder_data_def

definition new_recorder :: "size_t \<Rightarrow> latency_recorder" where
  "new_recorder capacity = \<lparr>lr_samples = replicate (unat capacity) 0, lr_count = 0, lr_dropped = 0\<rparr>"

definition record_ticks :: "u64 \<Rightarrow> latency_recorder \<Rightarrow> latency_recorder option" where
  "record_ticks ticks lr =
     (if lr_count lr < word_of_nat (length (lr_samples lr))
      then map_option (\<lambda>xs. lr\<lparr>lr_samples := xs, lr_count := lr_count lr + 1\<rparr>)
             (vset (lr_samples lr) (unat (lr_count lr)) ticks)
      else Some (lr\<lparr>lr_dropped := lr_dropped lr + 1\<rparr>))"

text \<open>\<open>std::copy\<close> towards the front.\<close>

definition discard_first :: "size_t \<Rightarrow> latency_recorder \<Rightarrow> latency_recorder option" where
  "discard_first n lr =
     (if n \<ge> lr_count lr then Some (lr\<lparr>lr_count := 0\<rparr>)
      else if unat (lr_count lr) > length (lr_samples lr) then None
      else (let moved = drop (unat n) (take (unat (lr_count lr)) (lr_samples lr))
            in Some (lr\<lparr>lr_samples := moved @ drop (length moved) (lr_samples lr), lr_count := lr_count lr - n\<rparr>)))"

definition recorded :: "latency_recorder \<Rightarrow> u64 list option" where
  "recorded lr = (if unat (lr_count lr) \<le> length (lr_samples lr) then Some (take (unat (lr_count lr)) (lr_samples lr)) else None)"

definition percentile :: "rat \<Rightarrow> latency_recorder \<Rightarrow> u64 option" where
  "percentile p lr =
     (if lr_count lr = 0 then Some 0
      else do {
        samples \<leftarrow> recorded lr;
        let sorted = sort samples;
        idx \<leftarrow> u64_of_double (fl (fl (p * double_of_u64 (lr_count lr - 1)) + 1 / 2));
        let idx = (if idx \<ge> lr_count lr then lr_count lr - 1 else idx);
        vget sorted (unat idx) })"

definition max_ticks :: "latency_recorder \<Rightarrow> u64 option" where
  "max_ticks lr = map_option (\<lambda>xs. fold (\<lambda>x m. if x > m then x else m) xs 0) (recorded lr)"

text \<open>The numbers of the line \<open>report\<close> prints.\<close>

record latency_report =
  la_samples :: size_t
  la_dropped :: u64
  la_p50 :: u64
  la_p99 :: u64
  la_p999 :: u64
  la_max :: u64

definition latency_report_of :: "tsc_clock \<Rightarrow> latency_recorder \<Rightarrow> latency_report option" where
  "latency_report_of clock lr =
     do { p50 \<leftarrow> Option.bind (percentile (fl (1 / 2)) lr) (to_ns clock);
          p99 \<leftarrow> Option.bind (percentile (fl (99 / 100)) lr) (to_ns clock);
          p999 \<leftarrow> Option.bind (percentile (fl (999 / 1000)) lr) (to_ns clock);
          m \<leftarrow> Option.bind (max_ticks lr) (to_ns clock);
          Some \<lparr>la_samples = lr_count lr, la_dropped = lr_dropped lr, la_p50 = p50, la_p99 = p99, la_p999 = p999,
            la_max = m\<rparr> }"

section \<open>What a recorder holds\<close>

definition lr_holds :: "latency_recorder \<Rightarrow> nat \<Rightarrow> u64 list \<Rightarrow> bool" where
  "lr_holds lr cap xs \<longleftrightarrow> length (lr_samples lr) = cap \<and> cap < 2 ^ 64 \<and> length xs \<le> cap \<and>
     unat (lr_count lr) = length xs \<and> take (length xs) (lr_samples lr) = xs"

lemma new_recorder_holds: "lr_holds (new_recorder capacity) (unat capacity) []"
  using unsigned_less [of capacity, where ?'a = nat] by (simp add: lr_holds_def new_recorder_def)

lemma recorded_holds: "lr_holds lr cap xs \<Longrightarrow> recorded lr = Some xs"
  by (simp add: lr_holds_def recorded_def)

lemma record_ticks_holds:
  assumes "lr_holds lr cap xs"
  shows "\<exists>lr'. record_ticks t lr = Some lr' \<and> lr_holds lr' cap (take cap (xs @ [t])) \<and>
     lr_dropped lr' = lr_dropped lr + (if length xs < cap then 0 else 1)"
proof -
  have cap: "unat (word_of_nat (length (lr_samples lr)) :: size_t) = cap"
    using assms by (simp add: lr_holds_def unat_of_nat_64)
  show ?thesis
  proof (cases "length xs < cap")
    case True
    have "unat (lr_count lr + 1) = length xs + 1"
      using assms True by (simp add: lr_holds_def unat_word_ariths)
    moreover have "take (Suc (length xs)) ((lr_samples lr)[length xs := t]) = xs @ [t]"
      using assms True by (simp add: lr_holds_def take_Suc_conv_app_nth)
    ultimately show ?thesis using assms True cap
      by (simp add: record_ticks_def word_less_nat_alt lr_holds_def)
  next
    case False
    then have "length xs = cap" "unat (lr_count lr) = cap" using assms by (simp_all add: lr_holds_def)
    then have "record_ticks t lr = Some (lr\<lparr>lr_dropped := lr_dropped lr + 1\<rparr>)"
      using cap by (simp add: record_ticks_def word_less_nat_alt)
    moreover have "lr_holds (lr\<lparr>lr_dropped := lr_dropped lr + 1\<rparr>) cap (take cap (xs @ [t]))"
      using assms \<open>length xs = cap\<close> unfolding lr_holds_def by simp
    ultimately show ?thesis using False by simp
  qed
qed

lemma record_all_holds:
  assumes "lr_holds lr cap xs"
  shows "\<exists>lr'. foldM record_ticks ts lr = Some lr' \<and> lr_holds lr' cap (take cap (xs @ ts)) \<and>
     lr_dropped lr' = lr_dropped lr + word_of_nat (length (xs @ ts) - cap)"
  using assms
proof (induction ts arbitrary: lr xs)
  case Nil
  then show ?case by (simp add: lr_holds_def)
next
  case (Cons t ts)
  from record_ticks_holds [OF Cons.prems] obtain lr1 where lr1: "record_ticks t lr = Some lr1"
    "lr_holds lr1 cap (take cap (xs @ [t]))" "lr_dropped lr1 = lr_dropped lr + (if length xs < cap then 0 else 1)" by blast
  have "length xs \<le> cap" using Cons.prems by (simp add: lr_holds_def)
  then have "take cap (take cap (xs @ [t]) @ ts) = take cap (xs @ t # ts)"
    by (cases "length xs < cap") simp_all
  moreover have "(if length xs < cap then 0 else 1) + word_of_nat (length (take cap (xs @ [t]) @ ts) - cap) =
      (word_of_nat (length (xs @ t # ts) - cap) :: u64)"
    using \<open>length xs \<le> cap\<close> by (cases "length xs < cap") (simp_all add: min_def)
  ultimately show ?case using Cons.IH [OF lr1(2)] lr1(1,3) by (auto simp: add.assoc)
qed

lemma discard_first_holds:
  assumes "lr_holds lr cap xs"
  shows "\<exists>lr'. discard_first n lr = Some lr' \<and> lr_holds lr' cap (drop (unat n) xs)"
proof (cases "n \<ge> lr_count lr")
  case True
  then show ?thesis using assms by (simp add: discard_first_def lr_holds_def word_le_nat_alt)
next
  case False
  then have "unat n < length xs" "unat (lr_count lr - n) = length xs - unat n"
    using assms by (simp_all add: lr_holds_def word_le_nat_alt unat_sub not_le)
  then show ?thesis using assms False by (auto simp: discard_first_def lr_holds_def Let_def)
qed

lemma max_ticks_Max:
  assumes "lr_holds lr cap xs" and "xs \<noteq> []"
  shows "max_ticks lr = Some (Max (set xs))"
proof -
  have step: "(\<lambda>x m :: u64. if x > m then x else m) = max" by (auto simp: fun_eq_iff max_def)
  have "fold max xs (0 :: u64) = Max (set (0 # xs))" by (simp only: Max.set_eq_fold)
  also have "\<dots> = Max (set xs)" using assms(2) by (simp add: max_def)
  finally show ?thesis unfolding max_ticks_def recorded_holds [OF assms(1)] step by simp
qed

section \<open>The rank of a percentile\<close>

lemma percentile_rank:
  assumes "lr_holds lr cap xs" and "xs \<noteq> []" and "length xs < 2 ^ 50" and "0 \<le> p" and "p \<le> 1"
  shows "\<exists>i < length xs. percentile p lr = Some (sort xs ! i) \<and>
     \<bar>of_nat i - p * of_nat (length xs - 1)\<bar> \<le> 1 / 2 + of_nat (length xs) / 2 ^ 51"
proof -
  define m where "m = length xs - 1"
  have n: "length xs = Suc m" using assms(2) by (simp add: m_def)
  have count: "unat (lr_count lr) = Suc m" using assms(1) by (simp add: lr_holds_def n)
  then have nz: "lr_count lr \<noteq> 0" by auto
  then have "1 \<le> lr_count lr" by (simp add: word_le_nat_alt unat_gt_0 Suc_le_eq)
  then have c1: "unat (lr_count lr - 1) = m" using count by (simp add: unat_sub)
  have mb: "m < 2 ^ 53" using assms(3) n by simp
  have d: "double_of_u64 (lr_count lr - 1) = of_nat m" using fl_nat [OF mb] by (simp only: double_of_u64_def c1)
  let ?t = "p * of_nat m :: rat"
  let ?y = "fl ?t"
  let ?z = "fl (?y + 1 / 2)"
  have t: "0 \<le> ?t" "?t \<le> of_nat m" using assms(4,5) by (simp_all add: mult_left_le_one_le)
  note y = fl_bounds [OF t(1)]
  have "0 \<le> ?y + 1 / 2" using y(3) by simp
  note z = fl_bounds [OF this]
  have ty: "?t / 2 ^ 53 \<le> of_nat m / 2 ^ 53" using t(2) by (simp add: divide_right_mono)
  have small: "(of_nat m :: rat) / 2 ^ 53 \<le> of_nat m" by (simp add: field_simps)
  have "?y \<le> 2 * of_nat m" using y(2) ty t(2) small by linarith
  then have "(?y + 1 / 2) / 2 ^ 53 \<le> (2 * of_nat m + 1 / 2) / 2 ^ 53" by (intro divide_right_mono) simp_all
  moreover have "of_nat m / 2 ^ 53 + (2 * of_nat m + 1 / 2) / 2 ^ 53 \<le> (of_nat (length xs) :: rat) / 2 ^ 51"
    by (simp add: n field_simps)
  ultimately have zt: "\<bar>?z - (?t + 1 / 2)\<bar> \<le> of_nat (length xs) / 2 ^ 51"
    using y(1,2) z(1,2) ty by linarith
  have "(of_nat (length xs) :: rat) \<le> 2 ^ 50" using assms(3) by (metis less_imp_le of_nat_le_iff of_nat_numeral of_nat_power)
  then have err: "(of_nat (length xs) :: rat) / 2 ^ 51 \<le> 1 / 2" by (simp add: field_simps)
  have "(of_nat m :: rat) \<le> 2 ^ 53" using mb by (metis less_imp_le of_nat_le_iff of_nat_numeral of_nat_power)
  moreover have "(2 :: rat) ^ 53 + 1 < 2 ^ 64" by simp
  ultimately have "?z < 2 ^ 64" using zt err t(2) by linarith
  from u64_of_double_trunc [OF z(3) this] obtain w where w: "u64_of_double ?z = Some w"
    "of_nat (unat w) \<le> ?z" "?z < of_nat (unat w) + 1" .
  have rank: "\<bar>of_nat (unat w) - ?t\<bar> \<le> 1 / 2 + of_nat (length xs) / 2 ^ 51" using w(2,3) zt by linarith
  define i where "i = (if w \<ge> lr_count lr then m else unat w)"
  have i: "i < length xs" using count by (auto simp: i_def n word_le_nat_alt)
  have close: "\<bar>of_nat i - ?t\<bar> \<le> 1 / 2 + of_nat (length xs) / 2 ^ 51"
  proof (cases "w \<ge> lr_count lr")
    case True
    then have "(of_nat m :: rat) \<le> of_nat (unat w)" using count by (simp only: word_le_nat_alt of_nat_le_iff)
    then show ?thesis using rank t(2) True by (simp add: i_def)
  qed (use rank in \<open>simp add: i_def\<close>)
  have "unat (if w \<ge> lr_count lr then lr_count lr - 1 else w) = i" using c1 by (simp add: i_def)
  then have "percentile p lr = Some (sort xs ! i)"
    unfolding percentile_def d using nz i w(1) recorded_holds [OF assms(1)] by simp
  then show ?thesis using i close unfolding m_def by blast
qed

end
