(* ===== verification/Gap_Injector.thy ===== *)
theory Gap_Injector
  imports Prelude Complex_Main
begin

text \<open>
  The deliberate packet loss of \<open>src/mold/gap_injector.h\<close>. The drop probability is a \<open>double\<close>;
  the ones that matter are rationals, and the draw \<open>u\<close> is one exactly: \<open>z >> 11\<close> has at most 53
  bits, and the scaling is by a power of two. So \<open>u < probability\<close> is decided on rationals
  without rounding. A probability that is not a number behaves as 0.
\<close>

section \<open>The injector\<close>

record gap_injector =
  gi_every :: u64
  gi_probability :: rat
  gi_state :: u64

definition gap_none :: gap_injector where
  "gap_none = \<lparr>gi_every = 0, gi_probability = 0, gi_state = 0\<rparr>"

definition gap_every_nth :: "u64 \<Rightarrow> gap_injector" where
  "gap_every_nth n = gap_none\<lparr>gi_every := n\<rparr>"

definition gap_with_probability :: "rat \<Rightarrow> u64 \<Rightarrow> gap_injector" where
  "gap_with_probability p seed = gap_none\<lparr>gi_probability := p, gi_state := seed\<rparr>"

definition golden :: u64 where
  "golden = 0x9E3779B97F4A7C15"

definition mix64 :: "u64 \<Rightarrow> u64" where
  "mix64 s =
     (let z = (s XOR drop_bit 30 s) * 0xBF58476D1CE4E5B9;
          z = (z XOR drop_bit 27 z) * 0x94D049BB133111EB
      in z XOR drop_bit 31 z)"

definition unit_draw :: "u64 \<Rightarrow> rat" where
  "unit_draw z = of_nat (unat (drop_bit 11 z)) / 9007199254740992"

definition should_drop :: "u64 \<Rightarrow> gap_injector \<Rightarrow> bool \<times> gap_injector" where
  "should_drop packet_index g =
     (if gi_every g \<noteq> 0 then ((packet_index + 1) mod gi_every g = 0, g)
      else if gi_probability g > 0 then
        (let state = gi_state g + golden
         in (unit_draw (mix64 state) < gi_probability g, g\<lparr>gi_state := state\<rparr>))
      else (False, g))"

definition gap_active :: "gap_injector \<Rightarrow> bool" where
  "gap_active g \<longleftrightarrow> gi_every g \<noteq> 0 \<or> gi_probability g > 0"

text \<open>The decisions for the packets from \<open>i\<close> on.\<close>

fun drop_run :: "nat \<Rightarrow> u64 \<Rightarrow> gap_injector \<Rightarrow> bool list" where
  "drop_run 0 i g = []"
| "drop_run (Suc n) i g = (let (b, g) = should_drop i g in b # drop_run n (i + 1) g)"

section \<open>Dropping every nth packet\<close>

lemma every_nth_decides:
  assumes "0 < n" and "unat i + 1 < 2 ^ 64"
  shows "should_drop i (gap_every_nth n) = (unat n dvd unat i + 1, gap_every_nth n)"
proof -
  have "unat (i + 1) = unat i + 1" using assms(2) by (simp add: unat_word_ariths)
  then have "(i + 1) mod n = 0 \<longleftrightarrow> unat n dvd unat i + 1"
    by (simp add: word_unat_eq_iff unat_mod_distrib dvd_eq_mod_eq_0)
  then show ?thesis using assms(1) by (auto simp: should_drop_def gap_every_nth_def word_neq_0_conv)
qed

lemma drop_run_every:
  assumes "0 < n" and "unat i + k < 2 ^ 64"
  shows "drop_run k i (gap_every_nth n) = map (\<lambda>j. unat n dvd j + 1) [unat i..<unat i + k]"
  using assms(2)
proof (induction k arbitrary: i)
  case (Suc k)
  have lt: "unat i + 1 < 2 ^ 64 \<or> k = 0" using Suc.prems by auto
  have "drop_run k (i + 1) (gap_every_nth n) = map (\<lambda>j. unat n dvd j + 1) [unat i + 1..<unat i + 1 + k]"
  proof (cases "k = 0")
    case False
    then have "unat (i + 1) = unat i + 1" using lt by (simp add: unat_word_ariths)
    then show ?thesis using Suc.IH [of "i + 1"] Suc.prems by simp
  qed simp
  moreover have "unat i + 1 < 2 ^ 64" using Suc.prems by simp
  ultimately show ?case
    using every_nth_decides [OF assms(1), of i] by (simp add: upt_rec [of "unat i"])
qed simp

lemma count_multiples:
  assumes "0 < n"
  shows "length (filter (\<lambda>j. n dvd j + 1) [0..<k]) = k div n"
  by (induction k) (use assms in \<open>auto simp: div_Suc dvd_eq_mod_eq_0\<close>)

section \<open>The generator\<close>

text \<open>Xor with a right shift of itself loses nothing.\<close>

lemma xorshift_inj:
  fixes x y :: "'a::len word"
  assumes "0 < k" and "x XOR drop_bit k x = y XOR drop_bit k y"
  shows "x = y"
proof (rule bit_word_eqI)
  fix n
  assume "n < LENGTH('a)"
  have step: "bit x n \<noteq> bit x (k + n) \<longleftrightarrow> bit y n \<noteq> bit y (k + n)" for n
    using assms(2) by (metis bit_xor_iff bit_drop_bit_eq comp_apply)
  have "bit x n \<longleftrightarrow> bit y n" if "LENGTH('a) - n \<le> m" for n m
    using that
  proof (induction m arbitrary: n)
    case 0
    then have "LENGTH('a) \<le> n" by simp
    then show ?case using bit_imp_le_length [of x n] bit_imp_le_length [of y n] by auto
  next
    case (Suc m)
    have "bit x (k + n) \<longleftrightarrow> bit y (k + n)" by (rule Suc.IH) (use Suc.prems assms(1) in simp)
    then show ?case using step [of n] by blast
  qed
  then show "bit x n \<longleftrightarrow> bit y n" by blast
qed

lemma times_unit_inj:
  fixes a x y :: "'a::len word"
  assumes "b * a = 1" and "x * a = y * a"
  shows "x = y"
proof -
  have "x * a * b = y * a * b" using assms(2) by simp
  then show ?thesis using assms(1) by (simp add: mult.assoc mult.commute [of a b])
qed

text \<open>Each multiplier is odd, so it has an inverse.\<close>

lemma multiplier_inverses:
  "(0x96DE1B173F119089 * 0xBF58476D1CE4E5B9 :: u64) = 1"
  "(0x319642B2D24D8EC3 * 0x94D049BB133111EB :: u64) = 1"
  "(0xF1DE83E19937733D * golden :: u64) = 1"
  by (simp_all add: golden_def)

lemma mix64_inj: "mix64 x = mix64 y \<Longrightarrow> x = y"
  unfolding mix64_def Let_def
  by (auto dest!: xorshift_inj [rotated] times_unit_inj [OF multiplier_inverses(1)]
      times_unit_inj [OF multiplier_inverses(2)])

lemma golden_multiples:
  assumes "i < 2 ^ 64" and "j < 2 ^ 64" and "s + word_of_nat i * golden = s + word_of_nat j * golden"
  shows "i = j"
proof -
  have "word_of_nat i * golden = word_of_nat j * golden" using assms(3) by (rule add_left_imp_eq)
  then have "(word_of_nat i :: u64) = word_of_nat j" by (rule times_unit_inj [OF multiplier_inverses(3)])
  then have "unat (word_of_nat i :: u64) = unat (word_of_nat j :: u64)" by (rule arg_cong)
  then show ?thesis unfolding unat_of_nat_64 [OF assms(1)] unat_of_nat_64 [OF assms(2)] .
qed

lemma unit_draw_range: "0 \<le> unit_draw z" "unit_draw z < 1"
proof -
  have "unat (drop_bit 11 z) = unat z div 2048" by (simp add: unat_drop_bit_eq drop_bit_eq_div unat_div_distrib)
  then have "unat (drop_bit 11 z) < 9007199254740992" using unat_lt_64 [of z] by linarith
  then have "(of_nat (unat (drop_bit 11 z)) :: rat) < of_nat 9007199254740992" by (simp only: of_nat_less_iff)
  then show "unit_draw z < 1" by (simp add: unit_draw_def)
  have "(0 :: rat) \<le> of_nat (unat (drop_bit 11 z))" by (rule of_nat_0_le_iff)
  then show "0 \<le> unit_draw z" unfolding unit_draw_def by (rule divide_nonneg_nonneg) simp
qed

text \<open>The \<open>i\<close>th decision with a probability is a function of the seed and \<open>i\<close> alone.\<close>

lemma drop_run_probability:
  assumes "0 < p"
  shows "drop_run k i (gap_with_probability p seed) =
    map (\<lambda>j. unit_draw (mix64 (seed + word_of_nat (Suc j) * golden)) < p) [0..<k]"
proof (induction k arbitrary: i seed)
  case (Suc k)
  let ?f = "\<lambda>seed j. unit_draw (mix64 (seed + word_of_nat (Suc j) * golden)) < p"
  have "drop_run (Suc k) i (gap_with_probability p seed) =
      ?f seed 0 # drop_run k (i + 1) (gap_with_probability p (seed + golden))"
    using assms by (simp add: should_drop_def gap_with_probability_def gap_none_def Let_def)
  also have "drop_run k (i + 1) (gap_with_probability p (seed + golden)) = map (?f (seed + golden)) [0..<k]"
    by (rule Suc.IH)
  also have "?f (seed + golden) = (\<lambda>j. ?f seed (Suc j))" by (simp add: algebra_simps)
  finally show ?case by (simp only: map_upt_Suc)
qed simp

lemma drop_run_none: "drop_run k i gap_none = replicate k False"
  by (induction k arbitrary: i) (simp_all add: should_drop_def gap_none_def)

end
