(* ===== verification/Host.thy ===== *)
theory Host
  imports Doubles
begin

text \<open>
  What the sending side asks of the operating system, as a parameter: \<open>sendto\<close> on the one
  socket, the steady clock in nanoseconds and sleeping, over a state of the world of any type.
  On it \<open>UdpSender::send\<close> of \<open>src/mold/udp_sender.cc\<close> and the rate limiter of
  \<open>src/mold/rate_limiter.h\<close>.
\<close>

section \<open>The host\<close>

record 'w host =
  host_sendto :: "bytes \<Rightarrow> 'w \<Rightarrow> int \<times> 'w"
  host_now :: "'w \<Rightarrow> int \<times> 'w"
  host_sleep :: "int \<Rightarrow> 'w \<Rightarrow> 'w"

text \<open>
  The documented behaviour of a datagram socket: \<open>sendto\<close> hands over the whole datagram and
  returns its length, or fails with a negative value and sends nothing. \<open>sent w\<close> is what the
  socket has handed over in the world \<open>w\<close>; clocks do not send.
\<close>

definition datagram_host :: "('w \<Rightarrow> bytes list) \<Rightarrow> 'w host \<Rightarrow> bool" where
  "datagram_host sent host \<longleftrightarrow>
     (\<forall>p w n w'. host_sendto host p w = (n, w') \<longrightarrow>
        (n = int (length p) \<and> sent w' = sent w @ [p]) \<or> (n < 0 \<and> sent w' = sent w)) \<and>
     (\<forall>w. sent (snd (host_now host w)) = sent w) \<and> (\<forall>t w. sent (host_sleep host t w) = sent w)"

section \<open>The sender\<close>

record udp_sender =
  us_packets :: u64
  us_bytes :: u64
  us_failures :: u64

text \<open>What the class lets others read.\<close>

definition packets_sent :: "udp_sender \<Rightarrow> u64" where
  "packets_sent us = us_packets us"

definition bytes_sent :: "udp_sender \<Rightarrow> u64" where
  "bytes_sent us = us_bytes us"

definition send_failures :: "udp_sender \<Rightarrow> u64" where
  "send_failures us = us_failures us"

lemmas sender_reads [simp] = packets_sent_def bytes_sent_def send_failures_def

definition new_sender :: udp_sender where
  "new_sender = \<lparr>us_packets = 0, us_bytes = 0, us_failures = 0\<rparr>"

definition udp_send :: "'w host \<Rightarrow> bytes \<Rightarrow> udp_sender \<times> 'w \<Rightarrow> bool \<times> udp_sender \<times> 'w" where
  "udp_send host packet = (\<lambda>(us, w).
     let (n, w) = host_sendto host packet w
     in if n < 0 \<or> word_of_int n \<noteq> (word_of_nat (length packet) :: size_t)
        then (False, us\<lparr>us_failures := us_failures us + 1\<rparr>, w)
        else (True, us\<lparr>us_packets := us_packets us + 1,
                       us_bytes := us_bytes us + word_of_nat (length packet)\<rparr>, w))"

lemma udp_send_cases:
  assumes "datagram_host sent host" and "udp_send host p (us, w) = (ok, us', w')"
  shows "(ok \<and> sent w' = sent w @ [p] \<and> us' = us\<lparr>us_packets := us_packets us + 1,
             us_bytes := us_bytes us + word_of_nat (length p)\<rparr>) \<or>
         (\<not> ok \<and> sent w' = sent w \<and> us' = us\<lparr>us_failures := us_failures us + 1\<rparr>)"
proof -
  obtain n w1 where n: "host_sendto host p w = (n, w1)" by fastforce
  then have "(n = int (length p) \<and> sent w1 = sent w @ [p]) \<or> (n < 0 \<and> sent w1 = sent w)"
    using assms(1) by (simp add: datagram_host_def)
  then show ?thesis using assms(2) n by (auto simp: udp_send_def)
qed

lemma udp_send_world: "snd (snd (udp_send host p (us, w))) = snd (host_sendto host p w)"
  by (simp add: udp_send_def case_prod_unfold Let_def)

section \<open>The rate limiter\<close>

record rate_limiter =
  rl_interval_ns :: rat
  rl_origin :: int

definition unthrottled :: "rate_limiter \<Rightarrow> bool" where
  "unthrottled rl \<longleftrightarrow> rl_interval_ns rl \<le> 0"

definition interval_ns :: "rate_limiter \<Rightarrow> rat" where
  "interval_ns rl = rl_interval_ns rl"

lemmas limiter_reads [simp] = unthrottled_def interval_ns_def

definition kSleepThreshold :: int where
  "kSleepThreshold = 500000"

definition new_limiter :: "'w host \<Rightarrow> rat \<Rightarrow> 'w \<Rightarrow> rate_limiter \<times> 'w" where
  "new_limiter host packets_per_second w =
     (let (now, w) = host_now host w
      in (\<lparr>rl_interval_ns = (if packets_per_second > 0 then fl (1000000000 / packets_per_second) else 0),
           rl_origin = now\<rparr>, w))"

definition now_ns :: "'w host \<Rightarrow> 'w \<Rightarrow> u64 \<times> 'w" where
  "now_ns host w = apfst word_of_int (host_now host w)"

text \<open>\<open>while ((now = Clock::now()) < due)\<close>; the result is the world after the last reading.\<close>

partial_function (option) spin_until :: "'w host \<Rightarrow> int \<Rightarrow> 'w \<Rightarrow> 'w option" where
  "spin_until host due w =
     (let (now, w) = host_now host w in if now < due then spin_until host due w else Some w)"

definition due_offset :: "rate_limiter \<Rightarrow> u64 \<Rightarrow> int option" where
  "due_offset rl packet_index = i64_of_double (fl (double_of_u64 packet_index * rl_interval_ns rl))"

definition limiter_wait :: "'w host \<Rightarrow> rate_limiter \<Rightarrow> u64 \<Rightarrow> 'w \<Rightarrow> (u64 \<times> 'w) option" where
  "limiter_wait host rl packet_index w =
     (if rl_interval_ns rl \<le> 0 then Some (now_ns host w)
      else do {
        due_ns \<leftarrow> due_offset rl packet_index;
        let due = rl_origin rl + due_ns;
        let (now, w) = host_now host w;
        let w = (if due - now > kSleepThreshold then host_sleep host (due - now - kSleepThreshold) w else w);
        w \<leftarrow> spin_until host due w;
        Some (word_of_int due, w) })"

text \<open>The clock readings of a process that only reads the clock.\<close>

fun clock_after :: "'w host \<Rightarrow> nat \<Rightarrow> 'w \<Rightarrow> 'w" where
  "clock_after host 0 w = w"
| "clock_after host (Suc n) w = clock_after host n (snd (host_now host w))"

definition reading :: "'w host \<Rightarrow> nat \<Rightarrow> 'w \<Rightarrow> int" where
  "reading host n w = fst (host_now host (clock_after host n w))"

text \<open>A clock that does not stop for ever: from every world it reaches every time.\<close>

definition clock_advances :: "'w host \<Rightarrow> bool" where
  "clock_advances host \<longleftrightarrow> (\<forall>w t. \<exists>n. t \<le> reading host n w)"

lemma spin_until_ends:
  assumes "due \<le> reading host n w"
  shows "\<exists>k. spin_until host due w = Some (clock_after host (Suc k) w) \<and>
    due \<le> reading host k w \<and> (\<forall>i < k. reading host i w < due)"
  using assms
proof (induction n arbitrary: w)
  case 0
  then show ?case
    by (intro exI [of _ 0]) (simp add: spin_until.simps [of host due w] reading_def case_prod_unfold Let_def)
next
  case (Suc n)
  let ?w = "snd (host_now host w)"
  show ?case
  proof (cases "fst (host_now host w) < due")
    case True
    from Suc.prems have "due \<le> reading host n ?w" by (simp add: reading_def)
    from Suc.IH [OF this] obtain k where k: "spin_until host due ?w = Some (clock_after host (Suc k) ?w)"
      "due \<le> reading host k ?w" "\<forall>i < k. reading host i ?w < due" by blast
    have "reading host i w < due" if "i < Suc k" for i
      using that True k(3) by (cases i) (simp_all add: reading_def)
    then show ?thesis
      using True k by (intro exI [of _ "Suc k"])
        (simp add: spin_until.simps [of host due w] reading_def case_prod_unfold Let_def)
  next
    case False
    then show ?thesis
      by (intro exI [of _ 0]) (simp add: spin_until.simps [of host due w] reading_def case_prod_unfold Let_def)
  qed
qed

lemma sent_clock_after:
  assumes "datagram_host sent host"
  shows "sent (clock_after host n w) = sent w"
  using assms by (induction n arbitrary: w) (simp_all add: datagram_host_def)

text \<open>
  A steady clock: it reads what the time is, and no call turns it back. The readings fit the
  signed 64 bits of a nanosecond count.
\<close>

definition steady_clock :: "'w host \<Rightarrow> ('w \<Rightarrow> int) \<Rightarrow> bool" where
  "steady_clock host time \<longleftrightarrow>
     (\<forall>w. fst (host_now host w) = time w \<and> time w \<le> time (snd (host_now host w)) \<and> 0 \<le> time w \<and> time w < 2 ^ 63) \<and>
     (\<forall>t w. time w \<le> time (host_sleep host t w)) \<and> (\<forall>p w. time w \<le> time (snd (host_sendto host p w)))"

lemma spin_until_late:
  assumes "spin_until host due w = Some w'" and "steady_clock host time"
  shows "due \<le> time w'"
proof -
  have "steady_clock h time \<longrightarrow> t \<le> time v'" if "spin_until h t v = Some v'" for h t v v'
  proof (rule spin_until.raw_induct [OF _ that])
    fix spin :: "'a host \<Rightarrow> int \<Rightarrow> 'a \<Rightarrow> 'a option" and h t v v'
    assume IH: "\<And>h t v v'. spin h t v = Some v' \<Longrightarrow> steady_clock h time \<longrightarrow> t \<le> time v'"
      and step: "(let (now, v) = host_now h v in if now < t then spin h t v else Some v) = Some v'"
    show "steady_clock h time \<longrightarrow> t \<le> time v'"
    proof (cases "fst (host_now h v) < t")
      case True
      then show ?thesis using IH [of h t "snd (host_now h v)" v'] step by (simp add: case_prod_unfold)
    next
      case False
      then have "v' = snd (host_now h v)" using step by (simp add: case_prod_unfold)
      moreover have "time v \<le> time (snd (host_now h v))" "fst (host_now h v) = time v" if "steady_clock h time"
        using that by (simp_all add: steady_clock_def)
      ultimately show ?thesis using False by fastforce
    qed
  qed
  then show ?thesis using assms by blast
qed

lemma limiter_wait_due:
  assumes run: "limiter_wait host rl i w = Some (due, w')" and clock: "steady_clock host time"
  shows "\<exists>s. due = word_of_int s \<and> s \<le> time w' \<and>
    (if rl_interval_ns rl \<le> 0 then s = time w else due_offset rl i = Some (s - rl_origin rl))"
proof (cases "rl_interval_ns rl \<le> 0")
  case True
  then show ?thesis
    using run clock by (auto simp: limiter_wait_def now_ns_def steady_clock_def apfst_def map_prod_def case_prod_unfold)
next
  case False
  then obtain off w1 where off: "due_offset rl i = Some off" "due = word_of_int (rl_origin rl + off)"
    "spin_until host (rl_origin rl + off) w1 = Some w'"
    using run by (auto simp: limiter_wait_def Let_def case_prod_unfold split: Option.bind_splits)
  from spin_until_late [OF off(3) clock] show ?thesis
    using False off(1,2) by (intro exI [of _ "rl_origin rl + off"]) simp
qed

lemma limiter_wait_cases:
  assumes "rl_interval_ns rl \<le> 0 \<or> clock_advances host \<and> due_offset rl i \<noteq> None"
  shows "\<exists>due w'. limiter_wait host rl i w = Some (due, w') \<and>
    (datagram_host sent host \<longrightarrow> sent w' = sent w)"
proof (cases "rl_interval_ns rl \<le> 0")
  case True
  then show ?thesis
    by (cases "host_now host w") (auto simp: limiter_wait_def now_ns_def datagram_host_def dest!: spec [of _ w])
next
  case False
  then obtain off where off: "due_offset rl i = Some off" and adv: "clock_advances host" using assms by auto
  let ?due = "rl_origin rl + off"
  obtain now w1 where now: "host_now host w = (now, w1)" by fastforce
  define w2 where "w2 = (if ?due - now > kSleepThreshold then host_sleep host (?due - now - kSleepThreshold) w1 else w1)"
  obtain n where "?due \<le> reading host n w2" using adv by (auto simp: clock_advances_def)
  from spin_until_ends [OF this] obtain k where k: "spin_until host ?due w2 = Some (clock_after host (Suc k) w2)" by blast
  have "limiter_wait host rl i w = Some (word_of_int ?due, clock_after host (Suc k) w2)"
    using False off now k by (simp add: limiter_wait_def w2_def Let_def)
  moreover have "sent (clock_after host (Suc k) w2) = sent w" if "datagram_host sent host"
    using that sent_clock_after [OF that, of "Suc k" w2] now
    by (simp add: w2_def datagram_host_def del: clock_after.simps) (metis snd_conv)
  ultimately show ?thesis by blast
qed

text \<open>With a rate that divides a second into whole nanoseconds, the schedule is exact.\<close>

lemma due_offset_exact:
  assumes "rl_interval_ns rl = of_nat m" and "unat i * m < 2 ^ 53" and "0 < m"
  shows "due_offset rl i = Some (int (unat i * m))"
proof -
  have "unat i \<le> unat i * m" using assms(3) by simp
  then have lt: "unat i < 2 ^ 53" using assms(2) by (rule le_less_trans)
  have "double_of_u64 i = of_nat (unat i)" unfolding double_of_u64_def by (rule fl_nat [OF lt])
  then have "fl (double_of_u64 i * rl_interval_ns rl) = of_int (int (unat i * m))"
    using fl_nat [OF assms(2)] by (simp add: assms(1))
  moreover have "i64_of_double (of_int (int k)) = Some (int k)" if "k < 2 ^ 53" for k
    using that unfolding i64_of_double_def trunc_int by simp
  ultimately show ?thesis unfolding due_offset_def using assms(2) by presburger
qed

end
