(* ===== verification/Replayer.thy ===== *)
theory Replayer
  imports Mold_Network Gap_Injector Host
begin

text \<open>
  The replayer, \<open>src/apps/replayer/main.cc\<close>: it frames an ITCH file, packs the messages, paces
  the packets, drops some on purpose and sends the rest, and ends the session. The bytes of the
  file are an argument, the socket and the clock are the host; the log files and the printed
  summary are the fields of a report.
\<close>

section \<open>Options\<close>

record options =
  op_file :: string
  op_host :: string
  op_port :: u16
  op_rate :: rat
  op_drop_every :: u64
  op_drop_prob :: rat
  op_seed :: u64
  op_multicast :: bool
  op_interface :: string
  op_session :: string
  op_max_payload :: size_t
  op_sndbuf :: int
  op_max_packets :: u64
  op_schedule_log :: string
  op_drop_log :: string

definition default_options :: options where
  "default_options = \<lparr>op_file = '''', op_host = ''127.0.0.1'', op_port = 26477, op_rate = 0,
     op_drop_every = 0, op_drop_prob = 0, op_seed = 1, op_multicast = False, op_interface = ''0.0.0.0'',
     op_session = ''ITCH191230'', op_max_payload = kMaxPayload, op_sndbuf = 0, op_max_packets = 0,
     op_schedule_log = '''', op_drop_log = ''''\<rparr>"

section \<open>The run\<close>

record schedule_entry =
  se_sequence :: u64
  se_count :: u16
  se_scheduled_ns :: u64
  se_actual_ns :: u64
  se_dropped :: bool

record drop_entry =
  de_first :: u64
  de_count :: u64
  de_packet_index :: u64

record 'w run_state =
  rn_packer :: packer
  rn_sender :: udp_sender
  rn_gaps :: gap_injector
  rn_world :: 'w
  rn_schedule :: "schedule_entry list"
  rn_drops :: "drop_entry list"
  rn_read :: u64
  rn_packed :: u64
  rn_built :: u64
  rn_dropped :: u64
  rn_too_large :: u64
  rn_stopped_early :: bool
  rn_refused :: bool

definition choose_gaps :: "options \<Rightarrow> gap_injector" where
  "choose_gaps o' = (if op_drop_every o' \<noteq> 0 then gap_every_nth (op_drop_every o')
     else if op_drop_prob o' > 0 then gap_with_probability (op_drop_prob o') (op_seed o')
     else gap_none)"

text \<open>The lambda \<open>flush\<close>: the sequence advances whether the packet is sent or dropped.\<close>

definition send_or_drop :: "'w host \<Rightarrow> u64 \<Rightarrow> u16 \<Rightarrow> u64 \<Rightarrow> bytes \<Rightarrow> bool \<Rightarrow> 'w run_state \<Rightarrow> 'w run_state" where
  "send_or_drop host seq count index pkt drp r =
     (if drp
      then r\<lparr>rn_dropped := rn_dropped r + 1,
             rn_drops := rn_drops r @ [\<lparr>de_first = seq, de_count = ucast count, de_packet_index = index\<rparr>]\<rparr>
      else (let (_, us, w) = udp_send host pkt (rn_sender r, rn_world r)
            in r\<lparr>rn_sender := us, rn_world := w\<rparr>))"

definition replay_flush :: "'w host \<Rightarrow> options \<Rightarrow> rate_limiter \<Rightarrow> 'w run_state \<Rightarrow> 'w run_state option" where
  "replay_flush host opts limiter r =
     (if packer_empty (rn_packer r) then Some r
      else do {
        let seq = packet_sequence (rn_packer r);
        let count = packer_count (rn_packer r);
        (pkt, pk) \<leftarrow> packer_finish (rn_packer r);
        let index = rn_built r;
        let r = r\<lparr>rn_packer := pk, rn_built := index + 1\<rparr>;
        (due, w) \<leftarrow> limiter_wait host limiter index (rn_world r);
        let (drp, g) = should_drop index (rn_gaps r);
        let r = send_or_drop host seq count index pkt drp (r\<lparr>rn_world := w, rn_gaps := g\<rparr>);
        Some (if op_schedule_log opts \<noteq> '''' then
                (let (now, w) = now_ns host (rn_world r)
                 in r\<lparr>rn_world := w, rn_schedule := rn_schedule r @
                       [\<lparr>se_sequence = seq, se_count = count, se_scheduled_ns = due, se_actual_ns = now,
                         se_dropped = drp\<rparr>]\<rparr>)
              else r) })"

text \<open>The body of the loop; \<open>False\<close> leaves it, by the \<open>break\<close> or by the \<open>return 1\<close>.\<close>

definition replay_body :: "'w host \<Rightarrow> options \<Rightarrow> rate_limiter \<Rightarrow> message_view \<Rightarrow> 'w run_state \<Rightarrow>
    (bool \<times> 'w run_state) option" where
  "replay_body host opts limiter mv r =
     (let r = r\<lparr>rn_read := rn_read r + 1\<rparr>
      in if packer_too_large (mv_size mv) (rn_packer r) then Some (True, r\<lparr>rn_too_large := rn_too_large r + 1\<rparr>)
         else do {
           (added, pk) \<leftarrow> packer_try_add mv (rn_packer r);
           let r = r\<lparr>rn_packer := pk\<rparr>;
           if added then Some (True, r\<lparr>rn_packed := rn_packed r + 1\<rparr>)
           else do {
             r \<leftarrow> replay_flush host opts limiter r;
             if op_max_packets opts \<noteq> 0 \<and> rn_built r \<ge> op_max_packets opts
             then Some (False, r\<lparr>rn_stopped_early := True\<rparr>)
             else do {
               (ok, pk) \<leftarrow> packer_try_add mv (rn_packer r);
               let r = r\<lparr>rn_packer := pk\<rparr>;
               if \<not> ok then Some (False, r\<lparr>rn_refused := True\<rparr>)
               else Some (True, r\<lparr>rn_packed := rn_packed r + 1\<rparr>) } } })"

text \<open>What the summary prints and the process returns.\<close>

record 'w replay_report =
  rp_run :: "'w run_state"
  rp_leftover :: size_t
  rp_packed_all :: bool
  rp_seq_ok :: bool
  rp_exit :: int

definition start_run :: "options \<Rightarrow> session \<Rightarrow> 'w \<Rightarrow> 'w run_state" where
  "start_run opts ses w =
     \<lparr>rn_packer = new_packer ses 1 (op_max_payload opts), rn_sender = new_sender, rn_gaps = choose_gaps opts,
      rn_world = w, rn_schedule = [], rn_drops = [], rn_read = 0, rn_packed = 0, rn_built = 0, rn_dropped = 0,
      rn_too_large = 0, rn_stopped_early = False, rn_refused = False\<rparr>"

definition replay_summary :: "bytes \<Rightarrow> framer \<Rightarrow> 'w run_state \<Rightarrow> 'w replay_report" where
  "replay_summary data fr r =
     (let packed_all = (rn_packed r + rn_too_large r = rn_read r);
          seq_ok = (packet_sequence (rn_packer r) = 1 + rn_packed r)
      in \<lparr>rp_run = r, rp_leftover = word_of_nat (length data) - framer_offset fr,
          rp_packed_all = packed_all, rp_seq_ok = seq_ok,
          rp_exit = (if packed_all \<and> seq_ok \<and> send_failures (rn_sender r) = 0 then 0 else 1)\<rparr>)"

text \<open>\<open>Inl\<close> is the early \<open>return\<close> of a refused message.\<close>

definition replayer_main :: "'w host \<Rightarrow> options \<Rightarrow> bytes \<Rightarrow> 'w \<Rightarrow> (int + 'w replay_report) option" where
  "replayer_main host opts data w =
     do { ses \<leftarrow> make_session (op_session opts @ [CHR 0x00]);
          let (limiter, w) = new_limiter host (op_rate opts) w;
          (fr, r) \<leftarrow> framer_walk (replay_body host opts limiter)
                       (new_framer data (word_of_nat (length data))) (start_run opts ses w);
          if rn_refused r then Some (Inl 1)
          else do {
            let r = (if rn_stopped_early r then r\<lparr>rn_read := rn_read r - 1\<rparr> else r);
            r \<leftarrow> replay_flush host opts limiter r;
            (eos, pk) \<leftarrow> packer_end_of_session (rn_packer r);
            let (_, us, w) = udp_send host eos (rn_sender r, rn_world r);
            let r = r\<lparr>rn_packer := pk, rn_sender := us, rn_world := w\<rparr>;
            Some (Inr (replay_summary data fr r)) } }"

section \<open>What was built, dropped and sent\<close>

fun gaps_after :: "nat \<Rightarrow> u64 \<Rightarrow> gap_injector \<Rightarrow> gap_injector" where
  "gaps_after 0 i g = g"
| "gaps_after (Suc n) i g = gaps_after n (i + 1) (snd (should_drop i g))"

lemma drop_run_snoc:
  "drop_run (Suc n) i g = drop_run n i g @ [fst (should_drop (i + word_of_nat n) (gaps_after n i g))]"
  "gaps_after (Suc n) i g = snd (should_drop (i + word_of_nat n) (gaps_after n i g))"
proof -
  have "drop_run (Suc n) i g = drop_run n i g @ [fst (should_drop (i + word_of_nat n) (gaps_after n i g))] \<and>
     gaps_after (Suc n) i g = snd (should_drop (i + word_of_nat n) (gaps_after n i g))"
  proof (induction n arbitrary: i g)
    case (Suc n)
    then show ?case using Suc.IH [of "i + 1" "snd (should_drop i g)"]
      by (cases "should_drop i g") (simp add: ac_simps)
  qed (simp add: case_prod_unfold)
  then show "drop_run (Suc n) i g = drop_run n i g @ [fst (should_drop (i + word_of_nat n) (gaps_after n i g))]"
    and "gaps_after (Suc n) i g = snd (should_drop (i + word_of_nat n) (gaps_after n i g))" by blast+
qed

lemma length_drop_run [simp]: "length (drop_run n i g) = n"
  by (induction n arbitrary: i g) (simp_all add: case_prod_unfold Let_def)

text \<open>The elements a list of drop decisions keeps.\<close>

definition survivors :: "bool list \<Rightarrow> 'a list \<Rightarrow> 'a list" where
  "survivors ds xs = map snd (filter (\<lambda>(d, _). \<not> d) (zip ds xs))"

lemma survivors_snoc:
  "length ds = length xs \<Longrightarrow> survivors (ds @ [d]) (xs @ [x]) = survivors ds xs @ (if d then [] else [x])"
  by (simp add: survivors_def)

lemma survivors_Nil [simp]: "survivors [] xs = []" "survivors ds [] = []"
  by (simp_all add: survivors_def)

lemma survivors_Cons [simp]: "survivors (d # ds) (x # xs) = (if d then [] else [x]) @ survivors ds xs"
  by (simp add: survivors_def)

lemma survivors_none [simp]: "survivors (replicate (length xs) False) xs = xs"
  by (simp add: survivors_def zip_replicate1 filter_map comp_def)

lemma survivors_subset: "set (survivors ds xs) \<subseteq> set xs"
  by (auto simp: survivors_def dest: set_zip_rightD)

lemma length_survivors_le: "length (survivors ds xs) \<le> length xs"
  unfolding survivors_def length_map
  by (rule order_trans [OF length_filter_le]) simp

lemma packets_of_snoc:
  "packets_of ses seq (cs @ [c]) = packets_of ses seq cs @ [mold_packet ses (seq + word_of_nat (length (concat cs))) c]"
  by (induction cs arbitrary: seq) (simp_all add: ac_simps)

lemma length_packets_of [simp]: "length (packets_of ses seq cs) = length cs"
  by (induction cs arbitrary: seq) simp_all

end
