(* ===== verification/Replayer_Args.thy ===== *)
theory Replayer_Args
  imports Replayer C_Text
begin

text \<open>
  The command line of the replayer: \<open>parse_args\<close> of \<open>src/apps/replayer/main.cc\<close>. The list is
  \<open>argv\<close> without the program's name; \<open>Inl\<close> is the code the process exits with.
\<close>

section \<open>The parser\<close>

text \<open>What a flag with a value does with it; \<open>None\<close> for what is not such a flag.\<close>

definition valued :: "string \<Rightarrow> (string \<Rightarrow> options \<Rightarrow> options option) option" where
  "valued a =
     (if a = ''--host'' then Some (\<lambda>v opts. Some (opts\<lparr>op_host := v\<rparr>))
      else if a = ''--port'' then Some (\<lambda>v opts. map_option (\<lambda>n. opts\<lparr>op_port := word_of_int n\<rparr>) (atoi v))
      else if a = ''--rate'' then Some (\<lambda>v opts. map_option (\<lambda>x. opts\<lparr>op_rate := x\<rparr>) (atof v))
      else if a = ''--drop-every'' then Some (\<lambda>v opts. Some (opts\<lparr>op_drop_every := strtoull v\<rparr>))
      else if a = ''--drop-prob'' then Some (\<lambda>v opts. map_option (\<lambda>x. opts\<lparr>op_drop_prob := x\<rparr>) (atof v))
      else if a = ''--seed'' then Some (\<lambda>v opts. Some (opts\<lparr>op_seed := strtoull v\<rparr>))
      else if a = ''--interface'' then Some (\<lambda>v opts. Some (opts\<lparr>op_interface := v\<rparr>))
      else if a = ''--session'' then Some (\<lambda>v opts. Some (opts\<lparr>op_session := v\<rparr>))
      else if a = ''--max-payload'' then Some (\<lambda>v opts. Some (opts\<lparr>op_max_payload := strtoull v\<rparr>))
      else if a = ''--sndbuf'' then Some (\<lambda>v opts. map_option (\<lambda>n. opts\<lparr>op_sndbuf := n\<rparr>) (atoi v))
      else if a = ''--max-packets'' then Some (\<lambda>v opts. Some (opts\<lparr>op_max_packets := strtoull v\<rparr>))
      else if a = ''--schedule-log'' then Some (\<lambda>v opts. Some (opts\<lparr>op_schedule_log := v\<rparr>))
      else if a = ''--drop-log'' then Some (\<lambda>v opts. Some (opts\<lparr>op_drop_log := v\<rparr>))
      else None)"

fun parse_loop :: "options \<Rightarrow> string list \<Rightarrow> (int + options) option" where
  "parse_loop opts [] = Some (Inr opts)"
| "parse_loop opts (a # args) =
     (case valued a of
        Some put \<Rightarrow>
          (case args of
             [] \<Rightarrow> Some (Inl 2)
           | v # rest \<Rightarrow> (case put v opts of None \<Rightarrow> None | Some opts \<Rightarrow> parse_loop opts rest))
      | None \<Rightarrow>
          if a = ''--multicast'' then parse_loop (opts\<lparr>op_multicast := True\<rparr>) args
          else if a \<noteq> [] \<and> hd a = CHR ''-'' then Some (Inl 2)
          else parse_loop (opts\<lparr>op_file := a\<rparr>) args)"

text \<open>An argument of the process has no null character.\<close>

definition parse_args :: "string list \<Rightarrow> (int + options) option" where
  "parse_args args =
     map_option (\<lambda>res. case res of
         Inl code \<Rightarrow> Inl code
       | Inr opts \<Rightarrow> if op_file opts = [] then Inl 2 else Inr opts)
       (parse_loop default_options args)"

section \<open>What can be asked for\<close>

text \<open>The settings of a command line and how they are written, in any order.\<close>

datatype setting =
    SetFile string | SetHost string | SetPort u16 | SetRate string | SetDropEvery u64 | SetDropProb string
  | SetSeed u64 | SetMulticast | SetInterface string | SetSession string | SetMaxPayload u64 | SetSndbuf nat
  | SetMaxPackets u64 | SetScheduleLog string | SetDropLog string

fun written :: "setting \<Rightarrow> string list" where
  "written (SetFile s) = [s]"
| "written (SetHost s) = [''--host'', s]"
| "written (SetPort p) = [''--port'', decimal (unat p)]"
| "written (SetRate s) = [''--rate'', s]"
| "written (SetDropEvery n) = [''--drop-every'', decimal (unat n)]"
| "written (SetDropProb s) = [''--drop-prob'', s]"
| "written (SetSeed n) = [''--seed'', decimal (unat n)]"
| "written SetMulticast = [''--multicast'']"
| "written (SetInterface s) = [''--interface'', s]"
| "written (SetSession s) = [''--session'', s]"
| "written (SetMaxPayload n) = [''--max-payload'', decimal (unat n)]"
| "written (SetSndbuf n) = [''--sndbuf'', decimal n]"
| "written (SetMaxPackets n) = [''--max-packets'', decimal (unat n)]"
| "written (SetScheduleLog s) = [''--schedule-log'', s]"
| "written (SetDropLog s) = [''--drop-log'', s]"

fun setting_ok :: "setting \<Rightarrow> bool" where
  "setting_ok (SetFile s) \<longleftrightarrow> s \<noteq> [] \<and> hd s \<noteq> CHR ''-''"
| "setting_ok (SetRate s) \<longleftrightarrow> atof s \<noteq> None"
| "setting_ok (SetDropProb s) \<longleftrightarrow> atof s \<noteq> None"
| "setting_ok (SetSndbuf n) \<longleftrightarrow> n < 2 ^ 31"
| "setting_ok _ \<longleftrightarrow> True"

fun asked :: "setting \<Rightarrow> options \<Rightarrow> options" where
  "asked (SetFile s) opts = opts\<lparr>op_file := s\<rparr>"
| "asked (SetHost s) opts = opts\<lparr>op_host := s\<rparr>"
| "asked (SetPort p) opts = opts\<lparr>op_port := p\<rparr>"
| "asked (SetRate s) opts = opts\<lparr>op_rate := the (atof s)\<rparr>"
| "asked (SetDropEvery n) opts = opts\<lparr>op_drop_every := n\<rparr>"
| "asked (SetDropProb s) opts = opts\<lparr>op_drop_prob := the (atof s)\<rparr>"
| "asked (SetSeed n) opts = opts\<lparr>op_seed := n\<rparr>"
| "asked SetMulticast opts = opts\<lparr>op_multicast := True\<rparr>"
| "asked (SetInterface s) opts = opts\<lparr>op_interface := s\<rparr>"
| "asked (SetSession s) opts = opts\<lparr>op_session := s\<rparr>"
| "asked (SetMaxPayload n) opts = opts\<lparr>op_max_payload := n\<rparr>"
| "asked (SetSndbuf n) opts = opts\<lparr>op_sndbuf := int n\<rparr>"
| "asked (SetMaxPackets n) opts = opts\<lparr>op_max_packets := n\<rparr>"
| "asked (SetScheduleLog s) opts = opts\<lparr>op_schedule_log := s\<rparr>"
| "asked (SetDropLog s) opts = opts\<lparr>op_drop_log := s\<rparr>"

lemma atoi_port: "atoi (decimal (unat (p :: u16))) = Some (int (unat p))"
  by (rule atoi_decimal) (use unat_lt_16 [of p] in simp)

lemma valued_file: "a \<noteq> [] \<Longrightarrow> hd a \<noteq> CHR ''-'' \<Longrightarrow> valued a = None"
  by (cases a) (simp_all add: valued_def)

lemma parse_written:
  assumes "setting_ok s"
  shows "parse_loop opts (written s @ args) = parse_loop (asked s opts) args"
  using assms
proof (cases s)
  case (SetFile f)
  then show ?thesis using assms valued_file [of f] by auto
qed (auto simp: valued_def atoi_port atoi_decimal)

lemma parse_all_written:
  assumes "\<forall>s \<in> set ss. setting_ok s"
  shows "parse_loop opts (concat (map written ss) @ args) = parse_loop (fold asked ss opts) args"
  using assms by (induction ss arbitrary: opts) (simp_all add: parse_written)

lemma parse_args_written:
  assumes "\<forall>s \<in> set ss. setting_ok s"
  shows "parse_args (concat (map written ss)) =
    Some (if op_file (fold asked ss default_options) = [] then Inl 2 else Inr (fold asked ss default_options))"
  using parse_all_written [OF assms, of default_options "[]"] by (simp add: parse_args_def)

text \<open>An unknown flag, or a flag without its value, ends the process.\<close>

lemma parse_args_rejects:
  assumes "\<forall>s \<in> set ss. setting_ok s"
  shows "valued a \<noteq> None \<Longrightarrow> parse_args (concat (map written ss) @ [a]) = Some (Inl 2)"
    and "valued a = None \<Longrightarrow> a \<noteq> ''--multicast'' \<Longrightarrow> a \<noteq> [] \<Longrightarrow> hd a = CHR ''-'' \<Longrightarrow>
      parse_args (concat (map written ss) @ a # args) = Some (Inl 2)"
  by (auto simp: parse_args_def parse_all_written [OF assms])

end
