(* ===== verification/Replayer_Logs.thy ===== *)
theory Replayer_Logs
  imports Replayer C_Text
begin

text \<open>
  The two log files the replayer writes after a run (\<open>src/apps/replayer/main.cc\<close>), as text, and a
  reader of such a file: a comment line, then rows of numbers.
\<close>

section \<open>Writing\<close>

definition newline :: string where
  "newline = [CHR 0x0A]"

fun row_text :: "nat list \<Rightarrow> string" where
  "row_text [] = newline"
| "row_text [n] = decimal n @ newline"
| "row_text (n # ns) = decimal n @ '' '' @ row_text ns"

text \<open>\<open>fprintf (f, "%llu %u %llu %llu %d\n", ...)\<close> and \<open>fprintf (f, "%llu %llu %llu\n", ...)\<close>.\<close>

definition schedule_row :: "schedule_entry \<Rightarrow> nat list" where
  "schedule_row e = [unat (se_sequence e), unat (se_count e), unat (se_scheduled_ns e), unat (se_actual_ns e),
     if se_dropped e then 1 else 0]"

definition drop_row :: "drop_entry \<Rightarrow> nat list" where
  "drop_row d = [unat (de_first d), unat (de_count d), unat (de_packet_index d)]"

definition schedule_log_text :: "schedule_entry list \<Rightarrow> string" where
  "schedule_log_text es =
     ''# sequence count scheduled_ns actual_ns dropped'' @ newline @ concat (map (row_text \<circ> schedule_row) es)"

definition drop_log_text :: "u64 \<Rightarrow> drop_entry list \<Rightarrow> string" where
  "drop_log_text seed ds =
     ''# first_sequence count packet_index   (seed '' @ decimal (unat seed) @ '')'' @ newline @
     concat (map (row_text \<circ> drop_row) ds)"

text \<open>A file that cannot be opened is left alone; the results are what the two files hold.\<close>

definition write_logs :: "(string \<Rightarrow> bool) \<Rightarrow> options \<Rightarrow> 'w run_state \<Rightarrow> (string \<times> string) list" where
  "write_logs can_open opts r =
     (if op_schedule_log opts \<noteq> [] \<and> can_open (c_str (op_schedule_log opts))
      then [(op_schedule_log opts, schedule_log_text (rn_schedule r))] else []) @
     (if op_drop_log opts \<noteq> [] \<and> can_open (c_str (op_drop_log opts))
      then [(op_drop_log opts, drop_log_text (op_seed opts) (rn_drops r))] else [])"

section \<open>Reading\<close>

definition read_rows :: "string \<Rightarrow> nat list list" where
  "read_rows s = map (map decimal_value \<circ> split_on CHR '' '') (tl (butlast (split_on CHR 0x0A s)))"

lemma decimal_plain: "CHR '' '' \<notin> set (decimal n)" "CHR 0x0A \<notin> set (decimal n)"
  using decimal_digits [of n] digit_not(5,6) by blast+

text \<open>A row is a line without a line break inside, and its words are its numbers.\<close>

fun row_words :: "nat list \<Rightarrow> string" where
  "row_words [] = []"
| "row_words [n] = decimal n"
| "row_words (n # ns) = decimal n @ '' '' @ row_words ns"

lemma row_text_words: "row_text ns = row_words ns @ newline"
  by (induction ns rule: row_words.induct) simp_all

lemma row_words_plain: "CHR 0x0A \<notin> set (row_words ns)"
  by (induction ns rule: row_words.induct) (simp_all add: decimal_plain)

lemma row_words_read: "ns \<noteq> [] \<Longrightarrow> map decimal_value (split_on CHR '' '' (row_words ns)) = ns"
  by (induction ns rule: row_words.induct) (simp_all add: split_on_word split_on_append decimal_plain)

lemma split_rows: "split_on CHR 0x0A (concat (map row_text rows)) = map row_words rows @ [[]]"
  by (induction rows) (simp_all add: row_text_words newline_def split_on_append row_words_plain)

lemma read_rows_text:
  assumes "CHR 0x0A \<notin> set title" and "\<forall>ns \<in> set rows. ns \<noteq> []"
  shows "read_rows (title @ newline @ concat (map row_text rows)) = rows"
  using assms(2)
  by (auto simp: read_rows_def newline_def split_on_append [OF assms(1)] split_rows row_words_read intro: map_idI)

text \<open>Both logs are read back to what was logged.\<close>

definition entry_of_row :: "nat list \<Rightarrow> schedule_entry" where
  "entry_of_row ns = \<lparr>se_sequence = word_of_nat (ns ! 0), se_count = word_of_nat (ns ! 1),
     se_scheduled_ns = word_of_nat (ns ! 2), se_actual_ns = word_of_nat (ns ! 3), se_dropped = (ns ! 4 = 1)\<rparr>"

definition drop_of_row :: "nat list \<Rightarrow> drop_entry" where
  "drop_of_row ns = \<lparr>de_first = word_of_nat (ns ! 0), de_count = word_of_nat (ns ! 1), de_packet_index = word_of_nat (ns ! 2)\<rparr>"

lemma read_schedule_log: "map entry_of_row (read_rows (schedule_log_text es)) = es"
proof -
  have "read_rows (schedule_log_text es) = map schedule_row es"
    unfolding schedule_log_text_def map_map [symmetric]
    by (rule read_rows_text) (simp_all add: schedule_row_def)
  moreover have "entry_of_row (schedule_row e) = e" for e
    by (cases e) (simp add: entry_of_row_def schedule_row_def)
  ultimately show ?thesis by (simp add: comp_def)
qed

lemma read_drop_log: "map drop_of_row (read_rows (drop_log_text seed ds)) = ds"
proof -
  have "read_rows (drop_log_text seed ds) = map drop_row ds"
    unfolding drop_log_text_def map_map [symmetric] append_assoc [symmetric, of _ _ "'')'' @ _"]
    using read_rows_text [of "''# first_sequence count packet_index   (seed '' @ decimal (unat seed) @ '')''" "map drop_row ds"]
    by (simp add: drop_row_def decimal_plain)
  moreover have "drop_of_row (drop_row d) = d" for d
    by (cases d) (simp add: drop_of_row_def drop_row_def)
  ultimately show ?thesis by (simp add: comp_def)
qed

end
