(* ===== verification/Replayer_Laws.thy ===== *)
theory Replayer_Laws
  imports Replayer
begin

text \<open>
  The run of the replayer against what it should send: the messages that fit, cut into chunks of
  a packet each, with the packets the injector picks left out.
\<close>

section \<open>The state of a run\<close>

definition fits_in :: "size_t \<Rightarrow> bytes \<Rightarrow> bool" where
  "fits_in maxp m \<longleftrightarrow> blocks_length [m] \<le> unat maxp"

definition fitting :: "size_t \<Rightarrow> message_view list \<Rightarrow> bytes list" where
  "fitting maxp vs = filter (fits_in maxp) (map view_bytes vs)"

lemma fitting_simps [simp]:
  "fitting maxp [] = []"
  "fitting maxp (vs @ vs') = fitting maxp vs @ fitting maxp vs'"
  "fitting maxp [v] = (if fits_in maxp (view_bytes v) then [view_bytes v] else [])"
  by (simp_all add: fitting_def)

lemma length_fitting: "length (fitting maxp vs) \<le> length vs"
  unfolding fitting_def by (rule order_trans [OF length_filter_le]) simp

text \<open>The entries of the drop log: a chunk's first number, its length and its packet's index.\<close>

fun drops_of :: "nat \<Rightarrow> nat \<Rightarrow> bool list \<Rightarrow> bytes list list \<Rightarrow> drop_entry list" where
  "drops_of n i (d # ds) (c # cs) =
     (if d then [\<lparr>de_first = word_of_nat n, de_count = word_of_nat (length c), de_packet_index = word_of_nat i\<rparr>] else []) @
     drops_of (n + length c) (Suc i) ds cs"
| "drops_of n i _ _ = []"

lemma drops_of_snoc:
  "length ds = length cs \<Longrightarrow> drops_of n i (ds @ [d]) (cs @ [c]) = drops_of n i ds cs @
     (if d then [\<lparr>de_first = word_of_nat (n + length (concat cs)), de_count = word_of_nat (length c),
        de_packet_index = word_of_nat (i + length cs)\<rparr>] else [])"
  by (induction n i ds cs rule: drops_of.induct) (simp_all add: ac_simps)

lemma length_drops_of: "length ds = length cs \<Longrightarrow> length (drops_of n i ds cs) = length (filter id ds)"
  by (induction n i ds cs rule: drops_of.induct) simp_all

text \<open>
  The packets of a run in order: index, sequence, count, whether it is dropped, and its bytes. What
  pacing, sending and logging them one after another does to the world, and the schedule this logs.
\<close>

fun plan_of :: "session \<Rightarrow> nat \<Rightarrow> nat \<Rightarrow> bool list \<Rightarrow> bytes list list \<Rightarrow> (u64 \<times> u64 \<times> u16 \<times> bool \<times> bytes) list" where
  "plan_of ses n i (d # ds) (c # cs) =
     (word_of_nat i, word_of_nat n, word_of_nat (length c), d, mold_packet ses (word_of_nat n) c) #
     plan_of ses (n + length c) (Suc i) ds cs"
| "plan_of ses n i _ _ = []"

definition schedule_step :: "'w host \<Rightarrow> rate_limiter \<Rightarrow> bool \<Rightarrow> u64 \<times> u64 \<times> u16 \<times> bool \<times> bytes \<Rightarrow>
    schedule_entry list \<times> 'w \<Rightarrow> (schedule_entry list \<times> 'w) option" where
  "schedule_step host limiter logging = (\<lambda>(i, seq, cnt, d, p) (es, w). do {
     (due, w) \<leftarrow> limiter_wait host limiter i w;
     let w = (if d then w else snd (host_sendto host p w));
     Some (if logging then (let (now, w) = now_ns host w in (es @ [\<lparr>se_sequence = seq, se_count = cnt,
             se_scheduled_ns = due, se_actual_ns = now, se_dropped = d\<rparr>], w))
           else (es, w)) })"

lemma plan_of_snoc:
  "length ds = length cs \<Longrightarrow> plan_of ses n i (ds @ [d]) (cs @ [c]) = plan_of ses n i ds cs @
     [(word_of_nat (i + length cs), word_of_nat (n + length (concat cs)), word_of_nat (length c), d,
       mold_packet ses (word_of_nat (n + length (concat cs))) c)]"
  by (induction ses n i ds cs rule: plan_of.induct) (simp_all add: ac_simps)

text \<open>
  What the schedule says of the packets: their sequence, count and fate; the time each was due when
  the run is paced; and, by a steady clock, none is logged before it was due.
\<close>

definition due_time :: "rate_limiter \<Rightarrow> u64 \<Rightarrow> u64 option" where
  "due_time limiter i = map_option (\<lambda>off. word_of_int (rl_origin limiter + off)) (due_offset limiter i)"

lemma schedule_step_logs:
  assumes "schedule_step host limiter True (i, seq, cnt, d, p) (es, w) = Some (es', w')"
  obtains e where "es' = es @ [e]" and "se_sequence e = seq" and "se_count e = cnt" and "se_dropped e = d"
    and "0 < rl_interval_ns limiter \<longrightarrow> due_time limiter i = Some (se_scheduled_ns e)"
    and "\<forall>time. steady_clock host time \<longrightarrow> 0 \<le> rl_origin limiter \<longrightarrow> sint (se_scheduled_ns e) \<le> sint (se_actual_ns e)"
proof -
  obtain due w1 where wait: "limiter_wait host limiter i w = Some (due, w1)"
    using assms by (auto simp: schedule_step_def split: Option.bind_splits)
  define w2 where "w2 = (if d then w1 else snd (host_sendto host p w1))"
  define e where "e = \<lparr>se_sequence = seq, se_count = cnt, se_scheduled_ns = due,
      se_actual_ns = word_of_int (fst (host_now host w2)), se_dropped = d\<rparr>"
  have "es' = es @ [e]"
    using assms wait by (auto simp: schedule_step_def now_ns_def e_def w2_def Let_def case_prod_unfold)
  moreover have "due_time limiter i = Some (se_scheduled_ns e)" if "0 < rl_interval_ns limiter"
    using that wait by (auto simp: due_time_def e_def limiter_wait_def Let_def case_prod_unfold split: Option.bind_splits)
  moreover have "sint (se_scheduled_ns e) \<le> sint (se_actual_ns e)"
    if clock: "steady_clock host time" and origin: "0 \<le> rl_origin limiter" for time
  proof -
    obtain s where s: "due = word_of_int s" "s \<le> time w1"
      "if rl_interval_ns limiter \<le> 0 then s = time w else due_offset limiter i = Some (s - rl_origin limiter)"
      using limiter_wait_due [OF wait clock] by blast
    have range: "0 \<le> time v \<and> time v < 2 ^ 63" for v using clock by (simp add: steady_clock_def)
    have low: "- (2 ^ 63) \<le> s"
      using s(3) range [of w] origin by (auto simp: due_offset_def i64_of_double_def split: if_splits)
    have later: "time w1 \<le> time w2" "fst (host_now host w2) = time w2"
      using clock by (simp_all add: steady_clock_def w2_def)
    have "sint (word_of_int k :: u64) = k" if "- (2 ^ 63) \<le> k" "k < 2 ^ 63" for k
      using that by (simp add: sint_sbintrunc' signed_take_bit_int_eq_self)
    then show ?thesis using s(1,2) low range [of w1] range [of w2] later by (simp add: e_def)
  qed
  ultimately show thesis by (intro that [of e]) (simp_all add: e_def)
qed

definition schedule_ok :: "'w host \<Rightarrow> rate_limiter \<Rightarrow> (u64 \<times> u64 \<times> u16 \<times> bool \<times> bytes) list \<Rightarrow> schedule_entry list \<Rightarrow> bool" where
  "schedule_ok host limiter plan es \<longleftrightarrow>
     list_all2 (\<lambda>(i, seq, cnt, d, p) e. se_sequence e = seq \<and> se_count e = cnt \<and> se_dropped e = d \<and>
       (0 < rl_interval_ns limiter \<longrightarrow> due_time limiter i = Some (se_scheduled_ns e)) \<and>
       (\<forall>time. steady_clock host time \<longrightarrow> sint (se_scheduled_ns e) \<le> sint (se_actual_ns e)))
       plan es"

lemma schedule_steps_log:
  assumes "foldM (schedule_step host limiter True) plan (es, w) = Some (es', w')"
    and origin: "\<forall>time. steady_clock host time \<longrightarrow> 0 \<le> rl_origin limiter"
  shows "\<exists>new. es' = es @ new \<and> schedule_ok host limiter plan new"
  using assms(1)
proof (induction plan arbitrary: es w)
  case Nil
  then show ?case by (simp add: schedule_ok_def)
next
  case (Cons x plan)
  obtain i seq cnt d p where x: "x = (i, seq, cnt, d, p)" by (metis prod_cases5)
  from Cons.prems obtain es1 w1 where step: "schedule_step host limiter True (i, seq, cnt, d, p) (es, w) = Some (es1, w1)"
    "foldM (schedule_step host limiter True) plan (es1, w1) = Some (es', w')"
    by (auto simp: x split: Option.bind_splits)
  from Cons.IH [OF step(2)] obtain new where new: "es' = es1 @ new" "schedule_ok host limiter plan new" by blast
  from schedule_step_logs [OF step(1)] obtain e where e: "es1 = es @ [e]" "se_sequence e = seq" "se_count e = cnt" "se_dropped e = d"
    "0 < rl_interval_ns limiter \<longrightarrow> due_time limiter i = Some (se_scheduled_ns e)"
    "\<forall>time. steady_clock host time \<longrightarrow> 0 \<le> rl_origin limiter \<longrightarrow> sint (se_scheduled_ns e) \<le> sint (se_actual_ns e)" .
  then have "schedule_ok host limiter (x # plan) (e # new)" using new(2) origin by (auto simp: schedule_ok_def x)
  then show ?case using new(1) e(1) by auto
qed

lemma schedule_steps_silent:
  assumes "foldM (schedule_step host limiter False) plan (es, w) = Some (es', w')"
  shows "es' = es"
  using assms
  by (induction plan arbitrary: w) (auto simp: schedule_step_def split: Option.bind_splits)

text \<open>
  After the views \<open>vs\<close>: the chunks flushed and the chunk being packed hold the messages that
  fit, the injector has decided for the chunks flushed, and the socket has handed over \<open>acc\<close> of
  the packets that were to be sent.
\<close>

definition flushed :: "('w \<Rightarrow> bytes list) \<Rightarrow> 'w host \<Rightarrow> rate_limiter \<Rightarrow> options \<Rightarrow> session \<Rightarrow> 'w \<Rightarrow> bytes list list \<Rightarrow> bytes list \<Rightarrow>
    'w run_state \<Rightarrow> bool" where
  "flushed sent host limiter opts ses w0 chunks acc r \<longleftrightarrow>
     pk_session (rn_packer r) = ses \<and> pk_max_payload (rn_packer r) = op_max_payload opts \<and>
     pk_sequence (rn_packer r) = 1 + word_of_nat (length (concat chunks)) \<and>
     (\<forall>c \<in> set chunks. chunk_ok c \<and> blocks_length c \<le> unat (op_max_payload opts)) \<and>
     rn_built r = word_of_nat (length chunks) \<and>
     rn_gaps r = gaps_after (length chunks) 0 (choose_gaps opts) \<and>
     rn_drops r = drops_of 1 0 (drop_run (length chunks) 0 (choose_gaps opts)) chunks \<and>
     sent (rn_world r) = sent w0 @ acc \<and>
     (let ds = drop_run (length chunks) 0 (choose_gaps opts);
          offered = survivors ds (packets_of ses 1 chunks)
      in foldM (schedule_step host limiter (op_schedule_log opts \<noteq> '''')) (plan_of ses 1 0 ds chunks) ([], w0) =
           Some (rn_schedule r, rn_world r) \<and>
         us_bytes (rn_sender r) = word_of_nat (length (concat acc)) \<and>
         rn_dropped r = word_of_nat (length (filter id ds)) \<and> subseq acc offered \<and>
         us_packets (rn_sender r) = word_of_nat (length acc) \<and>
         us_failures (rn_sender r) = word_of_nat (length offered - length acc))"

definition packed :: "('w \<Rightarrow> bytes list) \<Rightarrow> 'w host \<Rightarrow> rate_limiter \<Rightarrow> options \<Rightarrow> session \<Rightarrow> 'w \<Rightarrow> message_view list \<Rightarrow> bytes list list \<Rightarrow>
    bytes list \<Rightarrow> bytes list \<Rightarrow> 'w run_state \<Rightarrow> bool" where
  "packed sent host limiter opts ses w0 vs chunks cur acc r \<longleftrightarrow>
     flushed sent host limiter opts ses w0 chunks acc r \<and> pk_holds cur (rn_packer r) \<and>
     concat chunks @ cur = fitting (op_max_payload opts) vs \<and>
     rn_packed r = word_of_nat (length (fitting (op_max_payload opts) vs)) \<and>
     rn_too_large r = word_of_nat (length vs - length (fitting (op_max_payload opts) vs)) \<and>
     \<not> rn_refused r"

text \<open>The limiter can pace the first \<open>n\<close> packets.\<close>

definition paced :: "'w host \<Rightarrow> rate_limiter \<Rightarrow> nat \<Rightarrow> bool" where
  "paced host limiter n \<longleftrightarrow> rl_interval_ns limiter \<le> 0 \<or>
     clock_advances host \<and> (\<forall>i. unat i < n \<longrightarrow> due_offset limiter i \<noteq> None)"

lemma datagram_now: "datagram_host sent host \<Longrightarrow> sent (snd (host_now host w)) = sent w"
  by (simp add: datagram_host_def)

lemma subseq_snoc: "subseq xs ys \<Longrightarrow> subseq (xs @ zs) (ys @ zs)"
  by (simp add: list_emb_append_mono)

lemma subseq_snoc_skip: "subseq xs ys \<Longrightarrow> subseq xs (ys @ zs)"
  by (rule list_emb_prefix)

lemma subseq_length: "subseq xs ys \<Longrightarrow> length xs \<le> length ys"
  by (rule list_emb_length)

text \<open>Sending one more packet.\<close>

lemma send_one:
  assumes host: "datagram_host sent host" and run: "udp_send host p (us, w) = (ok, us', w')"
    and w: "sent w = base @ acc" and sub: "subseq acc offered"
    and us: "us_packets us = word_of_nat (length acc)" "us_failures us = word_of_nat (length offered - length acc)"
      "us_bytes us = word_of_nat (length (concat acc))"
  shows "\<exists>acc'. sent w' = base @ acc' \<and> subseq acc' (offered @ [p]) \<and> us_bytes us' = word_of_nat (length (concat acc')) \<and>
     us_packets us' = word_of_nat (length acc') \<and> us_failures us' = word_of_nat (length (offered @ [p]) - length acc')"
  using udp_send_cases [OF host run]
proof (elim disjE conjE)
  assume "sent w' = sent w @ [p]"
    and "us' = us\<lparr>us_packets := us_packets us + 1, us_bytes := us_bytes us + word_of_nat (length p)\<rparr>"
  then show ?thesis using w us subseq_snoc [OF sub] by (intro exI [of _ "acc @ [p]"]) simp
next
  assume "sent w' = sent w" and "us' = us\<lparr>us_failures := us_failures us + 1\<rparr>"
  then show ?thesis
    using w us subseq_snoc_skip [OF sub] subseq_length [OF sub]
    by (intro exI [of _ acc]) (simp add: Suc_diff_le)
qed

text \<open>Sending a packet or leaving it out, and what that does not touch.\<close>

lemma send_or_drop_frame [simp]:
  "rn_packer (send_or_drop host seq cnt i p d r) = rn_packer r" "rn_built (send_or_drop host seq cnt i p d r) = rn_built r"
  "rn_gaps (send_or_drop host seq cnt i p d r) = rn_gaps r" "rn_packed (send_or_drop host seq cnt i p d r) = rn_packed r"
  "rn_too_large (send_or_drop host seq cnt i p d r) = rn_too_large r" "rn_read (send_or_drop host seq cnt i p d r) = rn_read r"
  "rn_stopped_early (send_or_drop host seq cnt i p d r) = rn_stopped_early r"
  "rn_refused (send_or_drop host seq cnt i p d r) = rn_refused r"
  "rn_dropped (send_or_drop host seq cnt i p d r) = rn_dropped r + (if d then 1 else 0)"
  "rn_schedule (send_or_drop host seq cnt i p d r) = rn_schedule r"
  "rn_drops (send_or_drop host seq cnt i p d r) = rn_drops r @
     (if d then [\<lparr>de_first = seq, de_count = ucast cnt, de_packet_index = i\<rparr>] else [])"
  by (simp_all add: send_or_drop_def Let_def split: prod.split)

lemma send_or_drop_world:
  "rn_world (send_or_drop host seq cnt i p d r) = (if d then rn_world r else snd (host_sendto host p (rn_world r)))"
  by (simp add: send_or_drop_def Let_def udp_send_world case_prod_unfold)

lemma offer_one:
  assumes host: "datagram_host sent host" and w: "sent (rn_world r) = base @ acc" and sub: "subseq acc offered"
    and us: "us_packets (rn_sender r) = word_of_nat (length acc)"
      "us_failures (rn_sender r) = word_of_nat (length offered - length acc)"
      "us_bytes (rn_sender r) = word_of_nat (length (concat acc))"
  obtains acc' where "sent (rn_world (send_or_drop host seq cnt i p d r)) = base @ acc'"
    and "subseq acc' (offered @ (if d then [] else [p]))"
    and "us_packets (rn_sender (send_or_drop host seq cnt i p d r)) = word_of_nat (length acc')"
    and "us_failures (rn_sender (send_or_drop host seq cnt i p d r)) =
      word_of_nat (length (offered @ (if d then [] else [p])) - length acc')"
    and "us_bytes (rn_sender (send_or_drop host seq cnt i p d r)) = word_of_nat (length (concat acc'))"
proof (cases d)
  case True
  then show thesis using that [of acc] w sub us by (simp add: send_or_drop_def)
next
  case False
  obtain ok us' w' where s: "udp_send host p (rn_sender r, rn_world r) = (ok, us', w')" by (metis prod_cases3)
  show thesis
    using send_one [OF host s w sub us] that False by (auto simp: send_or_drop_def s Let_def)
qed

text \<open>The entry of the schedule log.\<close>

definition log_entry :: "'w host \<Rightarrow> options \<Rightarrow> u64 \<Rightarrow> u16 \<Rightarrow> u64 \<Rightarrow> bool \<Rightarrow> 'w run_state \<Rightarrow> 'w run_state" where
  "log_entry host opts seq cnt due d r =
     (if op_schedule_log opts \<noteq> '''' then
        (let (now, w) = now_ns host (rn_world r)
         in r\<lparr>rn_world := w, rn_schedule := rn_schedule r @
               [\<lparr>se_sequence = seq, se_count = cnt, se_scheduled_ns = due, se_actual_ns = now, se_dropped = d\<rparr>]\<rparr>)
      else r)"

lemma log_entry_frame:
  assumes "datagram_host sent host"
  shows "sent (rn_world (log_entry host opts seq cnt due d r)) = sent (rn_world r)"
    and "rn_packer (log_entry host opts seq cnt due d r) = rn_packer r" "rn_built (log_entry host opts seq cnt due d r) = rn_built r"
    and "rn_gaps (log_entry host opts seq cnt due d r) = rn_gaps r" "rn_packed (log_entry host opts seq cnt due d r) = rn_packed r"
    and "rn_too_large (log_entry host opts seq cnt due d r) = rn_too_large r" "rn_read (log_entry host opts seq cnt due d r) = rn_read r"
    and "rn_stopped_early (log_entry host opts seq cnt due d r) = rn_stopped_early r"
    and "rn_refused (log_entry host opts seq cnt due d r) = rn_refused r"
    and "rn_drops (log_entry host opts seq cnt due d r) = rn_drops r"
    and "rn_dropped (log_entry host opts seq cnt due d r) = rn_dropped r" "rn_sender (log_entry host opts seq cnt due d r) = rn_sender r"
  using datagram_now [OF assms, of "rn_world r"]
  by (simp_all add: log_entry_def now_ns_def case_prod_unfold Let_def)

lemma flush_nonempty:
  assumes host: "datagram_host sent host"
    and paced: "paced host limiter n" "length chunks < n" "n < 2 ^ 64"
    and fl: "flushed sent host limiter opts ses w0 chunks acc r" and holds: "pk_holds cur (rn_packer r)"
    and cur: "cur \<noteq> []" "\<forall>m \<in> set cur. m \<noteq> [] \<and> length m < 65536"
  shows "\<exists>r' acc'. replay_flush host opts limiter r = Some r' \<and>
     flushed sent host limiter opts ses w0 (chunks @ [cur]) acc' r' \<and> pk_holds [] (rn_packer r') \<and>
     rn_packed r' = rn_packed r \<and> rn_too_large r' = rn_too_large r \<and> rn_read r' = rn_read r \<and>
     rn_stopped_early r' = rn_stopped_early r \<and> rn_refused r' = rn_refused r"
proof -
  let ?g = "choose_gaps opts" and ?n = "length chunks" and ?pk = "rn_packer r"
  let ?ds = "drop_run ?n 0 ?g" and ?pkts = "packets_of ses 1 chunks"
  let ?offered = "survivors ?ds ?pkts"
  have F: "pk_session ?pk = ses" "pk_max_payload ?pk = op_max_payload opts"
    "pk_sequence ?pk = 1 + word_of_nat (length (concat chunks))"
    "\<forall>c \<in> set chunks. chunk_ok c \<and> blocks_length c \<le> unat (op_max_payload opts)"
    "rn_built r = word_of_nat ?n" "rn_gaps r = gaps_after ?n 0 ?g" "sent (rn_world r) = sent w0 @ acc"
    "rn_dropped r = word_of_nat (length (filter id ?ds))" "subseq acc ?offered"
    "us_packets (rn_sender r) = word_of_nat (length acc)"
    "us_failures (rn_sender r) = word_of_nat (length ?offered - length acc)"
    "rn_drops r = drops_of 1 0 ?ds chunks" "us_bytes (rn_sender r) = word_of_nat (length (concat acc))"
    "foldM (schedule_step host limiter (op_schedule_log opts \<noteq> '''')) (plan_of ses 1 0 ?ds chunks) ([], w0) =
      Some (rn_schedule r, rn_world r)"
    using fl unfolding flushed_def Let_def by blast+
  let ?p = "mold_packet ses (pk_sequence ?pk) cur"
  from finish_correct [OF holds] obtain pk' where pk': "packer_finish ?pk = Some (?p, pk')"
    "pk_holds [] pk'" "pk_session pk' = ses" "pk_sequence pk' = pk_sequence ?pk + word_of_nat (length cur)"
    "pk_max_payload pk' = op_max_payload opts"
    unfolding F(1,2) by blast
  have cnt: "unat (pk_count ?pk) = length cur" using holds by (simp add: pk_holds_def)
  then have count16: "pk_count ?pk = word_of_nat (length cur)" by (metis of_nat_unat ucast_id)
  from cnt have count: "ucast (pk_count ?pk) = (word_of_nat (length cur) :: u64)" by (metis of_nat_unat)
  from cnt have ne: "\<not> packer_empty ?pk" using cur(1) by (auto simp: packer_empty_def)
  have chunk: "chunk_ok cur" "blocks_length cur \<le> unat (op_max_payload opts)"
    using holds cur F(2) by (auto simp: chunk_ok_def pk_holds_def)
  have "unat (rn_built r) = ?n" using paced(2,3) by (simp add: F(5) unat_of_nat_64)
  then have "rl_interval_ns limiter \<le> 0 \<or> clock_advances host \<and> due_offset limiter (rn_built r) \<noteq> None"
    using paced(1,2) by (auto simp: paced_def)
  from limiter_wait_cases [OF this, of "rn_world r" sent] obtain due w1
    where wait: "limiter_wait host limiter (rn_built r) (rn_world r) = Some (due, w1)" "sent w1 = sent w0 @ acc"
    using host F(7) by auto
  obtain d g where d: "should_drop (rn_built r) (rn_gaps r) = (d, g)" by fastforce
  have snoc: "drop_run (Suc ?n) 0 ?g = ?ds @ [d]" "gaps_after (Suc ?n) 0 ?g = g"
    using drop_run_snoc [of ?n 0 ?g] d by (simp_all add: F(5,6))
  have pkts: "packets_of ses 1 (chunks @ [cur]) = ?pkts @ [?p]" by (simp add: packets_of_snoc F(3))
  have offered: "survivors (?ds @ [d]) (?pkts @ [?p]) = ?offered @ (if d then [] else [?p])"
    by (simp add: survivors_snoc)
  let ?r1 = "r\<lparr>rn_packer := pk', rn_built := rn_built r + 1, rn_world := w1, rn_gaps := g\<rparr>"
  let ?r2 = "send_or_drop host (pk_sequence ?pk) (pk_count ?pk) (rn_built r) ?p d ?r1"
  let ?r3 = "log_entry host opts (pk_sequence ?pk) (pk_count ?pk) due d ?r2"
  have run: "replay_flush host opts limiter r = Some ?r3"
    using ne pk'(1) wait(1) d by (simp add: replay_flush_def Let_def log_entry_def)
  have r1: "sent (rn_world ?r1) = sent w0 @ acc" "rn_sender ?r1 = rn_sender r" using wait(2) by simp_all
  obtain acc' where acc': "sent (rn_world ?r2) = sent w0 @ acc'"
    "subseq acc' (?offered @ (if d then [] else [?p]))" "us_packets (rn_sender ?r2) = word_of_nat (length acc')"
    "us_failures (rn_sender ?r2) = word_of_nat (length (?offered @ (if d then [] else [?p])) - length acc')"
    "us_bytes (rn_sender ?r2) = word_of_nat (length (concat acc'))"
    by (rule offer_one [OF host r1(1) F(9), unfolded r1(2), OF F(10,11,13)])
  have dropped: "rn_dropped ?r2 = word_of_nat (length (filter id (?ds @ [d])))" using F(8) by simp
  have drops: "rn_drops ?r2 = drops_of 1 0 (?ds @ [d]) (chunks @ [cur])"
    using F(12) by (simp add: drops_of_snoc F(3,5) count)
  have "schedule_step host limiter (op_schedule_log opts \<noteq> '''')
      (word_of_nat ?n, word_of_nat (1 + length (concat chunks)), word_of_nat (length cur), d, ?p) (rn_schedule r, rn_world r) =
    Some (rn_schedule ?r3, rn_world ?r3)"
    using wait(1) F(3,5) count16
    by (simp add: schedule_step_def log_entry_def send_or_drop_world Let_def case_prod_unfold)
  then have steps: "foldM (schedule_step host limiter (op_schedule_log opts \<noteq> ''''))
      (plan_of ses 1 0 (?ds @ [d]) (chunks @ [cur])) ([], w0) = Some (rn_schedule ?r3, rn_world ?r3)"
    using F(3,14) by (simp add: plan_of_snoc foldM_snoc)
  note r3 = log_entry_frame [OF host]
  have "length (chunks @ [cur]) = Suc ?n" by simp
  then have "flushed sent host limiter opts ses w0 (chunks @ [cur]) acc' ?r3"
    unfolding flushed_def Let_def pkts \<open>length (chunks @ [cur]) = Suc ?n\<close> snoc offered r3
    using pk'(3-5) F(3-5) chunk acc' dropped drops steps by (simp add: ac_simps)
  then show ?thesis using run pk'(2) by (intro exI [of _ ?r3] exI [of _ acc']) (simp add: r3)
qed

section \<open>One turn of the loop\<close>

lemma packed_cong:
  assumes "packed sent host limiter opts ses w0 vs chunks cur acc r"
  shows "packed sent host limiter opts ses w0 vs chunks cur acc (r\<lparr>rn_read := n\<rparr>)"
    and "packed sent host limiter opts ses w0 vs chunks cur acc (r\<lparr>rn_stopped_early := b\<rparr>)"
  using assms by (simp_all add: packed_def flushed_def Let_def)

lemma fitting_prefix_le: "length (fitting maxp vs) \<le> length vs"
  by (rule length_fitting)

text \<open>A message that does not fit an empty packet is counted and skipped.\<close>

lemma packed_skip:
  assumes "packed sent host limiter opts ses w0 vs chunks cur acc r" and "\<not> fits_in (op_max_payload opts) (view_bytes v)"
  shows "packed sent host limiter opts ses w0 (vs @ [v]) chunks cur acc (r\<lparr>rn_too_large := rn_too_large r + 1\<rparr>)"
  using assms length_fitting [of "op_max_payload opts" vs] Suc_diff_le
  by (simp add: packed_def flushed_def Let_def)

text \<open>A message that was added.\<close>

lemma packed_added:
  assumes inv: "packed sent host limiter opts ses w0 vs chunks cur acc r" and fits: "fits_in (op_max_payload opts) (view_bytes v)"
    and pk: "pk_holds (cur @ [view_bytes v]) pk" "pk_session pk = pk_session (rn_packer r)"
      "pk_sequence pk = pk_sequence (rn_packer r)" "pk_max_payload pk = pk_max_payload (rn_packer r)"
  shows "packed sent host limiter opts ses w0 (vs @ [v]) chunks (cur @ [view_bytes v]) acc
     (r\<lparr>rn_packer := pk, rn_packed := rn_packed r + 1\<rparr>)"
  using inv pk fits by (simp add: packed_def flushed_def Let_def flip: append_assoc)

text \<open>A packet under construction only holds messages a block can hold.\<close>

definition views_ok :: "message_view list \<Rightarrow> bool" where
  "views_ok vs \<longleftrightarrow> (\<forall>v \<in> set vs. mv_ok v)"

lemma fitting_messages:
  assumes "views_ok vs" and "m \<in> set (fitting maxp vs)"
  shows "m \<noteq> [] \<and> length m < 65536"
proof -
  from assms obtain v where v: "mv_ok v" "m = view_bytes v" by (auto simp: fitting_def views_ok_def)
  then have "unat (mv_size v) \<noteq> 0" by (simp add: mv_ok_def unat_eq_0)
  then show ?thesis using v length_view_bytes [OF v(1)] by (auto simp: mv_ok_def)
qed

text \<open>A message that finds the packet full: the packet goes out and the message starts the next one.\<close>

lemma full_turn:
  assumes host: "datagram_host sent host" and inv: "packed sent host limiter opts ses w0 vs chunks cur acc r"
    and n: "paced host limiter n" "length chunks < n" "n < 2 ^ 64" and v: "mv_ok v" "views_ok vs"
    and fits: "fits_in (op_max_payload opts) (view_bytes v)" and full: "\<not> pk_room cur (view_bytes v) (rn_packer r)"
  shows "\<exists>r1 acc1. replay_flush host opts limiter (r\<lparr>rn_read := rn_read r + 1\<rparr>) = Some r1 \<and>
    packed sent host limiter opts ses w0 vs (chunks @ [cur]) [] acc1 r1 \<and> rn_read r1 = rn_read r + 1 \<and>
    rn_stopped_early r1 = rn_stopped_early r \<and>
    (\<exists>pk. packer_try_add v (rn_packer r1) = Some (True, pk) \<and>
       packed sent host limiter opts ses w0 (vs @ [v]) (chunks @ [cur]) [view_bytes v] acc1 (r1\<lparr>rn_packer := pk, rn_packed := rn_packed r1 + 1\<rparr>))"
proof -
  let ?r = "r\<lparr>rn_read := rn_read r + 1\<rparr>" and ?m = "view_bytes v"
  have holds: "pk_holds cur (rn_packer r)" and maxp: "pk_max_payload (rn_packer r) = op_max_payload opts"
    using inv by (simp_all add: packed_def flushed_def)
  have cur: "cur \<noteq> []" using full fits by (auto simp: pk_room_def fits_in_def maxp)
  have msgs: "\<forall>m \<in> set cur. m \<noteq> [] \<and> length m < 65536"
    using inv fitting_messages [OF v(2)] unfolding packed_def by (metis in_set_conv_decomp append_assoc)
  have "flushed sent host limiter opts ses w0 chunks acc ?r" "pk_holds cur (rn_packer ?r)"
    using packed_cong(1) [OF inv] holds by (simp_all add: packed_def)
  from flush_nonempty [OF host n this cur msgs] obtain r1 acc1
    where r1: "replay_flush host opts limiter ?r = Some r1" "flushed sent host limiter opts ses w0 (chunks @ [cur]) acc1 r1"
    "pk_holds [] (rn_packer r1)" "rn_packed r1 = rn_packed r" "rn_too_large r1 = rn_too_large r"
    "rn_read r1 = rn_read r + 1" "rn_stopped_early r1 = rn_stopped_early r" "rn_refused r1 = rn_refused r"
    by auto
  have inv2: "packed sent host limiter opts ses w0 vs (chunks @ [cur]) [] acc1 r1" using inv r1 by (simp add: packed_def)
  have "pk_room [] ?m (rn_packer r1)" using fits r1(2) by (simp add: pk_room_def fits_in_def flushed_def)
  from try_add_correct(2) [OF r1(3) v(1) this] obtain pk where pk:
    "packer_try_add v (rn_packer r1) = Some (True, pk)" "pk_holds ([] @ [?m]) pk"
    "pk_session pk = pk_session (rn_packer r1)" "pk_sequence pk = pk_sequence (rn_packer r1)"
    "pk_max_payload pk = pk_max_payload (rn_packer r1)" by auto
  from packed_added [OF inv2 fits pk(2-5)] show ?thesis using r1(1,6,7) inv2 pk(1) by auto
qed

lemma body_turn:
  assumes host: "datagram_host sent host" and inv: "packed sent host limiter opts ses w0 vs chunks cur acc r"
    and n: "paced host limiter n" "length chunks < n" "n < 2 ^ 64" and v: "mv_ok v" "views_ok vs"
  shows "\<exists>go r' chunks' cur' acc'. replay_body host opts limiter v r = Some (go, r') \<and>
    rn_read r' = rn_read r + 1 \<and> length chunks' \<le> Suc (length chunks) \<and>
    (op_max_packets opts \<noteq> 0 \<and> length chunks < unat (op_max_packets opts) \<longrightarrow>
       (go \<longleftrightarrow> length chunks' < unat (op_max_packets opts))) \<and>
    (if go then packed sent host limiter opts ses w0 (vs @ [v]) chunks' cur' acc' r' \<and> rn_stopped_early r' = rn_stopped_early r
     else op_max_packets opts \<noteq> 0 \<and> packed sent host limiter opts ses w0 vs chunks' cur' acc' r' \<and> rn_stopped_early r' \<and> cur' = [])"
proof -
  let ?r = "r\<lparr>rn_read := rn_read r + 1\<rparr>" and ?pk = "rn_packer r" and ?m = "view_bytes v"
  have inv1: "packed sent host limiter opts ses w0 vs chunks cur acc ?r" by (rule packed_cong(1) [OF inv])
  have holds: "pk_holds cur ?pk" and maxp: "pk_max_payload ?pk = op_max_payload opts"
    using inv by (simp_all add: packed_def flushed_def)
  have large: "packer_too_large (mv_size v) ?pk \<longleftrightarrow> \<not> fits_in (op_max_payload opts) ?m"
    by (simp add: too_large_iff [OF v(1)] maxp fits_in_def not_le)
  note add = try_add_correct [OF holds v(1)]
  consider (skip) "\<not> fits_in (op_max_payload opts) ?m"
    | (room) "fits_in (op_max_payload opts) ?m" "pk_room cur ?m ?pk"
    | (full) "fits_in (op_max_payload opts) ?m" "\<not> pk_room cur ?m ?pk" by blast
  then show ?thesis
  proof cases
    case skip
    then have run: "replay_body host opts limiter v r = Some (True, ?r\<lparr>rn_too_large := rn_too_large ?r + 1\<rparr>)"
      using large by (simp add: replay_body_def Let_def)
    show ?thesis
      unfolding run by (intro exI conjI, rule refl) (use packed_skip [OF inv1 skip] in simp_all)
  next
    case room
    from add(2) [OF room(2)] obtain pk where pk: "packer_try_add v ?pk = Some (True, pk)"
      "pk_holds (cur @ [?m]) pk" "pk_session pk = pk_session ?pk" "pk_sequence pk = pk_sequence ?pk"
      "pk_max_payload pk = pk_max_payload ?pk" by blast
    let ?r' = "?r\<lparr>rn_packer := pk, rn_packed := rn_packed ?r + 1\<rparr>"
    have added: "packed sent host limiter opts ses w0 (vs @ [v]) chunks (cur @ [?m]) acc ?r'"
      by (rule packed_added [OF inv1 room(1)]) (simp_all add: pk)
    have run: "replay_body host opts limiter v r = Some (True, ?r')"
      using room(1) large pk(1) by (simp add: replay_body_def Let_def)
    show ?thesis unfolding run by (intro exI conjI, rule refl) (use added in simp_all)
  next
    case full
    from full_turn [OF host inv n v full] obtain r1 acc1 pk where r1:
      "replay_flush host opts limiter ?r = Some r1" "packed sent host limiter opts ses w0 vs (chunks @ [cur]) [] acc1 r1"
      "rn_read r1 = rn_read r + 1" "rn_stopped_early r1 = rn_stopped_early r" "packer_try_add v (rn_packer r1) = Some (True, pk)"
      "packed sent host limiter opts ses w0 (vs @ [v]) (chunks @ [cur]) [?m] acc1 (r1\<lparr>rn_packer := pk, rn_packed := rn_packed r1 + 1\<rparr>)"
      by blast
    have run: "replay_body host opts limiter v r =
       (if op_max_packets opts \<noteq> 0 \<and> rn_built r1 \<ge> op_max_packets opts then Some (False, r1\<lparr>rn_stopped_early := True\<rparr>)
        else Some (True, r1\<lparr>rn_packer := pk, rn_packed := rn_packed r1 + 1\<rparr>))"
      using full large add(1) r1(1,5) by (simp add: replay_body_def Let_def)
    have "rn_built r1 = word_of_nat (Suc (length chunks))" using r1(2) by (simp add: packed_def flushed_def)
    then have "unat (rn_built r1) = Suc (length chunks)" using n(2,3) by (simp add: unat_of_nat_64 del: of_nat_Suc)
    then have limit: "rn_built r1 \<ge> op_max_packets opts \<longleftrightarrow> \<not> Suc (length chunks) < unat (op_max_packets opts)"
      by (simp add: word_le_nat_alt not_less)
    show ?thesis
    proof (cases "op_max_packets opts \<noteq> 0 \<and> rn_built r1 \<ge> op_max_packets opts")
      case True
      then show ?thesis
        using packed_cong(2) [OF r1(2), of True] r1(3) limit unfolding run
        by (intro exI [of _ False] exI [of _ "r1\<lparr>rn_stopped_early := True\<rparr>"] exI [of _ "chunks @ [cur]"] exI) simp
    next
      case False
      then show ?thesis
        using r1(3,4,6) limit unfolding run
        by (intro exI [of _ True] exI [of _ "r1\<lparr>rn_packer := pk, rn_packed := rn_packed r1 + 1\<rparr>"]
            exI [of _ "chunks @ [cur]"] exI [of _ "[?m]"] exI [of _ acc1]) auto
    qed
  qed
qed

section \<open>The loop\<close>

lemma loop_run:
  assumes host: "datagram_host sent host" and inv: "packed sent host limiter opts ses w0 done chunks cur acc r"
    and n: "paced host limiter n" "length chunks + length vs \<le> n" "n < 2 ^ 64" and ok: "views_ok (done @ vs)"
    and r: "\<not> rn_stopped_early r" "rn_read r = word_of_nat (length done)"
      "op_max_packets opts \<noteq> 0 \<longrightarrow> length chunks < unat (op_max_packets opts)"
  shows "\<exists>taken r' vs' chunks' cur' acc'. walk_views (replay_body host opts limiter) vs r = Some (taken, r') \<and>
    packed sent host limiter opts ses w0 (done @ vs') chunks' cur' acc' r' \<and> length chunks' \<le> length chunks + length vs \<and>
    (op_max_packets opts \<noteq> 0 \<longrightarrow> length chunks' \<le> unat (op_max_packets opts) \<and>
       (rn_stopped_early r' \<longleftrightarrow> length chunks' = unat (op_max_packets opts))) \<and>
    (if rn_stopped_early r' then op_max_packets opts \<noteq> 0 \<and> cur' = [] \<and> (\<exists>v. taken = vs' @ [v]) \<and> prefix taken vs \<and>
       rn_read r' = word_of_nat (length (done @ vs')) + 1
     else taken = vs \<and> vs' = vs \<and> rn_read r' = word_of_nat (length (done @ vs')))"
  using inv n(2) ok r
proof (induction vs arbitrary: r "done" chunks cur acc)
  case Nil
  then show ?case
    by (intro exI [of _ "[]"] exI [of _ r] exI [of _ "[]"] exI [of _ chunks] exI [of _ cur] exI [of _ acc]) auto
next
  case (Cons v vs)
  have v: "mv_ok v" "views_ok done" "length chunks < n" using Cons.prems by (auto simp: views_ok_def)
  from body_turn [OF host Cons.prems(1) n(1) v(3) n(3) v(1,2)] obtain go r1 chunks1 cur1 acc1
    where turn: "replay_body host opts limiter v r = Some (go, r1)" "rn_read r1 = rn_read r + 1"
      "length chunks1 \<le> Suc (length chunks)"
      "op_max_packets opts \<noteq> 0 \<longrightarrow> (go \<longleftrightarrow> length chunks1 < unat (op_max_packets opts))"
    and next1: "if go then packed sent host limiter opts ses w0 (done @ [v]) chunks1 cur1 acc1 r1 \<and> rn_stopped_early r1 = rn_stopped_early r
     else op_max_packets opts \<noteq> 0 \<and> packed sent host limiter opts ses w0 done chunks1 cur1 acc1 r1 \<and> rn_stopped_early r1 \<and> cur1 = []"
    using Cons.prems(6) by blast
  show ?case
  proof (cases go)
    case True
    have "packed sent host limiter opts ses w0 (done @ [v]) chunks1 cur1 acc1 r1" "\<not> rn_stopped_early r1"
      "length chunks1 + length vs \<le> n" "views_ok ((done @ [v]) @ vs)" "rn_read r1 = word_of_nat (length (done @ [v]))"
      "op_max_packets opts \<noteq> 0 \<longrightarrow> length chunks1 < unat (op_max_packets opts)"
      using next1 True Cons.prems turn by (simp_all add: add.commute)
    from Cons.IH [OF this(1) this(3) this(4) this(2) this(5,6)] obtain taken r' vs' chunks' cur' acc'
      where IH: "walk_views (replay_body host opts limiter) vs r1 = Some (taken, r')"
        "packed sent host limiter opts ses w0 ((done @ [v]) @ vs') chunks' cur' acc' r'" "length chunks' \<le> length chunks1 + length vs"
        "op_max_packets opts \<noteq> 0 \<longrightarrow> length chunks' \<le> unat (op_max_packets opts) \<and>
           (rn_stopped_early r' \<longleftrightarrow> length chunks' = unat (op_max_packets opts))"
        "if rn_stopped_early r' then op_max_packets opts \<noteq> 0 \<and> cur' = [] \<and> (\<exists>v. taken = vs' @ [v]) \<and> prefix taken vs \<and>
           rn_read r' = word_of_nat (length ((done @ [v]) @ vs')) + 1
         else taken = vs \<and> vs' = vs \<and> rn_read r' = word_of_nat (length ((done @ [v]) @ vs'))"
      by blast
    show ?thesis
      by (intro exI [of _ "v # taken"] exI [of _ r'] exI [of _ "v # vs'"] exI [of _ chunks'] exI [of _ cur']
          exI [of _ acc']) (use IH turn True in \<open>auto split: if_splits\<close>)
  next
    case False
    then have n1: "op_max_packets opts \<noteq> 0" "packed sent host limiter opts ses w0 done chunks1 cur1 acc1 r1"
      "rn_stopped_early r1" "cur1 = []" using next1 by auto
    show ?thesis
      by (intro exI [of _ "[v]"] exI [of _ r1] exI [of _ "[]"] exI [of _ chunks1] exI [of _ cur1] exI [of _ acc1])
        (use n1 turn False Cons.prems(5,6) in auto)
  qed
qed

section \<open>The whole run\<close>

definition run_session :: "options \<Rightarrow> session" where
  "run_session opts = take kSessionSize (op_session opts @ replicate kSessionSize (CHR '' ''))"

lemma length_run_session [simp]: "length (run_session opts) = kSessionSize"
  by (simp add: run_session_def)

text \<open>The datagrams the run offers to the socket for its chunks.\<close>

definition offered_packets :: "options \<Rightarrow> bytes list list \<Rightarrow> bytes list" where
  "offered_packets opts chunks =
     survivors (drop_run (length chunks) 0 (choose_gaps opts)) (packets_of (run_session opts) 1 chunks) @
     [eos_packet (run_session opts) (1 + word_of_nat (length (concat chunks)))]"

lemma start_packed:
  assumes "unat (op_max_payload opts) + kHeaderSize < 2 ^ 64"
  shows "packed sent host rl opts (run_session opts) w [] [] [] [] (start_run opts (run_session opts) w)"
  using new_packer_holds [OF length_run_session assms, of opts 1]
  by (simp add: packed_def flushed_def start_run_def new_packer_def new_sender_def)

lemma packed_length: "packed sent host limiter opts ses w0 vs chunks cur acc r \<Longrightarrow>
    length (concat chunks) + length cur = length (fitting (op_max_payload opts) vs)"
  unfolding packed_def by (metis length_append)

lemma concat_length_ge: "\<forall>c \<in> set cs. c \<noteq> [] \<Longrightarrow> length cs \<le> length (concat cs)"
  by (induction cs) (auto simp: neq_Nil_conv)

lemma packed_few:
  assumes "packed sent host limiter opts ses w0 vs chunks cur acc r"
  shows "length chunks \<le> length vs"
proof -
  have "\<forall>c \<in> set chunks. c \<noteq> []" using assms by (auto simp: packed_def flushed_def chunk_ok_def)
  from concat_length_ge [OF this] packed_length [OF assms] length_fitting [of "op_max_payload opts" vs]
  show ?thesis by linarith
qed

text \<open>The last flush, with or without something to send.\<close>

lemma last_flush:
  assumes host: "datagram_host sent host" and inv: "packed sent host limiter opts ses w0 vs chunks cur acc r"
    and n: "paced host limiter n" "length chunks < n" "n < 2 ^ 64" and ok: "views_ok vs"
  shows "\<exists>r' chunks' acc'. replay_flush host opts limiter r = Some r' \<and>
     packed sent host limiter opts ses w0 vs chunks' [] acc' r' \<and> length chunks' \<le> Suc (length chunks) \<and>
     (cur = [] \<longrightarrow> chunks' = chunks) \<and> rn_read r' = rn_read r"
proof (cases "cur = []")
  case True
  then have "packer_empty (rn_packer r)"
    using inv by (simp add: packed_def pk_holds_def packer_empty_def unat_eq_0)
  then show ?thesis using inv True by (intro exI [of _ r] exI [of _ chunks] exI [of _ acc]) (simp add: replay_flush_def)
next
  case False
  have msgs: "\<forall>m \<in> set cur. m \<noteq> [] \<and> length m < 65536"
    using inv fitting_messages [OF ok] unfolding packed_def by (metis in_set_conv_decomp append_assoc)
  have "flushed sent host limiter opts ses w0 chunks acc r" "pk_holds cur (rn_packer r)" using inv by (simp_all add: packed_def)
  from flush_nonempty [OF host n this False msgs] obtain r1 acc1
    where r1: "replay_flush host opts limiter r = Some r1" "flushed sent host limiter opts ses w0 (chunks @ [cur]) acc1 r1"
    "pk_holds [] (rn_packer r1)" "rn_packed r1 = rn_packed r" "rn_too_large r1 = rn_too_large r"
    "rn_read r1 = rn_read r" "rn_refused r1 = rn_refused r" by auto
  then have "packed sent host limiter opts ses w0 vs (chunks @ [cur]) [] acc1 r1" using inv by (simp add: packed_def)
  then show ?thesis using r1 False by (intro exI [of _ r1] exI [of _ "chunks @ [cur]"] exI [of _ acc1]) simp
qed

lemma subseq_all_or_less:
  assumes "subseq acc offered" and "length offered < 2 ^ 64"
  shows "(word_of_nat (length offered - length acc) :: u64) = 0 \<longleftrightarrow> acc = offered"
proof
  assume "(word_of_nat (length offered - length acc) :: u64) = 0"
  then have "unat (word_of_nat (length offered - length acc) :: u64) = 0" by simp
  then have "length offered - length acc = 0" using assms(2) by (subst (asm) unat_of_nat_64) simp_all
  then have "length acc = length offered" using subseq_length [OF assms(1)] by simp
  then show "acc = offered" by (rule subseq_same_length [OF assms(1)])
qed simp

text \<open>The end of the session and the verdict.\<close>

lemma session_end:
  assumes host: "datagram_host sent host" and inv: "packed sent host rl opts (run_session opts) w0 vs chunks [] acc r"
    and read: "rn_read r = word_of_nat (length vs)" and small: "length vs + 2 < 2 ^ 64"
      "length chunks \<le> length vs"
  shows "\<exists>rep acc'.
     do { (eos, pk) \<leftarrow> packer_end_of_session (rn_packer r);
          let (_, us, w) = udp_send host eos (rn_sender r, rn_world r);
          let r = r\<lparr>rn_packer := pk, rn_sender := us, rn_world := w\<rparr>;
          Some (Inr (replay_summary data fr r)) } = Some (Inr rep :: int + 'w replay_report) \<and>
     sent (rn_world (rp_run rep)) = sent w0 @ acc' \<and> subseq acc' (offered_packets opts chunks) \<and>
     rp_packed_all rep \<and> rp_seq_ok rep \<and> (rp_exit rep = 0 \<longleftrightarrow> acc' = offered_packets opts chunks) \<and>
     rn_read (rp_run rep) = word_of_nat (length vs) \<and>
     rn_packed (rp_run rep) = word_of_nat (length (concat chunks)) \<and>
     rn_dropped (rp_run rep) = rn_dropped r \<and> rn_drops (rp_run rep) = rn_drops r \<and> rn_built (rp_run rep) = rn_built r \<and>
     rn_schedule (rp_run rep) = rn_schedule r \<and> rn_too_large (rp_run rep) = rn_too_large r \<and>
     packets_sent (rn_sender (rp_run rep)) = word_of_nat (length acc') \<and>
     bytes_sent (rn_sender (rp_run rep)) = word_of_nat (length (concat acc')) \<and>
     send_failures (rn_sender (rp_run rep)) = word_of_nat (length (offered_packets opts chunks) - length acc') \<and>
     rp_leftover rep = word_of_nat (length data) - framer_offset fr"
proof -
  let ?fit = "fitting (op_max_payload opts) vs" and ?ses = "run_session opts"
  let ?before = "survivors (drop_run (length chunks) 0 (choose_gaps opts)) (packets_of ?ses 1 chunks)"
  have P: "pk_holds [] (rn_packer r)" "concat chunks = ?fit" "rn_packed r = word_of_nat (length ?fit)"
    "rn_too_large r = word_of_nat (length vs - length ?fit)"
    "pk_session (rn_packer r) = ?ses" "pk_sequence (rn_packer r) = 1 + word_of_nat (length ?fit)"
    "sent (rn_world r) = sent w0 @ acc" "subseq acc ?before"
    "us_packets (rn_sender r) = word_of_nat (length acc)"
    "us_failures (rn_sender r) = word_of_nat (length ?before - length acc)"
    "us_bytes (rn_sender r) = word_of_nat (length (concat acc))"
    using inv by (auto simp: packed_def flushed_def Let_def)
  let ?eos = "eos_packet ?ses (1 + word_of_nat (length ?fit))"
  from end_of_session_correct [OF P(1)] obtain pk where pk: "packer_end_of_session (rn_packer r) = Some (?eos, pk)"
    "pk_sequence pk = 1 + word_of_nat (length ?fit)" unfolding P(5,6) by blast
  obtain sent_ok us w where send: "udp_send host ?eos (rn_sender r, rn_world r) = (sent_ok, us, w)" by (metis prod_cases3)
  from send_one [OF host send P(7-11)] obtain acc' where acc': "sent w = sent w0 @ acc'"
    "subseq acc' (offered_packets opts chunks)"
    "us_failures us = word_of_nat (length (offered_packets opts chunks) - length acc')"
    "us_packets us = word_of_nat (length acc')" "us_bytes us = word_of_nat (length (concat acc'))"
    unfolding offered_packets_def P(2) by blast
  define rep where "rep = replay_summary data fr (r\<lparr>rn_packer := pk, rn_sender := us, rn_world := w\<rparr>)"
  have sum: "rn_packed r + rn_too_large r = rn_read r"
    using length_fitting [of "op_max_payload opts" vs] by (simp add: P(3,4) read flip: of_nat_add)
  have "length (offered_packets opts chunks) \<le> length chunks + 1"
    using length_survivors_le [of "drop_run (length chunks) 0 (choose_gaps opts)" "packets_of ?ses 1 chunks"]
    by (simp add: offered_packets_def)
  then have "length (offered_packets opts chunks) < 2 ^ 64" using small by linarith
  note verdict = subseq_all_or_less [OF acc'(2) this]
  show ?thesis
    by (intro exI [of _ rep] exI [of _ acc'])
      (use pk send sum acc' verdict P(2,3) read in \<open>simp add: rep_def replay_summary_def Let_def\<close>)
qed

lemma file_views_ok:
  assumes "length data < 2 ^ 64"
  shows "views_ok (frame_views (length data) data)"
  using frame_views_inside [of "length data" data] by (auto simp: views_ok_def mv_ok_def)

text \<open>The loop over the file, up to the last packet, with the count of the messages read put right.\<close>

lemma file_loop:
  assumes host: "datagram_host sent host" and payload: "unat (op_max_payload opts) + kHeaderSize < 2 ^ 64"
    and size: "length data < 2 ^ 63" and limiter: "paced host rl (length data + 1)"
  defines "vs \<equiv> frame_views (length data) data"
  obtains taken r vs' chunks cur acc where
    "walk_views (replay_body host opts rl) vs (start_run opts (run_session opts) w1) = Some (taken, r)"
    and "packed sent host rl opts (run_session opts) w1 vs' chunks cur acc (if rn_stopped_early r then r\<lparr>rn_read := rn_read r - 1\<rparr> else r)"
    and "rn_read (if rn_stopped_early r then r\<lparr>rn_read := rn_read r - 1\<rparr> else r) = word_of_nat (length vs')"
    and "\<not> rn_refused r" and "prefix vs' vs" and "length chunks < length data + 1"
    and "op_max_packets opts = 0 \<longrightarrow> vs' = vs \<and> taken = vs"
    and "op_max_packets opts \<noteq> 0 \<longrightarrow> length chunks < unat (op_max_packets opts) \<and> vs' = vs \<or>
      length chunks = unat (op_max_packets opts) \<and> cur = []"
proof -
  let ?ses = "run_session opts"
  have ok: "views_ok vs" unfolding vs_def by (rule file_views_ok) (use size in simp)
  have "frames_length vs \<le> length data" using frame_views_split(2) [of "length data" data] by (simp add: vs_def)
  then have vlen: "length vs \<le> length data" using length_frames_views [of vs] by simp
  have start: "\<not> rn_stopped_early (start_run opts ?ses w1)"
    "rn_read (start_run opts ?ses w1) = word_of_nat (length [])"
    "length [] + length vs \<le> length data + 1" "length data + 1 < 2 ^ 64" "views_ok ([] @ vs)"
    "op_max_packets opts \<noteq> 0 \<longrightarrow> length [] < unat (op_max_packets opts)"
    using ok vlen size by (simp_all add: start_run_def unat_gt_0)
  from loop_run [OF host start_packed [OF payload] limiter start(3-5) start(1,2,6)]
  obtain taken r vs' chunks cur acc where
    walk: "walk_views (replay_body host opts rl) vs (start_run opts ?ses w1) = Some (taken, r)"
    and inv: "packed sent host rl opts ?ses w1 vs' chunks cur acc r"
    and limit: "op_max_packets opts \<noteq> 0 \<longrightarrow> length chunks \<le> unat (op_max_packets opts) \<and>
      (rn_stopped_early r \<longleftrightarrow> length chunks = unat (op_max_packets opts))"
    and stop: "if rn_stopped_early r then op_max_packets opts \<noteq> 0 \<and> cur = [] \<and> (\<exists>v. taken = vs' @ [v]) \<and> prefix taken vs \<and>
       rn_read r = word_of_nat (length vs') + 1
     else taken = vs \<and> vs' = vs \<and> rn_read r = word_of_nat (length vs')"
    unfolding append_Nil by blast
  have prefix: "prefix vs' vs" using stop by (auto split: if_splits dest: append_prefixD)
  have "length chunks < length data + 1" using packed_few [OF inv] prefix_length_le [OF prefix] vlen by simp
  moreover have "packed sent host rl opts ?ses w1 vs' chunks cur acc (if rn_stopped_early r then r\<lparr>rn_read := rn_read r - 1\<rparr> else r)"
    using inv packed_cong(1) [OF inv] by simp
  moreover have "rn_read (if rn_stopped_early r then r\<lparr>rn_read := rn_read r - 1\<rparr> else r) = word_of_nat (length vs')"
    "op_max_packets opts = 0 \<longrightarrow> vs' = vs \<and> taken = vs" using stop by (auto split: if_splits)
  moreover have "op_max_packets opts \<noteq> 0 \<longrightarrow> length chunks < unat (op_max_packets opts) \<and> vs' = vs \<or>
      length chunks = unat (op_max_packets opts) \<and> cur = []"
    using stop limit by (auto split: if_splits)
  moreover have "\<not> rn_refused r" using inv by (simp add: packed_def)
  ultimately show thesis using walk prefix that by blast
qed

text \<open>
  The schedule log of a run: nothing without a file to write it to; else what pacing, sending and
  logging the packets in order gives, with an entry for each.
\<close>

definition schedule_logged :: "'w host \<Rightarrow> options \<Rightarrow> 'w \<Rightarrow> bytes list list \<Rightarrow> schedule_entry list \<Rightarrow> bool" where
  "schedule_logged host opts w chunks es \<longleftrightarrow>
     (let (limiter, w) = new_limiter host (op_rate opts) w;
          plan = plan_of (run_session opts) 1 0 (drop_run (length chunks) 0 (choose_gaps opts)) chunks
      in if op_schedule_log opts = '''' then es = []
         else schedule_ok host limiter plan es \<and>
           map_option fst (foldM (schedule_step host limiter True) plan ([], w)) = Some es)"

lemma schedule_loggedI:
  assumes "new_limiter host (op_rate opts) w = (limiter, w1)"
    and "foldM (schedule_step host limiter (op_schedule_log opts \<noteq> ''''))
      (plan_of (run_session opts) 1 0 (drop_run (length chunks) 0 (choose_gaps opts)) chunks) ([], w1) = Some (es, w2)"
  shows "schedule_logged host opts w chunks es"
proof (cases "op_schedule_log opts = ''''")
  case True
  then show ?thesis
    using assms schedule_steps_silent [of host limiter _ "[]" w1 es w2] by (simp add: schedule_logged_def Let_def)
next
  case False
  have "\<forall>time. steady_clock host time \<longrightarrow> 0 \<le> rl_origin limiter"
    using assms(1) by (auto simp: new_limiter_def steady_clock_def case_prod_unfold Let_def)
  from schedule_steps_log [OF _ this] False show ?thesis
    using assms by (fastforce simp: schedule_logged_def Let_def)
qed

lemma length_plan_of: "length ds = length cs \<Longrightarrow> length (plan_of ses n i ds cs) = length cs"
  by (induction ses n i ds cs rule: plan_of.induct) simp_all

lemma schedule_logged_length:
  assumes "schedule_logged host opts w chunks es" and "op_schedule_log opts \<noteq> ''''"
  shows "length es = length chunks"
  using assms
  by (auto simp: schedule_logged_def schedule_ok_def Let_def case_prod_unfold length_plan_of dest!: list_all2_lengthD)

lemma schedule_logged_late:
  assumes "schedule_logged host opts w chunks es" and "op_schedule_log opts \<noteq> ''''" and "steady_clock host time"
    and "e \<in> set es"
  shows "sint (se_scheduled_ns e) \<le> sint (se_actual_ns e)"
  using assms
  by (auto simp: schedule_logged_def schedule_ok_def Let_def case_prod_unfold list_all2_conv_all_nth in_set_conv_nth)

lemma replayer_correct:
  assumes host: "datagram_host sent host" and ses: "CHR 0x00 \<notin> set (op_session opts)"
    and payload: "unat (op_max_payload opts) + kHeaderSize < 2 ^ 64" and size: "length data < 2 ^ 63"
    and limiter: "paced host (fst (new_limiter host (op_rate opts) w)) (length data + 1)"
  shows "\<exists>rep taken chunks acc. replayer_main host opts data w = Some (Inr rep) \<and>
     prefix taken (frame_views (length data) data) \<and>
     (op_max_packets opts = 0 \<longrightarrow> taken = frame_views (length data) data \<and>
        rp_leftover rep = word_of_nat (length data - frames_length taken)) \<and>
     concat chunks = fitting (op_max_payload opts) taken \<and>
     (\<forall>c \<in> set chunks. chunk_ok c \<and> blocks_length c \<le> unat (op_max_payload opts)) \<and>
     sent (rn_world (rp_run rep)) = sent w @ acc \<and> subseq acc (offered_packets opts chunks) \<and>
     rn_read (rp_run rep) = word_of_nat (length taken) \<and>
     rn_packed (rp_run rep) = word_of_nat (length (concat chunks)) \<and>
     rn_dropped (rp_run rep) = word_of_nat (length (filter id (drop_run (length chunks) 0 (choose_gaps opts)))) \<and>
     rn_drops (rp_run rep) = drops_of 1 0 (drop_run (length chunks) 0 (choose_gaps opts)) chunks \<and>
     rp_packed_all rep \<and> rp_seq_ok rep \<and> (rp_exit rep = 0 \<longleftrightarrow> acc = offered_packets opts chunks) \<and>
     (op_max_packets opts \<noteq> 0 \<longrightarrow> length chunks \<le> unat (op_max_packets opts) \<and>
        (taken \<noteq> frame_views (length data) data \<longrightarrow> length chunks = unat (op_max_packets opts))) \<and>
     rn_built (rp_run rep) = word_of_nat (length chunks) \<and>
     rn_too_large (rp_run rep) = word_of_nat (length taken - length (concat chunks)) \<and>
     packets_sent (rn_sender (rp_run rep)) = word_of_nat (length acc) \<and>
     bytes_sent (rn_sender (rp_run rep)) = word_of_nat (length (concat acc)) \<and>
     send_failures (rn_sender (rp_run rep)) = word_of_nat (length (offered_packets opts chunks) - length acc) \<and>
     schedule_logged host opts w chunks (rn_schedule (rp_run rep))"
proof -
  let ?vs = "frame_views (length data) data" and ?ses = "run_session opts"
  obtain rl w1 where rl: "new_limiter host (op_rate opts) w = (rl, w1)" by fastforce
  have w1: "sent w1 = sent w"
    using rl datagram_now [OF host, of w] by (auto simp: new_limiter_def case_prod_unfold Let_def)
  have len: "length data < 2 ^ 64" "unat (word_of_nat (length data) :: u64) = length data"
    using size by (simp_all add: unat_of_nat_64)
  let ?fr = "new_framer data (word_of_nat (length data))"
  have fr: "fr_ok ?fr" "fr_views ?fr = ?vs" by (simp_all add: new_framer_ok new_framer_views len(2))
  have flen: "frames_length ?vs \<le> length data" using frame_views_split(2) [of "length data" data] by simp
  have vlen: "length ?vs \<le> length data" using length_frames_views [of ?vs] flen by simp
  note limiter' = limiter [unfolded rl fst_conv]
  obtain taken r vs' chunks cur acc where
    walk: "walk_views (replay_body host opts rl) ?vs (start_run opts ?ses w1) = Some (taken, r)"
    and inv: "packed sent host rl opts ?ses w1 vs' chunks cur acc (if rn_stopped_early r then r\<lparr>rn_read := rn_read r - 1\<rparr> else r)"
    and read: "rn_read (if rn_stopped_early r then r\<lparr>rn_read := rn_read r - 1\<rparr> else r) = word_of_nat (length vs')"
    and refused: "\<not> rn_refused r" and prefix: "prefix vs' ?vs" and few: "length chunks < length data + 1"
    and all: "op_max_packets opts = 0 \<longrightarrow> vs' = ?vs \<and> taken = ?vs"
    and limit: "op_max_packets opts \<noteq> 0 \<longrightarrow> length chunks < unat (op_max_packets opts) \<and> vs' = ?vs \<or>
      length chunks = unat (op_max_packets opts) \<and> cur = []"
    by (rule file_loop [OF host payload size limiter'])
  let ?r = "if rn_stopped_early r then r\<lparr>rn_read := rn_read r - 1\<rparr> else r"
  have ok': "views_ok vs'" and len': "length vs' \<le> length data" and size': "length data + 1 < 2 ^ 64"
    using file_views_ok [OF len(1)] vlen prefix_length_le [OF prefix] size set_mono_prefix [OF prefix]
    by (auto simp: views_ok_def)
  from last_flush [OF host inv limiter' few size' ok'] obtain r2 chunks2 acc2 where
    flush: "replay_flush host opts rl ?r = Some r2" "packed sent host rl opts ?ses w1 vs' chunks2 [] acc2 r2"
    "rn_read r2 = word_of_nat (length vs')" "length chunks2 \<le> Suc (length chunks)" "cur = [] \<longrightarrow> chunks2 = chunks"
    unfolding read by blast
  let ?fr' = "?fr\<lparr>fr_pos := word_of_nat (frames_length taken)\<rparr>"
  have "length vs' + 2 < 2 ^ 64" using len' size by simp
  from session_end [OF host flush(2,3) this packed_few [OF flush(2)], of data ?fr'] obtain rep acc3 where
    rep: "do { (eos, pk) \<leftarrow> packer_end_of_session (rn_packer r2);
          let (_, us, w) = udp_send host eos (rn_sender r2, rn_world r2);
          let r = r2\<lparr>rn_packer := pk, rn_sender := us, rn_world := w\<rparr>;
          Some (Inr (replay_summary data ?fr' r)) } = Some (Inr rep :: int + 'a replay_report)"
    "sent (rn_world (rp_run rep)) = sent w1 @ acc3" "subseq acc3 (offered_packets opts chunks2)"
    "rp_packed_all rep" "rp_seq_ok rep" "rp_exit rep = 0 \<longleftrightarrow> acc3 = offered_packets opts chunks2"
    "rn_read (rp_run rep) = word_of_nat (length vs')" "rn_packed (rp_run rep) = word_of_nat (length (concat chunks2))"
    "rn_dropped (rp_run rep) = rn_dropped r2" "rn_drops (rp_run rep) = rn_drops r2" "rn_built (rp_run rep) = rn_built r2"
    "rp_leftover rep = word_of_nat (length data) - framer_offset ?fr'"
    "rn_schedule (rp_run rep) = rn_schedule r2" "rn_too_large (rp_run rep) = rn_too_large r2"
    "packets_sent (rn_sender (rp_run rep)) = word_of_nat (length acc3)"
    "bytes_sent (rn_sender (rp_run rep)) = word_of_nat (length (concat acc3))"
    "send_failures (rn_sender (rp_run rep)) = word_of_nat (length (offered_packets opts chunks2) - length acc3)" by blast
  have "make_session (op_session opts @ [CHR 0x00]) = Some ?ses"
    using make_session_eq [OF ses, of "[]"] by (simp add: run_session_def)
  moreover have "framer_walk (replay_body host opts rl) ?fr (start_run opts ?ses w1) = Some (?fr', r)"
    unfolding framer_walk_correct [OF fr(1)] fr(2) walk by (simp add: new_framer_def)
  ultimately have run: "replayer_main host opts data w = Some (Inr rep)"
    using rep(1) flush(1) rl refused by (simp add: replayer_main_def)
  have P: "concat chunks2 = fitting (op_max_payload opts) vs'"
    "\<forall>c \<in> set chunks2. chunk_ok c \<and> blocks_length c \<le> unat (op_max_payload opts)"
    "rn_dropped r2 = word_of_nat (length (filter id (drop_run (length chunks2) 0 (choose_gaps opts))))"
    "rn_drops r2 = drops_of 1 0 (drop_run (length chunks2) 0 (choose_gaps opts)) chunks2"
    "rn_built r2 = word_of_nat (length chunks2)" "rn_too_large r2 = word_of_nat (length vs' - length (concat chunks2))"
    using flush(2) by (auto simp: packed_def flushed_def Let_def)
  have steps: "foldM (schedule_step host rl (op_schedule_log opts \<noteq> ''''))
      (plan_of ?ses 1 0 (drop_run (length chunks2) 0 (choose_gaps opts)) chunks2) ([], w1) = Some (rn_schedule r2, rn_world r2)"
    using flush(2) by (simp add: packed_def flushed_def Let_def)
  have "op_max_packets opts \<noteq> 0 \<longrightarrow> length chunks2 \<le> unat (op_max_packets opts) \<and>
      (vs' \<noteq> ?vs \<longrightarrow> length chunks2 = unat (op_max_packets opts))"
    using limit flush(4,5) by auto
  moreover have "schedule_logged host opts w chunks2 (rn_schedule (rp_run rep))"
    unfolding rep(13) by (rule schedule_loggedI [OF rl steps])
  moreover note all
  moreover have "rp_leftover rep = word_of_nat (length data - frames_length ?vs)" if "taken = ?vs"
    using flen that by (simp add: rep(12) framer_offset_def of_nat_diff)
  ultimately show ?thesis
    by (intro exI [of _ rep] exI [of _ vs'] exI [of _ chunks2] exI [of _ acc3])
      (use run prefix rep(2-11,14-17) P w1 in auto)
qed

end
