(* ===== verification/File_Buffer.thy ===== *)
theory File_Buffer
  imports Feed_Handler Sockets
begin

text \<open>
  \<open>read_file\<close> of \<open>src/common/file_buffer.cc\<close>, over a parameter for the file system, and the process
  of the feed handler: the guard of \<open>main\<close> in \<open>src/apps/feed_handler/main.cc\<close>, the file and the run.
\<close>

section \<open>Reading a file\<close>

text \<open>
  What \<open>ifstream\<close> finds under a name: \<open>None\<close> when it does not open, else what \<open>tellg\<close> answers at the
  end and what a read of so many bytes from the start gives, if they are there.
\<close>

type_synonym file_system = "string \<Rightarrow> (int \<times> (nat \<Rightarrow> bytes option)) option"

definition read_file :: "file_system \<Rightarrow> string \<Rightarrow> string + bytes" where
  "read_file fs path =
     (case fs (c_str path) of
        None \<Rightarrow> Inl (''failed to open file: '' @ path)
      | Some (total_size, content) \<Rightarrow>
          if total_size < 0 then Inl (''failed to determine size of: '' @ path)
          else (case content (nat total_size) of
             None \<Rightarrow> Inl (''failed to read contents of: '' @ path)
           | Some buffer \<Rightarrow> Inr buffer))"

text \<open>A file system of regular files: the size is the length, and a read of that size gives the contents.\<close>

definition regular_files :: "(string \<Rightarrow> bytes option) \<Rightarrow> file_system \<Rightarrow> bool" where
  "regular_files files fs \<longleftrightarrow>
     (\<forall>name. case files name of
        None \<Rightarrow> fs name = None
      | Some b \<Rightarrow> \<exists>content. fs name = Some (int (length b), content) \<and> content (length b) = Some b)"

lemma read_regular:
  assumes "regular_files files fs"
  shows "read_file fs path =
    (case files (c_str path) of None \<Rightarrow> Inl (''failed to open file: '' @ path) | Some b \<Rightarrow> Inr b)"
proof -
  have "case files (c_str path) of
      None \<Rightarrow> fs (c_str path) = None
    | Some b \<Rightarrow> \<exists>content. fs (c_str path) = Some (int (length b), content) \<and> content (length b) = Some b"
    using assms by (simp add: regular_files_def)
  then show ?thesis by (auto simp: read_file_def split: option.splits)
qed

section \<open>The feed handler as a process\<close>

text \<open>The exit code and the report, when there is one; \<open>args\<close> is \<open>argv\<close> without the program.\<close>

definition feed_process :: "bool \<Rightarrow> file_system \<Rightarrow> string list \<Rightarrow> (nat \<times> feed_report option) option" where
  "feed_process debug fs args =
     (case args of
        [] \<Rightarrow> Some (2, None)
      | path # _ \<Rightarrow>
          (case read_file fs path of
             Inl msg \<Rightarrow> Some (2, None)
           | Inr file \<Rightarrow> map_option (\<lambda>rep. (fe_exit rep, Some rep)) (feed_main debug file)))"

end
