(* ===== verification/Replayer_Process.thy ===== *)
theory Replayer_Process
  imports Replayer_Args Replayer_Logs Replayer_Laws File_Buffer
begin

text \<open>
  The replayer as a process: all of \<open>main\<close> in \<open>src/apps/replayer/main.cc\<close>, from the command line to
  the exit code, over the file system, the socket calls and the host of the open socket.
\<close>

record 'w replayer_outcome =
  ro_exit :: int
  ro_report :: "'w replay_report option"
  ro_logs :: "(string \<times> string) list"
  ro_world :: 'w

text \<open>An outcome without a report: the options, the file or the socket failed.\<close>

definition failed_outcome :: "int \<Rightarrow> 'w \<Rightarrow> 'w replayer_outcome" where
  "failed_outcome code w = \<lparr>ro_exit = code, ro_report = None, ro_logs = [], ro_world = w\<rparr>"

text \<open>The body of the \<open>try\<close> block once the socket is open; the destructor closes it on the way out.\<close>

definition replayer_body :: "'w sock_host \<Rightarrow> 'w host \<Rightarrow> (string \<Rightarrow> bool) \<Rightarrow> options \<Rightarrow> bytes \<Rightarrow> int \<Rightarrow> 'w \<Rightarrow>
    'w replayer_outcome option" where
  "replayer_body sk host can_open opts file fd w =
     do { res \<leftarrow> replayer_main host opts file w;
          Some (case res of
            Inl code \<Rightarrow> failed_outcome code (close_socket sk fd w)
          | Inr rep \<Rightarrow> \<lparr>ro_exit = rp_exit rep, ro_report = Some rep, ro_logs = write_logs can_open opts (rp_run rep),
              ro_world = close_socket sk fd (rn_world (rp_run rep))\<rparr>) }"

definition replayer_process :: "'w sock_host \<Rightarrow> (send_socket \<Rightarrow> 'w host) \<Rightarrow> file_system \<Rightarrow> (string \<Rightarrow> bool) \<Rightarrow>
    string list \<Rightarrow> 'w \<Rightarrow> 'w replayer_outcome option" where
  "replayer_process sk host fs can_open args w =
     do { parsed \<leftarrow> parse_args args;
          case parsed of
            Inl code \<Rightarrow> Some (failed_outcome code w)
          | Inr opts \<Rightarrow>
              (case read_file fs (op_file opts) of
                 Inl msg \<Rightarrow> Some (failed_outcome 2 w)
               | Inr file \<Rightarrow>
                   (case open_sender sk (op_host opts) (op_port opts) (op_multicast opts) (op_interface opts)
                           (op_sndbuf opts) w of
                      (Inl msg, w) \<Rightarrow> Some (failed_outcome 2 w)
                    | (Inr sock, w) \<Rightarrow> replayer_body sk (host sock) can_open opts file (ss_fd sock) w)) }"

section \<open>What the process comes to\<close>

lemma rp_exit_cases:
  assumes "replayer_main host opts data w = Some (Inr rep)"
  shows "rp_exit rep = 0 \<or> rp_exit rep = 1"
  using assms
  by (auto simp: replayer_main_def replay_summary_def Let_def case_prod_unfold bind_eq_Some_conv split: if_splits)

lemma replayer_body_runs:
  assumes "datagram_host sent host" and "CHR 0x00 \<notin> set (op_session opts)"
    and "unat (op_max_payload opts) + kHeaderSize < 2 ^ 64" and "length data < 2 ^ 63"
    and "paced host (fst (new_limiter host (op_rate opts) w)) (length data + 1)"
  shows "\<exists>out rep chunks acc. replayer_body sk host can_open opts data fd w = Some out \<and>
     ro_report out = Some rep \<and> ro_exit out = rp_exit rep \<and> (ro_exit out = 0 \<or> ro_exit out = 1) \<and>
     ro_logs out = write_logs can_open opts (rp_run rep) \<and> ro_world out = close_socket sk fd (rn_world (rp_run rep)) \<and>
     (op_max_packets opts = 0 \<longrightarrow> concat chunks = fitting (op_max_payload opts) (frame_views (length data) data)) \<and>
     sent (rn_world (rp_run rep)) = sent w @ acc \<and> subseq acc (offered_packets opts chunks) \<and>
     (ro_exit out = 0 \<longleftrightarrow> acc = offered_packets opts chunks) \<and>
     rn_drops (rp_run rep) = drops_of 1 0 (drop_run (length chunks) 0 (choose_gaps opts)) chunks \<and>
     schedule_logged host opts w chunks (rn_schedule (rp_run rep))"
proof -
  from replayer_correct [OF assms] obtain rep taken chunks acc where run:
    "replayer_main host opts data w = Some (Inr rep)"
    "op_max_packets opts = 0 \<longrightarrow> taken = frame_views (length data) data"
    "concat chunks = fitting (op_max_payload opts) taken"
    "sent (rn_world (rp_run rep)) = sent w @ acc" "subseq acc (offered_packets opts chunks)"
    "rp_exit rep = 0 \<longleftrightarrow> acc = offered_packets opts chunks"
    "rn_drops (rp_run rep) = drops_of 1 0 (drop_run (length chunks) 0 (choose_gaps opts)) chunks"
    "schedule_logged host opts w chunks (rn_schedule (rp_run rep))" by blast
  let ?out = "\<lparr>ro_exit = rp_exit rep, ro_report = Some rep, ro_logs = write_logs can_open opts (rp_run rep),
    ro_world = close_socket sk fd (rn_world (rp_run rep))\<rparr>"
  have "replayer_body sk host can_open opts data fd w = Some ?out" by (simp add: replayer_body_def run(1))
  then show ?thesis
    using run rp_exit_cases [OF run(1)]
    by (intro exI [of _ ?out] exI [of _ rep] exI [of _ chunks] exI [of _ acc]) simp
qed

text \<open>Every way the process can end, by what failed.\<close>

lemma replayer_process_cases:
  assumes "regular_files files fs" and "socket_laws calls sk"
  shows "parse_args args = Some (Inl code) \<Longrightarrow>
      replayer_process sk host fs can_open args w = Some (failed_outcome code w)"
    and "parse_args args = Some (Inr opts) \<Longrightarrow> files (c_str (op_file opts)) = None \<Longrightarrow>
      replayer_process sk host fs can_open args w = Some (failed_outcome 2 w)"
    and "parse_args args = Some (Inr opts) \<Longrightarrow> files (c_str (op_file opts)) = Some data \<Longrightarrow>
      open_sender sk (op_host opts) (op_port opts) (op_multicast opts) (op_interface opts) (op_sndbuf opts) w = (res, w') \<Longrightarrow>
      replayer_process sk host fs can_open args w =
        (case res of
           Inl msg \<Rightarrow> Some (failed_outcome 2 w')
         | Inr sock \<Rightarrow> replayer_body sk (host sock) can_open opts data (ss_fd sock) w') \<and>
      opens_or_restores (calls w) (sender_calls sk (op_multicast opts) (op_interface opts) (op_sndbuf opts))
        (map_sum id ss_fd res) (calls w')"
proof -
  show "replayer_process sk host fs can_open args w = Some (failed_outcome code w)"
    if "parse_args args = Some (Inl code)" using that by (simp add: replayer_process_def)
  show "replayer_process sk host fs can_open args w = Some (failed_outcome 2 w)"
    if "parse_args args = Some (Inr opts)" "files (c_str (op_file opts)) = None"
    using that by (simp add: replayer_process_def read_regular [OF assms(1)])
  assume that: "parse_args args = Some (Inr opts)" "files (c_str (op_file opts)) = Some data"
    "open_sender sk (op_host opts) (op_port opts) (op_multicast opts) (op_interface opts) (op_sndbuf opts) w = (res, w')"
  then show "replayer_process sk host fs can_open args w =
        (case res of
           Inl msg \<Rightarrow> Some (failed_outcome 2 w')
         | Inr sock \<Rightarrow> replayer_body sk (host sock) can_open opts data (ss_fd sock) w') \<and>
      opens_or_restores (calls w) (sender_calls sk (op_multicast opts) (op_interface opts) (op_sndbuf opts))
        (map_sum id ss_fd res) (calls w')"
    using open_sender_calls [OF assms(2), of w "op_multicast opts" "op_interface opts" "op_sndbuf opts" "op_host opts" "op_port opts"]
    by (simp add: replayer_process_def read_regular [OF assms(1)] split: sum.split)
qed

end
