(* ===== verification/Wire_Path.thy ===== *)
theory Wire_Path
  imports Replay Replayer_Laws
begin

text \<open>
  The wire path: a file packed by the replayer, carried by the network and unpacked by the
  decoder moves the books exactly as the offline replay of the file does. \<open>apply_message\<close> is the
  one dispatch of both paths, and it sees nothing of a message but its bytes.
\<close>

section \<open>A message is its bytes\<close>

lemma bytes_at_take: "m \<le> n \<Longrightarrow> bytes_at (take n p) m = bytes_at p m"
  by (simp add: bytes_at_def min_def)

lemma be_take:
  "k + 2 \<le> n \<Longrightarrow> be16 (drop k (take n p)) = be16 (drop k p)"
  "k + 4 \<le> n \<Longrightarrow> be32 (drop k (take n p)) = be32 (drop k p)"
  "k + 6 \<le> n \<Longrightarrow> be48 (drop k (take n p)) = be48 (drop k p)"
  "k + 8 \<le> n \<Longrightarrow> be64 (drop k (take n p)) = be64 (drop k p)"
  "k + 8 \<le> n \<Longrightarrow> read_stock (drop k (take n p)) = read_stock (drop k p)"
  by (simp_all add: be16_def be32_def be48_def be64_def read_stock_def drop_take bytes_at_take)

lemma char_at_take: "i < n \<Longrightarrow> char_at (take n p) i = char_at p i"
  by (simp add: char_at_def vget_def)

lemmas prefix_reads = be_take char_at_take

lemma decode_header_take: "11 \<le> n \<Longrightarrow> decode_header (take n p) = decode_header p"
  by (simp add: decode_header_def prefix_reads)

lemma decode_take:
  "25 \<le> n \<Longrightarrow> decode_stock_directory (take n p) = decode_stock_directory p"
  "36 \<le> n \<Longrightarrow> decode_add_order (take n p) = decode_add_order p"
  "23 \<le> n \<Longrightarrow> decode_order_cancel (take n p) = decode_order_cancel p"
  "19 \<le> n \<Longrightarrow> decode_order_delete (take n p) = decode_order_delete p"
  "35 \<le> n \<Longrightarrow> decode_order_replace (take n p) = decode_order_replace p"
  by (simp_all add: decode_stock_directory_def decode_add_order_def decode_order_cancel_def
      decode_order_delete_def decode_order_replace_def decode_header_take prefix_reads)

lemma decode_executed_take:
  "36 \<le> n \<Longrightarrow> decode_order_executed (take n p) = decode_order_executed p"
  "31 \<le> n \<Longrightarrow> char_at p 0 \<noteq> Some (CHR ''C'') \<Longrightarrow> decode_order_executed (take n p) = decode_order_executed p"
proof -
  show "36 \<le> n \<Longrightarrow> decode_order_executed (take n p) = decode_order_executed p"
    by (simp add: decode_order_executed_def decode_header_take prefix_reads Let_def cong: if_cong)
  assume "31 \<le> n" and "char_at p 0 \<noteq> Some (CHR ''C'')"
  then show "decode_order_executed (take n p) = decode_order_executed p"
    by (cases "char_at p 0") (auto simp: decode_order_executed_def decode_header_take prefix_reads)
qed

text \<open>So a message of at least its expected length is decoded from its own bytes.\<close>

lemma dispatch_take:
  assumes "char_at p 0 = Some type" and "is_known type"
    and "unat (expected_length (message_type_of type)) \<le> n"
  shows "dispatch type (take n p) b = dispatch type p b" and "11 \<le> n"
    and "type = CHR ''R'' \<Longrightarrow> decode_stock_directory (take n p) = decode_stock_directory p"
proof -
  have "type \<in> set ''SRHYLAFECXDUPQB''" using assms(2) by (simp add: is_known_def)
  then show "dispatch type (take n p) b = dispatch type p b" and "11 \<le> n"
    and "type = CHR ''R'' \<Longrightarrow> decode_stock_directory (take n p) = decode_stock_directory p"
    using assms(1,3)
    by (auto simp: dispatch_def message_type_of_def expected_length_def decode_take decode_executed_take)
qed

lemma apply_message_take:
  assumes mv: "mv_ok mv" and ok: "message_ok mv"
  shows "apply_message (mv\<lparr>mv_data := view_bytes mv\<rparr>) s = apply_message mv s"
proof -
  let ?n = "unat (mv_size mv)"
  have pos: "0 < ?n" using mv by (simp add: mv_ok_def unat_gt_0)
  have bytes: "view_bytes mv = take ?n (mv_data mv)" by (simp add: view_bytes_def)
  obtain type where type: "char_at (mv_data mv) 0 = Some type"
    and len: "is_known type \<Longrightarrow> unat (expected_length (message_type_of type)) \<le> ?n"
    using ok by (auto simp: message_ok_def word_le_nat_alt)
  have type': "char_at (view_bytes mv) 0 = Some type" using type pos by (simp add: bytes char_at_take)
  obtain books stats where s: "s = (books, stats)" by (cases s)
  show ?thesis
  proof (cases "is_known type")
    case False
    then show ?thesis using type type' by (simp add: apply_message_def s)
  next
    case True
    note take = dispatch_take [OF type True len [OF True]]
    have head: "decode_header (view_bytes mv) = decode_header (mv_data mv)"
      unfolding bytes by (rule decode_header_take [OF take(2)])
    have disp: "dispatch type (view_bytes mv) b = dispatch type (mv_data mv) b" for b
      unfolding bytes by (rule take(1))
    show ?thesis
      using type type' True take(3) head disp
      by (cases "type = CHR ''R''") (simp_all add: apply_message_def s Let_def flip: bytes cong: Option.bind_cong if_cong)
  qed
qed

text \<open>Two views of the same bytes have the same effect.\<close>

lemma apply_message_cong:
  assumes "mv_ok v" and "mv_ok v'" and "view_bytes v = view_bytes v'" and "message_ok v"
  shows "apply_message v' = apply_message v" and "message_ok v'"
proof -
  have "unat (mv_size v) = unat (mv_size v')"
    using assms(3) length_view_bytes [OF assms(1)] length_view_bytes [OF assms(2)] by simp
  then have size: "mv_size v = mv_size v'" by (simp add: word_unat_eq_iff)
  let ?n = "unat (mv_size v)"
  have eq: "take ?n (mv_data v) = take ?n (mv_data v')" using assms(3) by (simp add: view_bytes_def size)
  have pos: "0 < ?n" using assms(1) by (simp add: mv_ok_def unat_gt_0)
  obtain type where type: "char_at (mv_data v) 0 = Some type"
    and known: "is_known type \<Longrightarrow> expected_length (message_type_of type) \<le> mv_size v \<and>
      (\<forall>ev. decode_event type (mv_data v) = Some ev \<longrightarrow> ev_ok ev)"
    using assms(4) by (auto simp: message_ok_def)
  have type': "char_at (mv_data v') 0 = Some type"
    using type char_at_take [OF pos, of "mv_data v"] char_at_take [OF pos, of "mv_data v'"] eq by simp
  have "decode_event type (mv_data v') = decode_event type (mv_data v)" if "is_known type"
  proof -
    have n: "unat (expected_length (message_type_of type)) \<le> ?n" using known that by (simp add: word_le_nat_alt)
    have "decode_event type (take ?n p) = decode_event type p" if "char_at p 0 = Some type" for p
    proof -
      have "type \<in> set ''SRHYLAFECXDUPQB''" using \<open>is_known type\<close> by (simp add: is_known_def)
      then show ?thesis
        using n that
        by (auto simp: decode_event_def message_type_of_def expected_length_def decode_take decode_executed_take)
    qed
    from this [OF type] this [OF type'] eq show ?thesis by simp
  qed
  then show ok': "message_ok v'"
    using type' known size assms(2) by (simp add: message_ok_def mv_ok_def)
  have "v\<lparr>mv_data := view_bytes v\<rparr> = v'\<lparr>mv_data := view_bytes v'\<rparr>" using assms(3) size by simp
  then show "apply_message v' = apply_message v"
    using apply_message_take [OF assms(1,4)] apply_message_take [OF assms(2) ok'] by (metis ext)
qed

lemma foldM_apply_cong:
  assumes "map view_bytes vs' = map view_bytes vs" and "views_ok vs" and "views_ok vs'"
    and "\<forall>v \<in> set vs. message_ok v"
  shows "foldM apply_message vs' s = foldM apply_message vs s"
  using assms
proof (induction vs arbitrary: vs' s)
  case (Cons v vs)
  from Cons.prems(1) obtain v' ws where vs': "vs' = v' # ws" "view_bytes v = view_bytes v'"
    "map view_bytes ws = map view_bytes vs" by (auto simp: Cons_eq_map_conv)
  have "mv_ok v" "mv_ok v'" "message_ok v" using Cons.prems(2-4) by (simp_all add: vs'(1) views_ok_def)
  from apply_message_cong(1) [OF this(1,2) vs'(2) this(3)]
  have "apply_message v' = apply_message v" .
  moreover have "foldM apply_message ws t = foldM apply_message vs t" for t
    by (rule Cons.IH [OF vs'(3)]) (use Cons.prems(2-4) vs'(1) in \<open>simp_all add: views_ok_def\<close>)
  ultimately show ?case by (simp add: vs'(1) split: Option.bind_split)
qed simp

section \<open>The decoder feeding the books\<close>

definition apply_sink :: "(book_set \<times> replay_stats) message_sink" where
  "apply_sink mv rx_tsc = apply_message mv"

definition wire_replay :: "packet_view list \<Rightarrow> (mold_decoder \<times> book_set \<times> replay_stats) option" where
  "wire_replay pkts = foldM (\<lambda>pkt. on_packet pkt apply_sink) pkts (new_decoder, new_book_set, new_stats)"

lemma pkt_views_ok:
  assumes "pkt_ok pkt"
  shows "views_ok (pkt_views pkt)"
proof -
  have "unat (pv_len pkt) - kHeaderSize \<le> length (drop kHeaderSize (pv_data pkt))"
    using assms by (simp add: pkt_ok_def diff_le_mono)
  from frame_views_inside [OF this] show ?thesis by (simp add: views_ok_def mv_ok_def pkt_views_def)
qed

lemma stream_views_ok:
  assumes "\<forall>pkt \<in> set pkts. pkt_ok pkt"
  shows "views_ok (map fst (stream_views pkts d))"
  using assms
proof (induction pkts arbitrary: d)
  case (Cons pkt pkts)
  then show ?case using pkt_views_ok [of pkt] Cons.IH [of "decoder_step pkt d"]
    by (auto simp: views_ok_def delivered_views_def)
qed (simp add: views_ok_def)

lemma wire_replay_views:
  assumes "\<forall>pkt \<in> set pkts. pkt_ok pkt"
  shows "wire_replay pkts = map_option (Pair (fold decoder_step pkts new_decoder))
    (foldM apply_message (map fst (stream_views pkts new_decoder)) (new_book_set, new_stats))"
  unfolding wire_replay_def on_packets_eq [OF assms] foldM_map
  by (simp add: apply_sink_def case_prod_unfold)

text \<open>The datagrams of a run without loss, in order, closed by the end of the session.\<close>

lemma eos_step:
  assumes "carries pkt (eos_packet ses seq)" and "length ses = kSessionSize" and "awaits ses seq d"
  shows "troubles (decoder_step pkt d) = troubles d" and "md_eos (decoder_step pkt d)"
    and "md_messages (decoder_step pkt d) = md_messages d" and "delivered_views pkt d = []"
    and "md_expected (decoder_step pkt d) = seq"
proof -
  note pkt = carries_eos [OF assms(1,2)]
  let ?e = "enter_session (pkt_header pkt) d"
  have e: "md_expected ?e = seq" "md_messages ?e = md_messages d" "troubles ?e = troubles d"
    using assms(3) by (auto simp: pkt(1) enter_session_def awaits_def troubles_def)
  have "note_hole seq ?e = ?e" by (simp add: note_hole_def e(1))
  then have "decoder_step pkt d = ?e\<lparr>md_expected := max seq seq, md_eos := True, md_last_sequence := seq\<rparr>"
    using pkt e(1) by (simp add: decoder_step_def Let_def)
  then show "troubles (decoder_step pkt d) = troubles d" "md_eos (decoder_step pkt d)"
    "md_messages (decoder_step pkt d) = md_messages d" "md_expected (decoder_step pkt d) = seq"
    using e by (simp_all add: troubles_def)
  show "delivered_views pkt d = []" using pkt(2) by (simp add: delivered_views_def)
qed

lemma stream_views_append:
  "stream_views (xs @ ys) d = stream_views xs d @ stream_views ys (fold decoder_step xs d)"
  by (induction xs arbitrary: d) simp_all

lemma lossless_session:
  assumes pkts: "list_all2 carries pkts (packets_of ses 1 chunks @ [eos_packet ses (1 + word_of_nat (length (concat chunks)))])"
    and ses: "length ses = kSessionSize" and ok: "\<forall>c \<in> set chunks. chunk_ok c"
  defines "d \<equiv> fold decoder_step pkts new_decoder"
  shows "troubles d = troubles new_decoder" and "md_eos d"
    and "md_messages d = word_of_nat (length (concat chunks))"
    and "md_expected d = 1 + word_of_nat (length (concat chunks))"
    and "map (view_bytes \<circ> fst) (stream_views pkts new_decoder) = concat chunks"
    and "\<forall>pkt \<in> set pkts. pkt_ok pkt"
proof -
  from pkts obtain xs pkt where xs: "pkts = xs @ [pkt]" "list_all2 carries xs (packets_of ses 1 chunks)"
    "carries pkt (eos_packet ses (1 + word_of_nat (length (concat chunks))))"
    by (auto simp: list_all2_append2 list_all2_Cons2)
  have "awaits ses 1 new_decoder" by (simp add: awaits_def new_decoder_def)
  note run = lossless_run [OF xs(2) ses ok this]
  note last = eos_step [OF xs(3) ses run(1)]
  show "troubles d = troubles new_decoder" "md_eos d" "md_messages d = word_of_nat (length (concat chunks))"
    "md_expected d = 1 + word_of_nat (length (concat chunks))"
    using last(1-3,5) run(2,4) by (simp_all add: d_def xs(1) new_decoder_def)
  show "map (view_bytes \<circ> fst) (stream_views pkts new_decoder) = concat chunks"
    using run(5) last(4) by (simp add: xs(1) stream_views_append)
  show "\<forall>pkt \<in> set pkts. pkt_ok pkt"
    using pkts by (auto simp: list_all2_conv_all_nth carries_def in_set_conv_nth)
qed

lemma wire_path:
  assumes pkts: "list_all2 carries pkts (packets_of ses 1 chunks @ [eos_packet ses (1 + word_of_nat (length (concat chunks)))])"
    and ses: "length ses = kSessionSize" and ok: "\<forall>c \<in> set chunks. chunk_ok c"
    and whole: "concat chunks = map view_bytes (frame_views (unat n) data)" "unat n \<le> length data"
    and msgs: "\<forall>v \<in> set (frame_views (unat n) data). message_ok v"
  shows "wire_replay pkts = map_option (Pair (fold decoder_step pkts new_decoder)) (replay new_book_set data n)"
proof -
  note run = lossless_session [OF pkts ses ok]
  have "views_ok (frame_views (unat n) data)"
    using frame_views_inside [OF whole(2)] by (auto simp: views_ok_def mv_ok_def)
  moreover have "map view_bytes (map fst (stream_views pkts new_decoder)) = map view_bytes (frame_views (unat n) data)"
    using run(5) whole(1) by simp
  ultimately have "foldM apply_message (map fst (stream_views pkts new_decoder)) (new_book_set, new_stats) =
      foldM apply_message (frame_views (unat n) data) (new_book_set, new_stats)"
    using foldM_apply_cong stream_views_ok [OF run(6)] msgs by blast
  then show ?thesis unfolding wire_replay_views [OF run(6)] replay_folds [OF whole(2)] by simp
qed

end
