(* ===== verification/Gap_Report.thy ===== *)
theory Gap_Report
  imports Mold_Network
begin

text \<open>
  What the gap list of a decoder says: the sequence numbers it covers are exactly those between
  the first packet and the expected sequence that were not delivered.
\<close>

section \<open>The numbers of a gap\<close>

definition gap_range :: "gap \<Rightarrow> nat set" where
  "gap_range g = {unat (gap_first_missing g)..<unat (gap_first_missing g) + unat (gap_count g)}"

definition missing :: "gap list \<Rightarrow> nat \<Rightarrow> bool" where
  "missing gs n \<longleftrightarrow> list_ex (\<lambda>g. unat (gap_first_missing g) \<le> n \<and>
     n < unat (gap_first_missing g) + unat (gap_count g)) gs"

lemma missing_range: "missing gs n \<longleftrightarrow> (\<exists>g \<in> set gs. n \<in> gap_range g)"
  by (auto simp: missing_def list_ex_iff gap_range_def)

lemma missing_simps [simp]: "\<not> missing [] n" "missing (gs @ gs') n \<longleftrightarrow> missing gs n \<or> missing gs' n"
  by (auto simp: missing_range)

text \<open>Gaps in order of their numbers, none overlapping the one before, inside \<open>{a..<b}\<close>.\<close>

fun gaps_between :: "nat \<Rightarrow> gap list \<Rightarrow> nat \<Rightarrow> bool" where
  "gaps_between a [] b \<longleftrightarrow> a \<le> b"
| "gaps_between a (g # gs) b \<longleftrightarrow> a \<le> unat (gap_first_missing g) \<and> 0 < unat (gap_count g) \<and>
     gaps_between (unat (gap_first_missing g) + unat (gap_count g)) gs b"

lemma gaps_between_le: "gaps_between a gs b \<Longrightarrow> a \<le> b"
  by (induction gs arbitrary: a) force+

lemma gaps_between_mono: "gaps_between a gs b \<Longrightarrow> b \<le> c \<Longrightarrow> gaps_between a gs c"
  by (induction gs arbitrary: a) auto

lemma gaps_between_append: "gaps_between a gs b \<Longrightarrow> gaps_between b gs' c \<Longrightarrow> gaps_between a (gs @ gs') c"
proof (induction gs arbitrary: a)
  case Nil
  then show ?case using gaps_between_le [OF Nil.prems(2)] by (cases gs') auto
qed auto

lemma gaps_between_missing: "gaps_between a gs b \<Longrightarrow> missing gs n \<Longrightarrow> a \<le> n \<and> n < b"
proof (induction gs arbitrary: a)
  case (Cons g gs)
  show ?case
  proof (cases "missing gs n")
    case True
    then show ?thesis using Cons.IH [of "unat (gap_first_missing g) + unat (gap_count g)"] Cons.prems(1) by auto
  next
    case False
    then have "n \<in> gap_range g" using Cons.prems(2) by (simp add: missing_range)
    then show ?thesis
      using Cons.prems(1) gaps_between_le [of "unat (gap_first_missing g) + unat (gap_count g)" gs b]
      by (auto simp: gap_range_def)
  qed
qed simp

text \<open>The numbers of two stretches one after the other, each without its gaps.\<close>

definition present :: "nat \<Rightarrow> gap list \<Rightarrow> nat \<Rightarrow> nat list" where
  "present a gs b = filter (\<lambda>n. \<not> missing gs n) [a..<b]"

lemma present_append:
  assumes "gaps_between a gs b" and "gaps_between b gs' c"
  shows "present a (gs @ gs') c = present a gs b @ present b gs' c"
proof -
  have le: "a \<le> b" "b \<le> c" using assms gaps_between_le by blast+
  have "[a..<c] = [a..<b] @ [b..<c]" using le by (metis le_Suc_ex upt_add_eq_append)
  moreover have "filter (\<lambda>n. \<not> missing (gs @ gs') n) [a..<b] = present a gs b"
    unfolding present_def by (rule filter_cong) (auto dest: gaps_between_missing [OF assms(2)])
  moreover have "filter (\<lambda>n. \<not> missing (gs @ gs') n) [b..<c] = present b gs' c"
    unfolding present_def by (rule filter_cong) (auto dest: gaps_between_missing [OF assms(1)])
  ultimately show ?thesis by (simp add: present_def)
qed

section \<open>One packet\<close>

text \<open>The gaps a packet of its number adds to the list, when the list has room.\<close>

lemma note_hole_gaps:
  assumes "length (md_gaps (note_hole seq d)) < kMaxGaps" and "md_expected d \<le> seq"
  shows "\<exists>gs. md_gaps (note_hole seq d) = md_gaps d @ gs \<and> gaps_between (unat (md_expected d)) gs (unat seq) \<and>
    present (unat (md_expected d)) gs (unat seq) = []"
proof (cases "md_expected d < seq")
  case True
  let ?g = "\<lparr>gap_first_missing = md_expected d, gap_count = seq - md_expected d\<rparr>"
  have "unat (seq - md_expected d) = unat seq - unat (md_expected d)" and less: "unat (md_expected d) < unat seq"
    using True by (simp_all add: unat_sub order_less_imp_le word_less_nat_alt [symmetric])
  then have "gaps_between (unat (md_expected d)) [?g] (unat seq)" "present (unat (md_expected d)) [?g] (unat seq) = []"
    by (auto simp: present_def missing_def filter_empty_conv)
  moreover have "md_gaps (note_hole seq d) = md_gaps d @ [?g]"
    using assms(1) True by (simp add: note_hole_def note_gap_def Let_def split: if_splits)
  ultimately show ?thesis by blast
next
  case False
  then show ?thesis using assms(2) by (intro exI [of _ "[]"]) (simp add: note_hole_def present_def)
qed

text \<open>A decoder that is in the session, before and after one packet.\<close>

definition in_progress :: "session \<Rightarrow> mold_decoder \<Rightarrow> bool" where
  "in_progress ses d \<longleftrightarrow> md_started d \<and> md_session d = ses"

lemma step_in_progress:
  assumes "in_session ses pkt" and "in_progress ses d"
  shows "in_progress ses (decoder_step pkt d)"
  using step_expected(1,2) [OF assms(1)] assms(2) by (auto simp: in_progress_def)

lemma step_more_gaps: "length (md_gaps d) \<le> length (md_gaps (decoder_step pkt d))"
proof -
  have "md_gaps (enter_session h d) = md_gaps d" for h by (simp add: enter_session_def)
  moreover have "length (md_gaps e) \<le> length (md_gaps (note_hole n e))" for n e
    by (simp add: note_hole_def note_gap_def Let_def)
  ultimately show ?thesis by (cases "packet_kind pkt d") (simp_all add: decoder_step_def Let_def, metis+)
qed

lemma run_more_gaps: "length (md_gaps d) \<le> length (md_gaps (fold decoder_step pkts d))"
proof (induction pkts arbitrary: d)
  case (Cons pkt pkts)
  show ?case using le_trans [OF step_more_gaps Cons.IH] by simp
qed simp

lemma step_gaps:
  assumes "in_session ses pkt" and "in_progress ses d" and "length (md_gaps (decoder_step pkt d)) < kMaxGaps"
  shows "\<exists>gs. md_gaps (decoder_step pkt d) = md_gaps d @ gs \<and>
    gaps_between (unat (md_expected d)) gs (unat (md_expected (decoder_step pkt d))) \<and>
    map fst (if packet_kind pkt d = Fresh then numbered pkt else []) =
      present (unat (md_expected d)) gs (unat (md_expected (decoder_step pkt d)))"
proof -
  let ?h = "pkt_header pkt" and ?k = "packet_kind pkt d"
  let ?seq = "mh_sequence ?h"
  have idle: "\<exists>gs. md_gaps d = md_gaps d @ gs \<and> gaps_between (unat (md_expected d)) gs (unat (md_expected d)) \<and>
      [] = present (unat (md_expected d)) gs (unat (md_expected d))"
    by (intro exI [of _ "[]"]) (simp add: present_def)
  have e: "enter_session ?h d = d" if "?k \<noteq> Runt"
    using assms(1,2) that by (auto simp: in_session_def in_progress_def enter_session_def packet_kind_def Let_def)
  show ?thesis
  proof (cases ?k)
    case SessionEnd
    then have step: "decoder_step pkt d = (note_hole ?seq d)\<lparr>md_expected := max ?seq (md_expected d),
        md_eos := True, md_last_sequence := ?seq\<rparr>" using e by (simp add: decoder_step_def Let_def)
    show ?thesis
    proof (cases "md_expected d \<le> ?seq")
      case True
      then show ?thesis using note_hole_gaps [of ?seq d] assms(3) SessionEnd by (force simp: step max_def)
    next
      case False
      then have "note_hole ?seq d = d" "max ?seq (md_expected d) = md_expected d" by (auto simp: note_hole_def max_def)
      then show ?thesis using idle SessionEnd by (simp add: step)
    qed
  next
    case Fresh
    then have step: "decoder_step pkt d = (note_hole ?seq d)\<lparr>md_last_sequence := ?seq,
        md_messages := md_messages d + ucast (mh_message_count ?h), md_applied := md_applied d + 1,
        md_expected := ?seq + ucast (mh_message_count ?h)\<rparr>" using e by (simp add: decoder_step_def Let_def)
    note next_seq = step_expected(3) [OF assms(1) _ Fresh]
    have le: "md_expected d \<le> ?seq" using next_seq assms(2) by (simp add: in_progress_def)
    then obtain gs where gs: "md_gaps (note_hole ?seq d) = md_gaps d @ gs"
      "gaps_between (unat (md_expected d)) gs (unat ?seq)" "present (unat (md_expected d)) gs (unat ?seq) = []"
      using note_hole_gaps [of ?seq d] assms(3) by (auto simp: step)
    let ?n = "unat (md_expected (decoder_step pkt d))"
    have n: "?n = unat ?seq + length (pkt_messages pkt)" using next_seq assms(2) by (simp add: in_progress_def)
    have "gaps_between (unat ?seq) [] ?n" "present (unat ?seq) [] ?n = map fst (numbered pkt)"
      by (simp_all add: n present_def map_fst_numbered Let_def)
    then show ?thesis
      using gs gaps_between_append [OF gs(2), of "[]"] present_append [OF gs(2), of "[]"] Fresh
      by (intro exI [of _ gs]) (simp add: step)
  qed (use idle e in \<open>simp_all add: decoder_step_def Let_def\<close>)
qed

section \<open>A run\<close>

lemma run_gaps:
  assumes "\<forall>pkt \<in> set pkts. in_session ses pkt" and "in_progress ses d"
    and "length (md_gaps (fold decoder_step pkts d)) < kMaxGaps"
  shows "\<exists>gs. md_gaps (fold decoder_step pkts d) = md_gaps d @ gs \<and>
    gaps_between (unat (md_expected d)) gs (unat (md_expected (fold decoder_step pkts d))) \<and>
    map fst (stream_log pkts d) = present (unat (md_expected d)) gs (unat (md_expected (fold decoder_step pkts d)))"
  using assms
proof (induction pkts arbitrary: d)
  case Nil
  then show ?case by (intro exI [of _ "[]"]) (simp add: present_def)
next
  case (Cons pkt pkts)
  let ?d = "decoder_step pkt d"
  have pkt: "in_session ses pkt" and prog: "in_progress ses ?d"
    using Cons.prems(1,2) step_in_progress by auto
  have "length (md_gaps ?d) < kMaxGaps" using run_more_gaps [of ?d pkts] Cons.prems(3) by simp
  then obtain gs where gs: "md_gaps ?d = md_gaps d @ gs"
    "gaps_between (unat (md_expected d)) gs (unat (md_expected ?d))"
    "map fst (if packet_kind pkt d = Fresh then numbered pkt else []) = present (unat (md_expected d)) gs (unat (md_expected ?d))"
    using step_gaps [OF pkt Cons.prems(2)] by blast
  obtain gs' where gs': "md_gaps (fold decoder_step pkts ?d) = md_gaps ?d @ gs'"
    "gaps_between (unat (md_expected ?d)) gs' (unat (md_expected (fold decoder_step pkts ?d)))"
    "map fst (stream_log pkts ?d) = present (unat (md_expected ?d)) gs' (unat (md_expected (fold decoder_step pkts ?d)))"
    using Cons.IH [OF _ prog] Cons.prems by auto
  show ?case
    using gs gs' gaps_between_append [OF gs(2) gs'(2)] present_append [OF gs(2) gs'(2)]
    by (intro exI [of _ "gs @ gs'"]) (simp del: stream_log.simps add: stream_log.simps(2))
qed

text \<open>The first packet puts the decoder in its session at its sequence number.\<close>

lemma enter_twice [simp]: "enter_session h (enter_session h d) = enter_session h d"
  by (simp add: enter_session_def)

lemma step_after_enter:
  assumes "kHeaderSize \<le> length (pkt_bytes pkt)"
  shows "packet_kind pkt (enter_session (pkt_header pkt) d) = packet_kind pkt d"
    and "decoder_step pkt (enter_session (pkt_header pkt) d) = decoder_step pkt d"
proof -
  show kind: "packet_kind pkt (enter_session (pkt_header pkt) d) = packet_kind pkt d"
    by (simp add: packet_kind_def Let_def)
  have "packet_kind pkt d \<noteq> Runt" using assms by (simp add: packet_kind_def Let_def)
  then show "decoder_step pkt (enter_session (pkt_header pkt) d) = decoder_step pkt d"
    by (cases "packet_kind pkt d") (simp_all add: decoder_step_def kind Let_def)
qed

lemma session_log:
  assumes "\<forall>pkt \<in> set (p # pkts). in_session ses pkt" and "kHeaderSize \<le> length (pkt_bytes p)"
    and "length (md_gaps (fold decoder_step (p # pkts) new_decoder)) < kMaxGaps"
  defines "first \<equiv> unat (mh_sequence (pkt_header p))"
    and "d \<equiv> fold decoder_step (p # pkts) new_decoder"
  shows "gaps_between first (md_gaps d) (unat (md_expected d)) \<and>
    map fst (stream_log (p # pkts) new_decoder) = present first (md_gaps d) (unat (md_expected d))"
proof -
  let ?e = "enter_session (pkt_header p) new_decoder"
  have e: "in_progress ses ?e" "md_expected ?e = mh_sequence (pkt_header p)" "md_gaps ?e = []"
    using assms(1,2) by (simp_all add: in_progress_def in_session_def enter_session_def new_decoder_def)
  note enter = step_after_enter [OF assms(2), of new_decoder]
  have "stream_log (p # pkts) ?e = stream_log (p # pkts) new_decoder" "fold decoder_step (p # pkts) ?e = d"
    by (simp_all add: enter d_def)
  with run_gaps [OF assms(1) e(1)] assms(3) show ?thesis
    by (simp add: e(2,3) first_def flip: d_def del: stream_log.simps fold_simps fold_Cons)
qed

section \<open>A session of known messages\<close>

text \<open>What a packet of the session says lies below the number after the last message.\<close>

definition below_end :: "nat \<Rightarrow> mold_decoder \<Rightarrow> bool" where
  "below_end n d \<longleftrightarrow> unat (md_expected d) \<le> n + 1 \<and> (md_eos d \<longrightarrow> unat (md_expected d) = n + 1)"

lemma sent_by_long:
  assumes "sent_by ses ms pkt" and "length ses = kSessionSize"
  shows "kHeaderSize \<le> length (pkt_bytes pkt)"
  using assms(1) carries_packet(5) [OF _ assms(2)] assms(2)
  by (auto simp: sent_by_def carries_def eos_packet_def mold_header_ok_def)

lemma sent_by_numbers:
  assumes "sent_by ses ms pkt" and "length ses = kSessionSize" and "length ms + 65537 < 2 ^ 64"
  shows "unat (mh_sequence (pkt_header pkt)) \<le> length ms + 1 \<and>
    (mh_message_count (pkt_header pkt) = kEndOfSession \<longrightarrow> unat (mh_sequence (pkt_header pkt)) = length ms + 1) \<and>
    (mh_message_count (pkt_header pkt) \<noteq> kEndOfSession \<longrightarrow>
       unat (mh_sequence (pkt_header pkt)) + length (pkt_messages pkt) \<le> length ms + 1)"
proof -
  have word: "unat (1 + word_of_nat k :: u64) = 1 + k" if "k \<le> length ms" for k
    using assms(3) that by (simp add: unat_word_ariths unat_of_nat take_bit_nat_eq_self)
  from assms(1) consider (eos) "carries pkt (eos_packet ses (1 + word_of_nat (length ms)))"
    | (msgs) k c where "carries pkt (mold_packet ses (1 + word_of_nat k) c)" "chunk_ok c" "k + length c \<le> length ms"
    by (auto simp: sent_by_def)
  then show ?thesis
  proof cases
    case eos
    then show ?thesis using carries_eos(1) [OF eos assms(2)] word by simp
  next
    case msgs
    note pkt = carries_packet [OF msgs(1) assms(2) msgs(2)]
    then show ?thesis using msgs(3) word [of k] by simp
  qed
qed

lemma step_below_end:
  assumes "sent_by ses ms pkt" and "length ses = kSessionSize" and "length ms + 65537 < 2 ^ 64"
    and "below_end (length ms) (enter_session (pkt_header pkt) d)"
    and "md_started d \<longrightarrow> md_session d = ses"
  shows "below_end (length ms) (decoder_step pkt d)"
proof -
  let ?h = "pkt_header pkt"
  note nums = sent_by_numbers [OF assms(1-3)] and ses = sent_by_session(1) [OF assms(1-3)]
  have e: "md_eos (note_hole n e) = md_eos e" for n e by (simp add: note_hole_def note_gap_def Let_def)
  show ?thesis
  proof (cases "packet_kind pkt d")
    case Runt
    then show ?thesis using sent_by_long [OF assms(1,2)] by (simp add: packet_kind_def Let_def split: if_splits)
  next
    case SessionEnd
    then have "mh_message_count ?h = kEndOfSession" by (auto simp: packet_kind_def Let_def split: if_splits)
    then show ?thesis using SessionEnd nums assms(4)
      by (auto simp: decoder_step_def below_end_def Let_def max_def word_le_nat_alt)
  next
    case Fresh
    then have "mh_message_count ?h \<noteq> kEndOfSession" "md_expected (enter_session ?h d) \<le> mh_sequence ?h"
      by (auto simp: packet_kind_def Let_def split: if_splits)
    moreover have "unat (md_expected (decoder_step pkt d)) = unat (mh_sequence ?h) + length (pkt_messages pkt)"
      using step_expected(3) [OF ses assms(5) Fresh] by blast
    moreover have "md_eos (decoder_step pkt d) = md_eos (enter_session ?h d)"
      using Fresh by (simp add: decoder_step_def e Let_def)
    ultimately show ?thesis using nums assms(4) by (auto simp: below_end_def word_le_nat_alt)
  qed (use assms(4) in \<open>simp_all add: decoder_step_def below_end_def Let_def\<close>)
qed

lemma run_below_end:
  assumes "\<forall>pkt \<in> set pkts. sent_by ses ms pkt" and "length ses = kSessionSize" and "length ms + 65537 < 2 ^ 64"
    and "below_end (length ms) d" and "in_progress ses d"
  shows "below_end (length ms) (fold decoder_step pkts d)"
  using assms(1,4,5)
proof (induction pkts arbitrary: d)
  case (Cons pkt pkts)
  have pkt: "sent_by ses ms pkt" using Cons.prems(1) by simp
  note ses = sent_by_session(1) [OF pkt assms(2,3)]
  have "enter_session (pkt_header pkt) d = d"
    using ses Cons.prems(3) sent_by_long [OF pkt assms(2)] by (auto simp: in_session_def in_progress_def enter_session_def)
  then have "below_end (length ms) (decoder_step pkt d)"
    using step_below_end [OF pkt assms(2,3), of d] Cons.prems(2,3) by (simp add: in_progress_def)
  then show ?case using Cons step_in_progress [OF ses Cons.prems(3)] by simp
qed simp

lemma session_below_end:
  assumes "\<forall>pkt \<in> set (p # pkts). sent_by ses ms pkt" and "length ses = kSessionSize" and "length ms + 65537 < 2 ^ 64"
  shows "below_end (length ms) (fold decoder_step (p # pkts) new_decoder)"
proof -
  let ?e = "enter_session (pkt_header p) new_decoder"
  have p: "sent_by ses ms p" using assms(1) by simp
  have "in_progress ses ?e" "below_end (length ms) ?e"
    using sent_by_session(1) [OF p assms(2,3)] sent_by_long [OF p assms(2)] sent_by_numbers [OF p assms(2,3)]
    by (simp_all add: in_progress_def in_session_def enter_session_def new_decoder_def below_end_def)
  from run_below_end [OF assms this(2,1)] show ?thesis
    using step_after_enter(2) [OF sent_by_long [OF p assms(2)], of new_decoder] by simp
qed

text \<open>
  With room in the gap list, the decoder hands on the messages from the first packet's number to
  the expected one, without those of its gaps.
\<close>

lemma session_delivers:
  assumes "\<forall>pkt \<in> set (p # pkts). sent_by ses ms pkt" and "length ses = kSessionSize" and "length ms + 65537 < 2 ^ 64"
    and "length (md_gaps (fold decoder_step (p # pkts) new_decoder)) < kMaxGaps"
  defines "first \<equiv> unat (mh_sequence (pkt_header p))"
    and "d \<equiv> fold decoder_step (p # pkts) new_decoder"
  shows "gaps_between first (md_gaps d) (unat (md_expected d))"
    and "map (view_bytes \<circ> fst) (stream_views (p # pkts) new_decoder) =
      map (\<lambda>n. ms ! (n - 1)) (present first (md_gaps d) (unat (md_expected d)))"
proof -
  have ses: "\<forall>pkt \<in> set (p # pkts). in_session ses pkt" using sent_by_session(1) assms(1-3) by blast
  have "kHeaderSize \<le> length (pkt_bytes p)" using sent_by_long [of ses ms p] assms(1,2) by simp
  note log = session_log [OF ses this assms(4)]
  then show "gaps_between first (md_gaps d) (unat (md_expected d))" by (simp add: first_def d_def)
  have "map snd (stream_log (p # pkts) new_decoder) = map (\<lambda>n. ms ! (n - 1)) (map fst (stream_log (p # pkts) new_decoder))"
    unfolding map_map by (rule map_cong [OF refl]) (use stream_log_sent [OF assms(1-3)] in fastforce)
  then show "map (view_bytes \<circ> fst) (stream_views (p # pkts) new_decoder) =
      map (\<lambda>n. ms ! (n - 1)) (present first (md_gaps d) (unat (md_expected d)))"
    using stream_log_messages [of "p # pkts" new_decoder] ses log
    by (simp add: in_session_def first_def d_def del: stream_log.simps stream_views.simps)
qed

text \<open>A sink that keeps the bytes it is given.\<close>

lemma logging_sink:
  "foldM (\<lambda>(v, tsc) log. Some (log @ [view_bytes v])) vs log = Some (log @ map (view_bytes \<circ> fst) vs)"
  by (induction vs arbitrary: log) auto

lemma filter_comprehension: "map f (filter P ns) = [f n. n \<leftarrow> ns, P n]"
  by (induction ns) simp_all

lemma present_comprehension:
  "map f (present a gs b) = [f n. n \<leftarrow> [a..<b], \<not> missing gs n]"
  by (simp only: present_def filter_comprehension)

end
