(* ===== verification/Drop_Report.thy ===== *)
theory Drop_Report
  imports Wire_Path Gap_Report
begin

text \<open>
  The drop log of the replayer against the gap list of the decoder: what the one side writes down
  as left out is what the other side finds missing. The packets that were not dropped arrive in
  order, so every one of them is fresh.
\<close>

section \<open>The numbers a drop log names\<close>

definition dropped :: "drop_entry list \<Rightarrow> nat \<Rightarrow> bool" where
  "dropped es n \<longleftrightarrow> list_ex (\<lambda>e. unat (de_first e) \<le> n \<and> n < unat (de_first e) + unat (de_count e)) es"

lemma dropped_simps [simp]:
  "\<not> dropped [] n" "dropped (es @ es') n \<longleftrightarrow> dropped es n \<or> dropped es' n"
  "dropped [e] n \<longleftrightarrow> unat (de_first e) \<le> n \<and> n < unat (de_first e) + unat (de_count e)"
  by (auto simp: dropped_def)

text \<open>The numbers of the chunks that were not dropped.\<close>

fun kept_numbers :: "nat \<Rightarrow> bool list \<Rightarrow> bytes list list \<Rightarrow> nat list" where
  "kept_numbers n (d # ds) (c # cs) = (if d then [] else [n..<n + length c]) @ kept_numbers (n + length c) ds cs"
| "kept_numbers n _ _ = []"

lemma kept_or_dropped:
  assumes "length ds = length cs" and "n + length (concat cs) < 2 ^ 64"
  shows "k \<in> set (kept_numbers n ds cs) \<longleftrightarrow> n \<le> k \<and> k < n + length (concat cs) \<and> \<not> dropped (drops_of n i ds cs) k"
    and "dropped (drops_of n i ds cs) k \<Longrightarrow> n \<le> k \<and> k < n + length (concat cs)"
proof -
  have "(k \<in> set (kept_numbers n ds cs) \<longleftrightarrow> n \<le> k \<and> k < n + length (concat cs) \<and> \<not> dropped (drops_of n i ds cs) k) \<and>
     (dropped (drops_of n i ds cs) k \<longrightarrow> n \<le> k \<and> k < n + length (concat cs))"
    using assms
  proof (induction n i ds cs rule: drops_of.induct)
    case (1 n i d ds c cs)
    then have IH: "k \<in> set (kept_numbers (n + length c) ds cs) \<longleftrightarrow> n + length c \<le> k \<and>
        k < n + length c + length (concat cs) \<and> \<not> dropped (drops_of (n + length c) (Suc i) ds cs) k"
      "dropped (drops_of (n + length c) (Suc i) ds cs) k \<longrightarrow> n + length c \<le> k \<and> k < n + length c + length (concat cs)"
      by simp_all
    have "unat (word_of_nat n :: u64) = n" "unat (word_of_nat (length c) :: u64) = length c"
      using "1.prems"(2) by (simp_all add: unat_of_nat_64)
    then show ?case using IH by auto
  qed simp_all
  then show "k \<in> set (kept_numbers n ds cs) \<longleftrightarrow> n \<le> k \<and> k < n + length (concat cs) \<and> \<not> dropped (drops_of n i ds cs) k"
    and "dropped (drops_of n i ds cs) k \<Longrightarrow> n \<le> k \<and> k < n + length (concat cs)" by blast+
qed

section \<open>The packets that were not dropped\<close>

text \<open>A decoder in order: nothing it has seen lies ahead of \<open>n\<close>.\<close>

definition in_order :: "session \<Rightarrow> nat \<Rightarrow> mold_decoder \<Rightarrow> bool" where
  "in_order ses n d \<longleftrightarrow> (md_started d \<longrightarrow> md_session d = ses \<and> unat (md_expected d) \<le> n)"

definition calm :: "mold_decoder \<Rightarrow> u64 \<times> u64 \<times> u64" where
  "calm d = (md_session_changes d, md_duplicates d, md_malformed d)"

text \<open>The gaps a decoder has listed, with the one it will list when \<open>n\<close> comes.\<close>

definition holes :: "nat \<Rightarrow> mold_decoder \<Rightarrow> nat" where
  "holes n d = length (md_gaps d) + (if md_started d \<and> unat (md_expected d) < n then 1 else 0)"

lemma note_hole_count:
  "length (md_gaps (note_hole seq d)) \<le> length (md_gaps d) + (if md_expected d < seq then 1 else 0)"
  by (simp add: note_hole_def note_gap_def Let_def)

lemma enter_in_order:
  assumes "in_order ses n d" and "mh_session h = ses" and "mh_sequence h = seq" and "unat seq = n"
  shows "md_started (enter_session h d)" and "md_session (enter_session h d) = ses"
    and "md_expected (enter_session h d) \<le> seq" and "calm (enter_session h d) = calm d"
    and "length (md_gaps (enter_session h d)) + (if md_expected (enter_session h d) < seq then 1 else 0) = holes n d"
    and "md_messages (enter_session h d) = md_messages d"
  using assms by (auto simp: in_order_def enter_session_def calm_def holes_def word_le_nat_alt word_less_nat_alt)

lemma kept_packet:
  assumes pkt: "carries pkt (mold_packet ses (word_of_nat n) c)" and ses: "length ses = kSessionSize" and c: "chunk_ok c"
    and d: "in_order ses n d" and n: "n + length c < 2 ^ 64"
  shows "packet_kind pkt d = Fresh" and "map fst (numbered pkt) = [n..<n + length c]"
    and "in_order ses (n + length c) (decoder_step pkt d)" and "calm (decoder_step pkt d) = calm d"
    and "holes (n + length c) (decoder_step pkt d) \<le> holes n d"
proof -
  note p = carries_packet [OF pkt ses c]
  let ?e = "enter_session (pkt_header pkt) d" and ?seq = "word_of_nat n :: u64"
  have seq: "unat ?seq = n" using n by (simp add: unat_of_nat_64)
  note e = enter_in_order [OF d, of "pkt_header pkt", unfolded p(1) mold_header.simps, OF refl refl seq, folded p(1)]
  show kind: "packet_kind pkt d = Fresh" using e(3) by (simp add: kind_packet [OF pkt ses c])
  show "map fst (numbered pkt) = [n..<n + length c]"
    by (simp add: map_fst_numbered p(2) Let_def) (simp add: p(1) seq)
  have "unat (?seq + ucast (mh_message_count (pkt_header pkt))) = n + length c"
    using p(8) seq n by (simp add: unat_word_ariths unat_ucast_16_64)
  moreover have step: "decoder_step pkt d = (note_hole ?seq ?e)\<lparr>md_last_sequence := ?seq,
      md_messages := md_messages ?e + ucast (mh_message_count (pkt_header pkt)), md_applied := md_applied ?e + 1,
      md_expected := ?seq + ucast (mh_message_count (pkt_header pkt))\<rparr>"
    using kind by (simp add: decoder_step_def Let_def) (simp add: p(1))
  ultimately show "in_order ses (n + length c) (decoder_step pkt d)"
    "calm (decoder_step pkt d) = calm d" "holes (n + length c) (decoder_step pkt d) \<le> holes n d"
    using e(1,2,4,5) note_hole_count [of ?seq ?e] by (simp_all add: in_order_def calm_def holes_def)
qed

lemma holes_skip: "in_order ses n d \<Longrightarrow> holes (n + k) d \<le> Suc (holes n d)"
  by (simp add: holes_def)

lemma kept_run:
  assumes "list_all2 carries pkts (survivors ds (packets_of ses (word_of_nat n) cs))" and "length ds = length cs"
    and "length ses = kSessionSize" and "\<forall>c \<in> set cs. chunk_ok c" and "n + length (concat cs) < 2 ^ 64"
    and "in_order ses n d"
  shows "map fst (stream_log pkts d) = kept_numbers n ds cs"
    and "in_order ses (n + length (concat cs)) (fold decoder_step pkts d)"
    and "calm (fold decoder_step pkts d) = calm d"
    and "holes (n + length (concat cs)) (fold decoder_step pkts d) \<le> holes n d + length (filter id ds)"
proof -
  have "map fst (stream_log pkts d) = kept_numbers n ds cs \<and>
    in_order ses (n + length (concat cs)) (fold decoder_step pkts d) \<and> calm (fold decoder_step pkts d) = calm d \<and>
    holes (n + length (concat cs)) (fold decoder_step pkts d) \<le> holes n d + length (filter id ds)"
    using assms(1,2,4-6)
  proof (induction n ds cs arbitrary: pkts d rule: kept_numbers.induct)
    case (1 n drp ds c cs)
    let ?n = "n + length c"
    have next_seq: "word_of_nat n + word_of_nat (length c) = (word_of_nat ?n :: u64)" by simp
    have c: "chunk_ok c" "n + length c < 2 ^ 64" using "1.prems"(3,4) by simp_all
    have rest: "length ds = length cs" "\<forall>c \<in> set cs. chunk_ok c" "?n + length (concat cs) < 2 ^ 64"
      "n + length (concat (c # cs)) = ?n + length (concat cs)" using "1.prems"(2-4) by simp_all
    show ?case
    proof (cases drp)
      case True
      have "list_all2 carries pkts (survivors ds (packets_of ses (word_of_nat ?n) cs))"
        using "1.prems"(1) True by (simp only: packets_of.simps survivors_Cons if_True append_Nil next_seq)
      moreover have "in_order ses ?n d" using "1.prems"(5) by (auto simp: in_order_def)
      ultimately have "map fst (stream_log pkts d) = kept_numbers ?n ds cs \<and>
        in_order ses (?n + length (concat cs)) (fold decoder_step pkts d) \<and> calm (fold decoder_step pkts d) = calm d \<and>
        holes (?n + length (concat cs)) (fold decoder_step pkts d) \<le> holes ?n d + length (filter id ds)"
        using "1.IH" rest(1-3) by blast
      then show ?thesis
        using True holes_skip [OF "1.prems"(5), of "length c"] unfolding rest(4) by (auto simp: id_def)
    next
      case False
      from "1.prems"(1) False obtain pkt rest where pkts: "pkts = pkt # rest"
        and pkt: "carries pkt (mold_packet ses (word_of_nat n) c)"
        and later: "list_all2 carries rest (survivors ds (packets_of ses (word_of_nat ?n) cs))"
        by (auto simp: list_all2_Cons2 simp flip: next_seq)
      note step = kept_packet [OF pkt assms(3) c(1) "1.prems"(5) c(2)]
      from later step(3) have "map fst (stream_log rest (decoder_step pkt d)) = kept_numbers ?n ds cs \<and>
        in_order ses (?n + length (concat cs)) (fold decoder_step rest (decoder_step pkt d)) \<and>
        calm (fold decoder_step rest (decoder_step pkt d)) = calm (decoder_step pkt d) \<and>
        holes (?n + length (concat cs)) (fold decoder_step rest (decoder_step pkt d)) \<le>
          holes ?n (decoder_step pkt d) + length (filter id ds)"
        using "1.IH" rest(1-3) by blast
      then show ?thesis using False step unfolding pkts rest(4) by (auto simp: id_def)
    qed
  qed auto
  then show "map fst (stream_log pkts d) = kept_numbers n ds cs"
    and "in_order ses (n + length (concat cs)) (fold decoder_step pkts d)"
    and "calm (fold decoder_step pkts d) = calm d"
    and "holes (n + length (concat cs)) (fold decoder_step pkts d) \<le> holes n d + length (filter id ds)" by blast+
qed

text \<open>The end of the session closes the list.\<close>

lemma kept_end:
  assumes pkt: "carries pkt (eos_packet ses (word_of_nat n))" and ses: "length ses = kSessionSize"
    and d: "in_order ses n d" and n: "n < 2 ^ 64"
  shows "md_eos (decoder_step pkt d)" and "md_expected (decoder_step pkt d) = word_of_nat n"
    and "calm (decoder_step pkt d) = calm d" and "length (md_gaps (decoder_step pkt d)) \<le> holes n d"
proof -
  note p = carries_eos [OF pkt ses]
  let ?e = "enter_session (pkt_header pkt) d" and ?seq = "word_of_nat n :: u64"
  have seq: "unat ?seq = n" using n by (simp add: unat_of_nat_64)
  note e = enter_in_order [OF d, of "pkt_header pkt", unfolded p(1) mold_header.simps, OF refl refl seq, folded p(1)]
  have step: "decoder_step pkt d = (note_hole ?seq ?e)\<lparr>md_expected := ?seq, md_eos := True, md_last_sequence := ?seq\<rparr>"
    using p(2) e(3) by (simp add: decoder_step_def Let_def max_def) (simp add: p(1))
  show "md_eos (decoder_step pkt d)" "md_expected (decoder_step pkt d) = word_of_nat n"
    "calm (decoder_step pkt d) = calm d" "length (md_gaps (decoder_step pkt d)) \<le> holes n d"
    using e(4,5) note_hole_count [of ?seq ?e] by (simp_all add: step calm_def)
qed

section \<open>The whole session\<close>

lemma stream_log_append:
  "stream_log (xs @ ys) d = stream_log xs d @ stream_log ys (fold decoder_step xs d)"
  by (induction xs arbitrary: d) simp_all

lemma list_all2_member: "list_all2 P xs ys \<Longrightarrow> x \<in> set xs \<Longrightarrow> \<exists>y \<in> set ys. P x y"
  by (metis in_set_conv_nth list_all2_conv_all_nth)

lemma survivors_sent:
  assumes "list_all2 carries pkts (survivors ds (packets_of ses 1 cs) @ [eos_packet ses (1 + word_of_nat (length (concat cs)))])"
    and "\<forall>c \<in> set cs. chunk_ok c"
  shows "\<forall>pkt \<in> set pkts. sent_by ses (concat cs) pkt"
proof
  fix pkt
  assume "pkt \<in> set pkts"
  then obtain b where b: "carries pkt b" "b \<in> set (survivors ds (packets_of ses 1 cs)) \<or>
      b = eos_packet ses (1 + word_of_nat (length (concat cs)))"
    using list_all2_member [OF assms(1)] by auto
  show "sent_by ses (concat cs) pkt"
  proof (cases "b = eos_packet ses (1 + word_of_nat (length (concat cs)))")
    case False
    then have "b \<in> set (packets_of ses 1 cs)" using b(2) survivors_subset [of ds "packets_of ses 1 cs"] by blast
    from packets_of_sent [OF this] show ?thesis using b(1) assms(2) by (auto simp: sent_by_def)
  qed (use b(1) in \<open>simp add: sent_by_def\<close>)
qed

lemma sent_by_positive:
  assumes "sent_by ses ms pkt" and "length ses = kSessionSize" and "length ms + 65537 < 2 ^ 64"
  shows "0 < unat (mh_sequence (pkt_header pkt))"
proof -
  have word: "unat (1 + word_of_nat k :: u64) = 1 + k" if "k \<le> length ms" for k
    using assms(3) that by (simp add: unat_word_ariths unat_of_nat take_bit_nat_eq_self)
  from assms(1) consider (eos) "carries pkt (eos_packet ses (1 + word_of_nat (length ms)))"
    | (msgs) k c where "carries pkt (mold_packet ses (1 + word_of_nat k) c)" "chunk_ok c" "k + length c \<le> length ms"
    by (auto simp: sent_by_def)
  then show ?thesis
  proof cases
    case eos
    then show ?thesis using carries_eos(1) [OF eos assms(2)] word by simp
  next
    case msgs
    then show ?thesis using carries_packet(1) [OF msgs(1) assms(2) msgs(2)] word [of k] by simp
  qed
qed

lemma drop_session:
  assumes pkts: "list_all2 carries (p # pkts)
      (survivors ds (packets_of ses 1 cs) @ [eos_packet ses (1 + word_of_nat (length (concat cs)))])"
    and ds: "length ds = length cs" and ses: "length ses = kSessionSize" and ok: "\<forall>c \<in> set cs. chunk_ok c"
    and size: "length (concat cs) + 65538 < 2 ^ 64" and few: "length (filter id ds) < kMaxGaps"
  defines "d \<equiv> fold decoder_step (p # pkts) new_decoder" and "first \<equiv> unat (mh_sequence (pkt_header p))"
    and "end \<equiv> 1 + length (concat cs)" and "drops \<equiv> drops_of 1 0 ds cs"
  shows "md_eos d" and "md_expected d = word_of_nat end" and "calm d = calm new_decoder"
    and "missing (md_gaps d) n \<longleftrightarrow> first \<le> n \<and> dropped drops n"
    and "0 < n \<Longrightarrow> n < first \<Longrightarrow> dropped drops n"
    and "map (view_bytes \<circ> fst) (stream_views (p # pkts) new_decoder) =
      [concat cs ! (n - 1). n \<leftarrow> [1..<end], \<not> dropped drops n]"
proof -
  obtain xs pkt where xs: "p # pkts = xs @ [pkt]" "list_all2 carries xs (survivors ds (packets_of ses (word_of_nat 1) cs))"
    "carries pkt (eos_packet ses (word_of_nat end))"
    using pkts by (auto simp: list_all2_append2 list_all2_Cons2 end_def)
  have start: "in_order ses 1 new_decoder" "holes 1 new_decoder = 0"
    by (simp_all add: in_order_def holes_def new_decoder_def)
  have small: "1 + length (concat cs) < 2 ^ 64" "end < 2 ^ 64" using size by (simp_all add: end_def)
  note run = kept_run [OF xs(2) ds ses ok small(1) start(1), folded end_def]
  note last = kept_end [OF xs(3) ses run(2) small(2)]
  have d_last: "d = decoder_step pkt (fold decoder_step xs new_decoder)"
    by (simp only: d_def xs(1) fold_append comp_apply fold_simps)
  show d: "md_eos d" "md_expected d = word_of_nat end" "calm d = calm new_decoder"
    using last(1-3) run(3) by (simp_all add: d_last)
  have room: "length (md_gaps d) < kMaxGaps"
    using last(4) run(4) few start(2) by (simp add: d_last)
  have "packet_kind pkt e = SessionEnd" for e by (rule carries_eos(2) [OF xs(3) ses])
  then have log: "map fst (stream_log (p # pkts) new_decoder) = kept_numbers 1 ds cs"
    using run(1) unfolding xs(1) by (simp add: stream_log_append)
  note sent = survivors_sent [OF pkts ok]
  have fits: "length (concat cs) + 65537 < 2 ^ 64" using size by simp
  have p: "sent_by ses (concat cs) p" using sent by simp
  have "\<forall>pkt \<in> set (p # pkts). in_session ses pkt" using sent_by_session(1) [OF _ ses fits] sent by blast
  note gaps = session_log [OF this sent_by_long [OF p ses] room [unfolded d_def], folded d_def first_def, unfolded log]
  have fin: "unat (md_expected d) = end" using small(2) by (simp add: d(2) unat_of_nat_64)
  have first: "0 < first" "first \<le> end"
    using sent_by_positive [OF p ses fits] gaps_between_le gaps unfolding fin first_def by blast+
  have kept: "k \<in> set (kept_numbers 1 ds cs) \<longleftrightarrow> first \<le> k \<and> k < end \<and> \<not> missing (md_gaps d) k" for k
    using gaps unfolding fin by (auto simp: present_def)
  note drop = kept_or_dropped [OF ds small(1), where i = 0, folded drops_def end_def]
  show miss: "missing (md_gaps d) k \<longleftrightarrow> first \<le> k \<and> dropped drops k" for k
    using kept [of k] drop [of k] gaps_between_missing [OF conjunct1 [OF gaps], of k] first fin by auto
  show early: "dropped drops k" if "0 < k" "k < first" for k
    using kept [of k] drop(1) [of k] that first by auto
  have "[1..<end] = [1..<first] @ [first..<end]" using first by (metis One_nat_def Suc_leI le_Suc_ex upt_add_eq_append)
  moreover have "filter (\<lambda>k. \<not> dropped drops k) [1..<first] = []" using early by (auto simp: filter_empty_conv)
  moreover have "filter (\<lambda>k. \<not> dropped drops k) [first..<end] = present first (md_gaps d) end"
    unfolding present_def by (rule filter_cong) (auto simp: miss)
  ultimately have "present first (md_gaps d) end = filter (\<lambda>k. \<not> dropped drops k) [1..<end]" by simp
  then show "map (view_bytes \<circ> fst) (stream_views (p # pkts) new_decoder) =
      [concat cs ! (n - 1). n \<leftarrow> [1..<end], \<not> dropped drops n]"
    using session_delivers(2) [OF sent ses fits room [unfolded d_def]]
    unfolding d_def [symmetric] first_def [symmetric] fin by (simp only: filter_comprehension)
qed

end
