(* ===== verification/Mold_Properties.thy ===== *)
theory Mold_Properties
  imports Drop_Report
begin

text \<open>
  The properties of the MoldUDP64 side: header, packer, decoder, a stream through a network, the
  gap injector, the rate limiter and the replayer's run.
\<close>

section \<open>Header and packer\<close>

text \<open>
  \<open>encode_header\<close> stays inside a buffer of 20 bytes, changes nothing after them, and
  \<open>decode_header\<close> reads back the session, the sequence and the count.
\<close>

theorem header_round_trip:
  assumes "length (mh_session h) = kSessionSize" and "kHeaderSize \<le> length buf"
  shows "\<exists>out. encode_header h buf = Some out \<and> length out = length buf \<and>
     drop kHeaderSize out = drop kHeaderSize buf \<and> mold_decode_header out = Some h"
proof -
  have "mold_header_ok h" using assms(1) by (simp add: mold_header_ok_def)
  then show ?thesis using encode_header_eq assms(2) mold_decode_layout by simp
qed

theorem header_round_trip_witness:
  "\<exists>out. encode_header \<lparr>mh_session = ''ITCH191230'', mh_sequence = 7, mh_message_count = 2\<rparr> (replicate 24 9) = Some out \<and>
     mold_decode_header out = Some \<lparr>mh_session = ''ITCH191230'', mh_sequence = 7, mh_message_count = 2\<rparr>"
  using header_round_trip [of "\<lparr>mh_session = ''ITCH191230'', mh_sequence = 7, mh_message_count = 2\<rparr>" "replicate 24 9"]
  by (auto simp: kSessionSize_def kHeaderSize_def)

text \<open>
  C23. \<open>try_add\<close> never writes outside the buffer. It takes a message exactly when its block fits the
  payload and the count stays below the end of session marker, and then the packet holds one
  message more, framed; otherwise the packer is unchanged.
\<close>

theorem packer_keeps_invariant:
  assumes "pk_holds msgs pk" and "mv_ok v"
  shows "\<exists>added pk'. packer_try_add v pk = Some (added, pk') \<and> (added \<longleftrightarrow> pk_room msgs (view_bytes v) pk) \<and>
     pk_holds (if added then msgs @ [view_bytes v] else msgs) pk' \<and> (\<not> added \<longrightarrow> pk' = pk) \<and>
     pk_sequence pk' = pk_sequence pk \<and> pk_session pk' = pk_session pk"
  using try_add_correct [OF assms] assms(1) by (cases "pk_room msgs (view_bytes v) pk") auto

definition small_packer :: packer where
  "small_packer = new_packer ''ITCH191230'' 1 5"

lemma small_packer: "pk_holds [] small_packer"
  unfolding small_packer_def by (rule new_packer_holds) (simp_all add: kSessionSize_def kHeaderSize_def)

theorem packer_keeps_invariant_witness:
  "\<exists>pk. packer_try_add \<lparr>mv_data = [65, 66, 67, 68], mv_size = 3\<rparr> small_packer = Some (True, pk) \<and> pk_holds [[65, 66, 67]] pk"
  using packer_keeps_invariant [OF small_packer, of "\<lparr>mv_data = [65, 66, 67, 68], mv_size = 3\<rparr>"]
  by (auto simp: mv_ok_def pk_room_def view_bytes_def small_packer_def new_packer_def)

text \<open>
  C24. A finished packet is a header and the framed messages, and a decoder of the datagram finds the
  session, the sequence and exactly the messages packed; the packer is empty after and its
  sequence has advanced by them.
\<close>

theorem packet_round_trip:
  assumes "pk_holds msgs pk" and "msgs \<noteq> []" and "\<forall>m \<in> set msgs. m \<noteq> [] \<and> length m < 65536"
    and "pkt_ok pkt" and "map_option fst (packer_finish pk) = Some (pkt_bytes pkt)"
  shows "mh_session (pkt_header pkt) = pk_session pk \<and> mh_sequence (pkt_header pkt) = pk_sequence pk \<and>
     pkt_messages pkt = msgs \<and> pkt_whole pkt \<and>
     (\<exists>b pk'. packer_finish pk = Some (b, pk') \<and> pk_holds [] pk' \<and>
        pk_sequence pk' = pk_sequence pk + word_of_nat (length msgs))"
proof -
  from finish_correct [OF assms(1)] obtain pk' where pk': "packer_finish pk = Some (mold_packet (pk_session pk) (pk_sequence pk) msgs, pk')"
    "pk_holds [] pk'" "pk_sequence pk' = pk_sequence pk + word_of_nat (length msgs)" by blast
  have "carries pkt (mold_packet (pk_session pk) (pk_sequence pk) msgs)"
    using assms(4,5) pk'(1) by (simp add: carries_def)
  moreover have "length (pk_session pk) = kSessionSize" "chunk_ok msgs"
    using assms(1-3) by (simp_all add: pk_holds_def chunk_ok_def)
  ultimately show ?thesis using carries_packet [of pkt "pk_session pk" "pk_sequence pk" msgs] pk' by simp
qed

definition small_packet :: bytes where
  "small_packet = map of_chr ''ITCH191230'' @ [0, 0, 0, 0, 0, 0, 0, 1, 0, 1, 0, 3, 65, 66, 67]"

theorem packet_round_trip_witness:
  "\<exists>pk. packer_try_add \<lparr>mv_data = [65, 66, 67, 68], mv_size = 3\<rparr> small_packer = Some (True, pk) \<and>
     map_option fst (packer_finish pk) = Some small_packet \<and>
     pkt_messages \<lparr>pv_data = small_packet, pv_len = 25, pv_rx_tsc = 0\<rparr> = [[65, 66, 67]]"
proof -
  let ?v = "\<lparr>mv_data = [65, 66, 67, 68 :: u8], mv_size = 3\<rparr>"
  let ?pkt = "\<lparr>pv_data = small_packet, pv_len = 25, pv_rx_tsc = 0\<rparr>"
  obtain pk where pk: "packer_try_add ?v small_packer = Some (True, pk)" "pk_holds ([] @ [view_bytes ?v]) pk"
    "pk_session pk = pk_session small_packer" "pk_sequence pk = pk_sequence small_packer"
    using try_add_correct(2) [OF small_packer, of ?v]
    by (auto simp: mv_ok_def pk_room_def view_bytes_def small_packer_def new_packer_def)
  have bytes: "pkt_bytes ?pkt = small_packet" "pkt_ok ?pkt"
    by (simp_all add: pkt_bytes_def pkt_ok_def small_packet_def)
  have "mold_packet ''ITCH191230'' 1 [[65, 66, 67]] = small_packet" by code_simp
  then have fin: "map_option fst (packer_finish pk) = Some (pkt_bytes ?pkt)"
    using finish_correct [OF pk(2)] pk(3,4)
    by (auto simp: view_bytes_def small_packer_def new_packer_def bytes)
  then have "pkt_messages ?pkt = [] @ [view_bytes ?v]"
    using packet_round_trip [OF pk(2) _ _ bytes(2)] by (auto simp: view_bytes_def)
  then show ?thesis using pk(1) fin bytes(1) by (auto simp: view_bytes_def)
qed

section \<open>Decoder\<close>

text \<open>
  C10. The whole of \<open>on_packet\<close>, on every branch and for every sink: it reads inside the datagram and
  ends, the decoder makes the step that the kind of the packet says, and the sink gets the
  messages of the packet in order if the packet is fresh and whole, and nothing otherwise.
\<close>

theorem decoder_handles_packet:
  assumes "pkt_ok pkt"
  shows "on_packet pkt sink (d, s) = map_option (Pair (decoder_step pkt d))
     (foldM (\<lambda>v. sink v (pv_rx_tsc pkt)) (delivered_views pkt d) s) \<and>
     map view_bytes (delivered_views pkt d) = (if packet_kind pkt d = Fresh then pkt_messages pkt else []) \<and>
     (packet_kind pkt d = Fresh \<longrightarrow> pkt_whole pkt \<and> md_expected (enter_session (pkt_header pkt) d) \<le> mh_sequence (pkt_header pkt))"
proof (intro conjI)
  show "on_packet pkt sink (d, s) = map_option (Pair (decoder_step pkt d))
     (foldM (\<lambda>v. sink v (pv_rx_tsc pkt)) (delivered_views pkt d) s)" by (rule on_packet_eq [OF assms])
  show "map view_bytes (delivered_views pkt d) = (if packet_kind pkt d = Fresh then pkt_messages pkt else [])"
    using pkt_frames(1) [OF assms] fresh_len [OF assms] by (simp add: delivered_views_def)
  show "packet_kind pkt d = Fresh \<longrightarrow> pkt_whole pkt \<and> md_expected (enter_session (pkt_header pkt) d) \<le> mh_sequence (pkt_header pkt)"
    by (auto simp: packet_kind_def Let_def split: if_splits)
qed

definition torn_packet :: packet_view where
  "torn_packet = \<lparr>pv_data = map of_chr ''ITCH191230'' @ [0, 0, 0, 0, 0, 0, 0, 1, 0, 2, 0, 1, 65, 0, 9, 66],
     pv_len = 26, pv_rx_tsc = 5\<rparr>"

theorem decoder_handles_packet_witness:
  "map_option snd (on_packet torn_packet (\<lambda>v _ log. Some (log @ [view_bytes v])) (new_decoder, [])) = Some []"
proof -
  have "pkt_ok torn_packet" "packet_kind torn_packet new_decoder = Garbled" by code_simp+
  then show ?thesis
    using decoder_handles_packet [of torn_packet "\<lambda>v _ log. Some (log @ [view_bytes v])" new_decoder "[]"]
    by (simp add: delivered_views_def)
qed

text \<open>
  C22. In every state a decoder reaches with one session, whatever packets came: the messages
  delivered and the messages counted as missing are together exactly those from the first packet's
  sequence up to the one expected next, and while fewer than 4096 gaps are listed the list holds
  all of them and its counts add up to the messages missing.
\<close>

theorem decoder_accounts:
  assumes "decoder_reach ses first d"
  shows "messages_delivered d + gap_messages d = expected_sequence d - first \<and> decoder_session d = ses \<and>
     session_changes d = 0 \<and> length (decoder_gaps d) \<le> kMaxGaps \<and>
     (length (decoder_gaps d) < kMaxGaps \<longrightarrow>
        gaps_total d = word_of_nat (length (decoder_gaps d)) \<and> gap_messages d = gap_sum (decoder_gaps d))"
  using decoder_reach_inv [OF assms] by (simp add: decoder_inv_def gaps_ok_def)

theorem decoder_accounts_witness:
  "\<exists>d. decoder_reach ''ITCH191230'' 1 d \<and> md_messages d + md_gap_messages d = md_expected d - 1"
proof -
  have pkt: "pkt_ok torn_packet" "kHeaderSize \<le> unat (pv_len torn_packet)"
    "mh_session (pkt_header torn_packet) = ''ITCH191230''" "mh_sequence (pkt_header torn_packet) = 1"
    "delivered_views torn_packet (new_decoder\<lparr>md_malformed := 3\<rparr>) = []"
    by code_simp+
  then have "on_packet torn_packet (\<lambda>_ _. Some) (new_decoder\<lparr>md_malformed := 3\<rparr>, ()) =
      Some (decoder_step torn_packet (new_decoder\<lparr>md_malformed := 3\<rparr>), ())"
    by (simp add: on_packet_eq)
  from decoder_reach.first_packet [OF pkt(1-4) this] decoder_accounts show ?thesis unfolding decoder_reads by blast
qed

text \<open>
  C37. A malformed packet of another session hides a gap. The decoder enters the session a header names
  before it looks at the blocks, so a packet it then rejects has already moved it out of its
  session; the next good packet moves it back, at whatever number it has, and the hole before
  that number is not noted: the gap count and the gap list stay as they were, where without the
  malformed packet the hole is counted. The session changes are all that shows.
\<close>

theorem malformed_packet_hides_gap:
  assumes "in_progress ses d" and "pkt_ok g" and "packet_kind g d = Garbled" and "mh_session (pkt_header g) \<noteq> ses"
    and "pkt_ok q" and "packet_kind q d = Fresh" and "mh_session (pkt_header q) = ses"
    and "md_expected d < mh_sequence (pkt_header q)"
  shows "\<exists>d1 d2. foldM (\<lambda>pkt. on_packet pkt (\<lambda>_ _. Some)) [g, q] (d, ()) = Some (d1, ()) \<and>
     on_packet q (\<lambda>_ _. Some) (d, ()) = Some (d2, ()) \<and>
     messages_delivered d1 = messages_delivered d2 \<and> expected_sequence d1 = expected_sequence d2 \<and>
     gap_messages d2 = gap_messages d + (mh_sequence (pkt_header q) - expected_sequence d) \<and>
     gaps_total d2 = gaps_total d + 1 \<and>
     gap_messages d1 = gap_messages d \<and> gaps_total d1 = gaps_total d \<and> decoder_gaps d1 = decoder_gaps d \<and>
     malformed d1 = malformed d + 1 \<and> session_changes d1 = session_changes d + 2"
proof -
  let ?h = "pkt_header q"
  define dg where "dg = decoder_step g d"
  have d: "md_started d" "md_session d = ses" using assms(1) by (simp_all add: in_progress_def)
  have g: "dg = d\<lparr>md_session_changes := md_session_changes d + 1, md_session := mh_session (pkt_header g),
      md_expected := mh_sequence (pkt_header g), md_malformed := md_malformed d + 1\<rparr>"
    using assms(3,4) d by (simp add: dg_def decoder_step_def enter_session_def Let_def)
  have e: "enter_session ?h d = d" "enter_session ?h dg = dg\<lparr>md_session_changes := md_session_changes d + 2,
      md_session := ses, md_expected := mh_sequence ?h\<rparr>"
    using assms(4,7) d by (simp_all add: enter_session_def g)
  have kind: "packet_kind q dg = Fresh"
    using assms(6) by (auto simp: packet_kind_def e Let_def split: if_splits)
  let ?d1 = "decoder_step q dg" and ?d2 = "decoder_step q d"
  have "foldM (\<lambda>pkt. on_packet pkt (\<lambda>_ _. Some)) [g, q] (d, ()) = Some (?d1, ())" "on_packet q (\<lambda>_ _. Some) (d, ()) = Some (?d2, ())"
    using assms(2,5) by (simp_all add: on_packet_eq dg_def)
  moreover have "?d1 = d\<lparr>md_session_changes := md_session_changes d + 2, md_session := ses,
      md_malformed := md_malformed d + 1, md_last_sequence := mh_sequence ?h,
      md_messages := md_messages d + ucast (mh_message_count ?h), md_applied := md_applied d + 1,
      md_expected := mh_sequence ?h + ucast (mh_message_count ?h)\<rparr>"
    using kind by (simp add: decoder_step_def e Let_def note_hole_def) (simp add: g)
  moreover have "?d2 = (note_gap (md_expected d) (mh_sequence ?h - md_expected d) d)\<lparr>md_last_sequence := mh_sequence ?h,
      md_messages := md_messages d + ucast (mh_message_count ?h), md_applied := md_applied d + 1,
      md_expected := mh_sequence ?h + ucast (mh_message_count ?h)\<rparr>"
    using assms(6,8) by (simp add: decoder_step_def e Let_def note_hole_def)
  ultimately show ?thesis
    by (intro exI [of _ ?d1] exI [of _ ?d2]) (simp add: note_gap_def Let_def del: foldM.simps)
qed

text \<open>Session B's packet is torn; session A's next one starts at 5 where 2 was due.\<close>

definition stray_packet :: packet_view where
  "stray_packet = \<lparr>pv_data = map of_chr ''SESSIONBBB'' @ [0, 0, 0, 0, 0, 0, 0, 9, 0, 1, 0, 9, 66], pv_len = 23, pv_rx_tsc = 0\<rparr>"

definition later_packet :: packet_view where
  "later_packet = \<lparr>pv_data = map of_chr ''ITCH191230'' @ [0, 0, 0, 0, 0, 0, 0, 5, 0, 1, 0, 1, 66], pv_len = 23, pv_rx_tsc = 0\<rparr>"

theorem malformed_packet_hides_gap_witness:
  "\<exists>d1. foldM (\<lambda>pkt. on_packet pkt (\<lambda>_ _. Some)) [stray_packet, later_packet]
      (new_decoder\<lparr>md_started := True, md_session := ''ITCH191230'', md_expected := 2\<rparr>, ()) = Some (d1, ()) \<and>
     md_expected d1 = 6 \<and> md_gap_messages d1 = 0 \<and> md_session_changes d1 = 2"
proof -
  let ?d = "new_decoder\<lparr>md_started := True, md_session := ''ITCH191230'', md_expected := 2\<rparr>"
  have "in_progress ''ITCH191230'' ?d" "pkt_ok stray_packet" "packet_kind stray_packet ?d = Garbled"
    "mh_session (pkt_header stray_packet) \<noteq> ''ITCH191230''" "pkt_ok later_packet" "packet_kind later_packet ?d = Fresh"
    "mh_session (pkt_header later_packet) = ''ITCH191230''" "md_expected ?d < mh_sequence (pkt_header later_packet)"
    by code_simp+
  from malformed_packet_hides_gap [OF this] obtain d1 d2 where run:
    "foldM (\<lambda>pkt. on_packet pkt (\<lambda>_ _. Some)) [stray_packet, later_packet] (?d, ()) = Some (d1, ())"
    "md_gap_messages d1 = md_gap_messages ?d" "md_session_changes d1 = md_session_changes ?d + 2"
    "md_expected d1 = md_expected d2" "on_packet later_packet (\<lambda>_ _. Some) (?d, ()) = Some (d2, ())" unfolding decoder_reads by blast
  have "case on_packet later_packet (\<lambda>_ _. Some) (?d, ()) of None \<Rightarrow> False | Some (d, _) \<Rightarrow> md_expected d = 6" by code_simp
  then show ?thesis using run by (intro exI [of _ d1]) (simp add: new_decoder_def del: foldM.simps)
qed

section \<open>Streams\<close>

text \<open>
  C12. Every message is delivered when nothing is lost: the packets of the chunks in order, closed by
  the end of the session, leave the decoder with every message delivered once and in order, no gap,
  duplicate or malformed packet, and the end of the session seen.
\<close>

theorem lossless_delivery:
  assumes "list_all2 carries pkts (packets_of ses 1 chunks @ [eos_packet ses (1 + word_of_nat (length (concat chunks)))])"
    and "length ses = kSessionSize" and "\<forall>c \<in> set chunks. chunk_ok c"
  shows "\<exists>d. foldM (\<lambda>pkt. on_packet pkt (\<lambda>v _ log. Some (log @ [view_bytes v]))) pkts (new_decoder, []) =
      Some (d, concat chunks) \<and>
     md_eos d \<and> troubles d = troubles new_decoder \<and> md_messages d = word_of_nat (length (concat chunks))"
proof -
  note run = lossless_session [OF assms]
  have "foldM (\<lambda>(v, tsc) log. Some (log @ [view_bytes v])) vs log = Some (log @ map (view_bytes \<circ> fst) vs)"
    for vs :: "(message_view \<times> u64) list" and log
    by (induction vs arbitrary: log) auto
  from this [of "stream_views pkts new_decoder" "[]"] show ?thesis
    unfolding on_packets_eq [OF run(6)] using run(1-3,5) by (simp add: case_prod_unfold)
qed

definition sample_chunks :: "bytes list list" where
  "sample_chunks = [[[65], [66, 67]], [[68]]]"

definition in_view :: "bytes \<Rightarrow> packet_view" where
  "in_view b = \<lparr>pv_data = b @ [0, 0], pv_len = word_of_nat (length b), pv_rx_tsc = 0\<rparr>"

definition sample_sent :: "bytes list" where
  "sample_sent = packets_of ''ITCH191230'' 1 sample_chunks @ [eos_packet ''ITCH191230'' 4]"

lemma sample_carried: "list_all2 carries (map in_view sample_sent) sample_sent"
  by code_simp

theorem lossless_delivery_witness:
  "\<exists>d. foldM (\<lambda>pkt. on_packet pkt (\<lambda>v _ log. Some (log @ [view_bytes v]))) (map in_view sample_sent) (new_decoder, []) =
      Some (d, [[65], [66, 67], [68]]) \<and> md_messages d = 3"
  using lossless_delivery [of "map in_view sample_sent" "''ITCH191230''" sample_chunks] sample_carried
  by (auto simp: sample_sent_def sample_chunks_def chunk_ok_def kSessionSize_def)

text \<open>
  C11. The gap list tells exactly what was lost. Whatever the network does with the packets of a
  session, losing, repeating and reordering them, the messages delivered are a subsequence of the
  messages sent: none twice, none out of order, none changed. And as long as the list of gaps has
  room, its gaps are in order and apart from each other, and the messages delivered are all those
  from the first packet's number up to the expected one, except the ones in a gap. Once the end of
  the session has been seen, the expected number is the one after the last message.
\<close>

theorem gaps_are_exact:
  assumes "\<forall>pkt \<in> set (p # pkts). sent_by ses ms pkt" and "length ses = kSessionSize" and "length ms + 65537 < 2 ^ 64"
  defines "first \<equiv> unat (mh_sequence (pkt_header p))"
  shows "\<exists>d log. foldM (\<lambda>pkt. on_packet pkt (\<lambda>v _ log. Some (log @ [view_bytes v]))) (p # pkts) (new_decoder, []) =
      Some (d, log) \<and> subseq log ms \<and>
      unat (md_expected d) \<le> length ms + 1 \<and> (md_eos d \<longrightarrow> unat (md_expected d) = length ms + 1) \<and>
      (length (md_gaps d) < kMaxGaps \<longrightarrow>
         gaps_between first (md_gaps d) (unat (md_expected d)) \<and>
         log = [ms ! (n - 1). n \<leftarrow> [first..<unat (md_expected d)], \<not> missing (md_gaps d) n])"
proof -
  let ?vs = "stream_views (p # pkts) new_decoder" and ?d = "fold decoder_step (p # pkts) new_decoder"
  have ok: "\<forall>pkt \<in> set (p # pkts). pkt_ok pkt" using assms(1) by (auto simp: sent_by_def carries_def)
  have "foldM (\<lambda>pkt. on_packet pkt (\<lambda>v _ log. Some (log @ [view_bytes v]))) (p # pkts) (new_decoder, []) =
      Some (?d, map (view_bytes \<circ> fst) ?vs)"
    unfolding on_packets_eq [OF ok] by (simp add: logging_sink del: stream_views.simps fold_simps fold_Cons)
  then show ?thesis
    using delivered_subseq [OF assms(1-3)] session_below_end [OF assms(1-3)] session_delivers [OF assms(1-3)]
    by (intro exI [of _ ?d] exI [of _ "map (view_bytes \<circ> fst) ?vs"])
      (simp add: present_comprehension first_def below_end_def del: stream_views.simps fold_simps fold_Cons foldM.simps One_nat_def)
qed

text \<open>Five packets: the second comes too late, the third twice, and the fourth never.\<close>

definition one_packet :: "bytes list \<Rightarrow> nat \<Rightarrow> bytes" where
  "one_packet ms k = mold_packet ''ITCH191230'' (1 + word_of_nat k) [ms ! k]"

definition arrivals_of :: "bytes list \<Rightarrow> nat list \<Rightarrow> packet_view list" where
  "arrivals_of ms ks = map (in_view \<circ> one_packet ms) ks @
     [in_view (eos_packet ''ITCH191230'' (1 + word_of_nat (length ms)))]"

lemma in_view_carries: "length b < 200 \<Longrightarrow> carries (in_view b) b"
  by (simp add: carries_def in_view_def pkt_ok_def pkt_bytes_def unat_of_nat_64)

lemma arrivals_sent:
  assumes "\<forall>m \<in> set ms. m \<noteq> [] \<and> length m < 100" and "\<forall>k \<in> set ks. k < length ms"
  shows "\<forall>pkt \<in> set (arrivals_of ms ks). sent_by ''ITCH191230'' ms pkt"
proof -
  have ses: "length ''ITCH191230'' = kSessionSize" by (simp add: kSessionSize_def)
  have "sent_by ''ITCH191230'' ms (in_view (one_packet ms k))" if "k \<in> set ks" for k
  proof -
    have k: "k < length ms" "ms ! k \<noteq> []" "length (ms ! k) < 100" using assms that by simp_all
    then have "length (one_packet ms k) < 200"
      using ses by (simp add: one_packet_def mold_packet_def mold_header_ok_def kHeaderSize_def frame_def)
    then have "carries (in_view (one_packet ms k)) (mold_packet ''ITCH191230'' (1 + word_of_nat k) [ms ! k])"
      using in_view_carries by (simp add: one_packet_def)
    moreover have "chunk_ok [ms ! k]" "k + length [ms ! k] \<le> length ms" "[ms ! k] = take (length [ms ! k]) (drop k ms)"
      using k by (simp_all add: chunk_ok_def take_Suc hd_drop_conv_nth)
    ultimately show ?thesis unfolding sent_by_def by blast
  qed
  moreover have "length (eos_packet ''ITCH191230'' (1 + word_of_nat (length ms))) < 200"
    using ses by (simp add: eos_packet_def mold_header_ok_def kHeaderSize_def)
  then have "sent_by ''ITCH191230'' ms (in_view (eos_packet ''ITCH191230'' (1 + word_of_nat (length ms))))"
    unfolding sent_by_def using in_view_carries by blast
  ultimately show ?thesis by (simp add: arrivals_of_def)
qed

definition lossy_messages :: "bytes list" where
  "lossy_messages = [[65], [66], [67], [68]]"

definition lossy_arrivals :: "packet_view list" where
  "lossy_arrivals = arrivals_of lossy_messages [0, 2, 1, 2]"

lemma lossy_sent: "\<forall>pkt \<in> set lossy_arrivals. sent_by ''ITCH191230'' lossy_messages pkt"
  unfolding lossy_arrivals_def by (rule arrivals_sent) (simp_all add: lossy_messages_def)

lemma lossy_first: "unat (mh_sequence (pkt_header (hd lossy_arrivals))) = 1"
  by code_simp

lemma lossy_end:
  "case foldM (\<lambda>pkt. on_packet pkt (\<lambda>v _ log. Some (log @ [view_bytes v]))) lossy_arrivals (new_decoder, []) of
     None \<Rightarrow> False
   | Some (d, _) \<Rightarrow> md_expected d = 5 \<and> map gap_first_missing (md_gaps d) = [2, 4]"
  by code_simp

theorem gaps_are_exact_witness:
  "\<exists>d log. foldM (\<lambda>pkt. on_packet pkt (\<lambda>v _ log. Some (log @ [view_bytes v]))) lossy_arrivals (new_decoder, []) = Some (d, log) \<and>
     map gap_first_missing (md_gaps d) = [2, 4] \<and> subseq log (lossy_messages) \<and>
     log = [lossy_messages ! (n - 1). n \<leftarrow> [1..<5], \<not> missing (md_gaps d) n]"
proof -
  have arrivals: "lossy_arrivals = hd lossy_arrivals # tl lossy_arrivals" by (simp add: lossy_arrivals_def arrivals_of_def)
  from gaps_are_exact [of "hd lossy_arrivals" "tl lossy_arrivals" "''ITCH191230''" lossy_messages] lossy_sent
  obtain d log where run: "foldM (\<lambda>pkt. on_packet pkt (\<lambda>v _ log. Some (log @ [view_bytes v]))) lossy_arrivals (new_decoder, []) = Some (d, log)"
    "subseq log (lossy_messages)"
    "length (md_gaps d) < kMaxGaps \<longrightarrow> log = [lossy_messages ! (n - 1). n \<leftarrow> [1..<unat (md_expected d)], \<not> missing (md_gaps d) n]"
    unfolding arrivals [symmetric] lossy_first by (auto simp: kSessionSize_def lossy_messages_def)
  moreover have gaps: "md_expected d = 5" "map gap_first_missing (md_gaps d) = [2, 4]"
    using lossy_end run(1) by simp_all
  moreover have "length (md_gaps d) < kMaxGaps" using arg_cong [OF gaps(2), of length] by (simp add: kMaxGaps_def)
  ultimately show ?thesis by (intro exI [of _ d] exI [of _ log]) simp
qed

text \<open>
  Whatever a network does with the packets of a session, losing, repeating and reordering them,
  the messages delivered are a subsequence of the messages sent: none twice, none out of order,
  none changed.
\<close>

theorem unreliable_delivery:
  assumes "\<forall>pkt \<in> set pkts. sent_by ses ms pkt" and "length ses = kSessionSize" and "length ms + 65537 < 2 ^ 64"
  shows "\<exists>d log. foldM (\<lambda>pkt. on_packet pkt (\<lambda>v _ log. Some (log @ [view_bytes v]))) pkts (new_decoder, []) =
      Some (d, log) \<and> subseq log ms"
proof -
  have ok: "\<forall>pkt \<in> set pkts. pkt_ok pkt" using assms(1) by (auto simp: sent_by_def carries_def)
  show ?thesis
    unfolding on_packets_eq [OF ok] using delivered_subseq [OF assms] by (simp add: logging_sink)
qed

text \<open>A network that turns the two packets round, repeats one and keeps the end.\<close>

lemma sample_parts:
  "carries (in_view (sample_sent ! 0)) (mold_packet ''ITCH191230'' (1 + word_of_nat 0) [[65], [66, 67]])"
  "carries (in_view (sample_sent ! 1)) (mold_packet ''ITCH191230'' (1 + word_of_nat 2) [[68]])"
  by code_simp+

theorem unreliable_delivery_witness:
  "\<exists>d log. foldM (\<lambda>pkt. on_packet pkt (\<lambda>v _ log. Some (log @ [view_bytes v])))
      (map (\<lambda>i. in_view (sample_sent ! i)) [1, 0, 1]) (new_decoder, []) = Some (d, log) \<and>
     subseq log [[65], [66, 67], [68]]"
proof (rule unreliable_delivery [of _ "''ITCH191230''"])
  have "sent_by ''ITCH191230'' [[65], [66, 67], [68]] (in_view (sample_sent ! 0))"
    unfolding sent_by_def
    by (intro disjI2 exI [of _ 0] exI [of _ "[[65], [66, 67]]"] conjI sample_parts(1)) (simp_all add: chunk_ok_def)
  moreover have "sent_by ''ITCH191230'' [[65], [66, 67], [68]] (in_view (sample_sent ! 1))"
    unfolding sent_by_def
    by (intro disjI2 exI [of _ 2] exI [of _ "[[68]]"] conjI sample_parts(2)) (simp_all add: chunk_ok_def)
  ultimately show "\<forall>pkt \<in> set (map (\<lambda>i. in_view (sample_sent ! i)) [1, 0, 1]).
      sent_by ''ITCH191230'' [[65], [66, 67], [68]] pkt" by simp
qed (simp_all add: kSessionSize_def)

section \<open>Sending\<close>

text \<open>
  C26. The drops of a run of \<open>k\<close> packets depend on nothing but the settings: every \<open>n\<close>th packet and
  \<open>k div n\<close> of them with a period; a fixed function of the seed and the index with a probability,
  every packet when it is 1 or more; none otherwise. And the generator has its full period: the
  mixed words of \<open>2 ^ 64\<close> packets in a row are all different.
\<close>

theorem injector_decisions:
  assumes "0 < n" and "k < 2 ^ 64" and "0 < p"
  shows "drop_run k 0 (gap_every_nth n) = map (\<lambda>j. unat n dvd j + 1) [0..<k] \<and>
     length (filter id (drop_run k 0 (gap_every_nth n))) = k div unat n \<and>
     drop_run k 0 (gap_with_probability p seed) =
       map (\<lambda>j. unit_draw (mix64 (seed + word_of_nat (Suc j) * golden)) < p) [0..<k] \<and>
     (1 \<le> p \<longrightarrow> drop_run k 0 (gap_with_probability p seed) = replicate k True) \<and>
     drop_run k 0 gap_none = replicate k False \<and>
     inj_on (\<lambda>j. mix64 (seed + word_of_nat j * golden)) {0..<2 ^ 64}"
proof (intro conjI impI)
  have 0: "unat (0 :: u64) + k < 2 ^ 64" using assms(2) by simp
  from drop_run_every [OF assms(1) 0]
  show every: "drop_run k 0 (gap_every_nth n) = map (\<lambda>j. unat n dvd j + 1) [0..<k]" by simp
  have "0 < unat n" using assms(1) by (simp add: unat_gt_0 word_neq_0_conv)
  from count_multiples [OF this] show "length (filter id (drop_run k 0 (gap_every_nth n))) = k div unat n"
    by (simp add: every filter_map comp_def)
  show prob: "drop_run k 0 (gap_with_probability p seed) =
       map (\<lambda>j. unit_draw (mix64 (seed + word_of_nat (Suc j) * golden)) < p) [0..<k]"
    by (rule drop_run_probability [OF assms(3)])
  show "drop_run k 0 (gap_with_probability p seed) = replicate k True" if "1 \<le> p"
    using less_le_trans [OF unit_draw_range(2) that] by (simp add: prob map_replicate_trivial)
  show "inj_on (\<lambda>j. mix64 (seed + word_of_nat j * golden)) {0..<2 ^ 64}"
    by (rule inj_onI) (meson atLeastLessThan_iff golden_multiples mix64_inj)
qed (rule drop_run_none)

theorem injector_decisions_witness:
  "length (filter id (drop_run 10 0 (gap_every_nth 3))) = 3 \<and> drop_run 2 0 (gap_with_probability 1 42) = replicate 2 True"
proof
  have "0 < (3 :: u64)" "(10 :: nat) < 2 ^ 64" "0 < (1 :: rat)" by simp_all
  from injector_decisions [OF this] have "length (filter id (drop_run 10 0 (gap_every_nth 3))) = 10 div unat (3 :: u64)"
    by blast
  then show "length (filter id (drop_run 10 0 (gap_every_nth 3))) = 3" by simp
  have "0 < (3 :: u64)" "(2 :: nat) < 2 ^ 64" "0 < (1 :: rat)" by simp_all
  from injector_decisions [OF this, of 42] show "drop_run 2 0 (gap_with_probability 1 42) = replicate 2 True"
    by blast
qed

text \<open>
  C25. Pacing. Without a rate \<open>wait\<close> returns the time it reads. With one, and a clock that does not
  stop, it ends: it reads the clock once, sleeps only when the due time \<open>origin + offset\<close> is more than
  half a millisecond away, and then exactly until half a millisecond before it, and reads the clock
  on until a reading is not before the due time, which it returns. The offset of packet \<open>i\<close> is exactly
  \<open>i * interval\<close> where the interval is a whole number of nanoseconds and the product below \<open>2 ^ 53\<close>.
\<close>

theorem wait_until_due:
  fixes host :: "'w host" and w :: 'w
  assumes "clock_advances host" and "interval_ns rl \<le> 0 \<or> due_offset rl i = Some off"
  defines "due \<equiv> rl_origin rl + off" and "now \<equiv> reading host 0 w" and "w0 \<equiv> clock_after host 1 w"
  defines "w1 \<equiv> (if due - now > 500000 then host_sleep host (due - now - 500000) w0 else w0)"
  shows "if interval_ns rl \<le> 0 then limiter_wait host rl i w = Some (word_of_int now, w0)
     else (\<exists>k. limiter_wait host rl i w = Some (word_of_int due, clock_after host (Suc k) w1) \<and>
            due \<le> reading host k w1 \<and> (\<forall>j < k. reading host j w1 < due)) \<and>
          (\<forall>m. interval_ns rl = of_nat m \<and> unat i * m < 2 ^ 53 \<longrightarrow> off = int (unat i * m))"
proof (cases "interval_ns rl \<le> 0")
  case True
  then show ?thesis
    by (simp add: limiter_wait_def now_ns_def now_def w0_def reading_def apfst_def map_prod_def case_prod_unfold)
next
  case False
  then have off: "due_offset rl i = Some off" using assms(2) by blast
  have read: "host_now host w = (now, w0)" by (simp add: now_def w0_def reading_def)
  have "due \<le> reading host n w1 \<Longrightarrow> \<exists>k. limiter_wait host rl i w = Some (word_of_int due, clock_after host (Suc k) w1) \<and>
      due \<le> reading host k w1 \<and> (\<forall>j < k. reading host j w1 < due)" for n
    using spin_until_ends [of due host n w1] False
    by (auto simp: limiter_wait_def off read w1_def due_def kSleepThreshold_def Let_def simp del: clock_after.simps)
  moreover obtain n where "due \<le> reading host n w1" using assms(1) by (auto simp: clock_advances_def)
  moreover have "off = int (unat i * m)" if "interval_ns rl = of_nat m" "unat i * m < 2 ^ 53" for m
    using due_offset_exact [of rl m i] that False off by simp
  ultimately show ?thesis using False by auto
qed

text \<open>A host for examples: what was sent, and a clock that counts.\<close>

definition sim_host :: "(bytes list \<times> int) host" where
  "sim_host = \<lparr>host_sendto = (\<lambda>p (l, t). (int (length p), (l @ [p], t))), host_now = (\<lambda>(l, t). (t, (l, t + 1))),
     host_sleep = (\<lambda>d (l, t). (l, t + d))\<rparr>"

lemma sim_host: "datagram_host fst sim_host" "clock_advances sim_host"
proof -
  show "datagram_host fst sim_host" by (auto simp: datagram_host_def sim_host_def)
  have "clock_after sim_host n (l, t) = (l, t + int n)" for n l t
    by (induction n arbitrary: t) (simp_all add: sim_host_def)
  then have "reading sim_host n (l, t) = t + int n" for n l t by (simp add: reading_def sim_host_def)
  moreover have "u \<le> t + int (nat (u - t))" for t u :: int by simp
  ultimately show "clock_advances sim_host" unfolding clock_advances_def split_paired_All by metis
qed

theorem wait_until_due_witness:
  "\<exists>k. limiter_wait sim_host \<lparr>rl_interval_ns = 1000000, rl_origin = 50\<rparr> 3 ([], 60) =
       Some (3000050, clock_after sim_host (Suc k) ([], 2500051)) \<and>
     3000050 \<le> reading sim_host k ([], 2500051)"
proof -
  let ?rl = "\<lparr>rl_interval_ns = 1000000, rl_origin = 50\<rparr>"
  have "interval_ns ?rl \<le> 0 \<or> due_offset ?rl 3 = Some 3000000"
    using due_offset_exact [of ?rl 1000000 3] by simp
  note wait = wait_until_due [OF sim_host(2) this, of "([], 60)"]
  have "reading sim_host 0 ([], 60) = 60" "clock_after sim_host 1 ([], 60) = ([], 61)"
    "host_sleep sim_host t ([], 61) = ([], 61 + t)" for t
    by (simp_all add: reading_def sim_host_def)
  with wait show ?thesis by (auto simp del: clock_after.simps)
qed


definition small_options :: options where
  "small_options = default_options\<lparr>op_max_payload := 8, op_drop_every := 2\<rparr>"

definition small_file :: bytes where
  "small_file = [0, 2, 65, 66, 0, 3, 67, 68, 69, 0, 1, 70]"

lemma small_hypotheses:
  "CHR 0x00 \<notin> set (op_session small_options)" "unat (op_max_payload small_options) + kHeaderSize < 2 ^ 64"
  "length small_file < 2 ^ 63" "paced sim_host (fst (new_limiter sim_host (op_rate small_options) w)) n"
  by (simp_all add: small_options_def default_options_def kHeaderSize_def small_file_def paced_def new_limiter_def
      sim_host_def case_prod_unfold)






section \<open>Drops on purpose\<close>

text \<open>
  C6. The two ends of a run with drops agree. When the replayer handed over every datagram it offered
  (exit code 0), logged fewer than 4096 drops, which is the room of the gap list, and all it sent
  arrives in order, the decoder hands on exactly the messages whose numbers are in no entry of the
  replayer's drop log, and from the first number it received on it reports exactly those numbers as
  missing, up to the end of the session; all numbers before the first were dropped, which it cannot
  know of. It sees no duplicate, no malformed packet and no change of session.
\<close>

theorem gaps_are_the_drops:
  assumes "datagram_host sent host" and "CHR 0x00 \<notin> set (op_session opts)"
    and "unat (op_max_payload opts) + kHeaderSize < 2 ^ 64" and "length data < 2 ^ 63"
    and "paced host (fst (new_limiter host (op_rate opts) w)) (length data + 1)"
    and "replayer_main host opts data w = Some (Inr rep)" and "rp_exit rep = 0"
    and "sent (rn_world (rp_run rep)) = sent w @ datagrams" and "list_all2 carries (p # pkts) datagrams"
    and "length (rn_drops (rp_run rep)) < kMaxGaps"
  defines "first \<equiv> unat (mh_sequence (pkt_header p))" and "drops \<equiv> rn_drops (rp_run rep)"
  shows "\<exists>d log taken. foldM (\<lambda>pkt. on_packet pkt (\<lambda>v _ log. Some (log @ [view_bytes v]))) (p # pkts) (new_decoder, []) =
      Some (d, log) \<and> end_of_session_seen d \<and> expected_sequence d = 1 + rn_packed (rp_run rep) \<and> calm d = calm new_decoder \<and>
     (\<forall>n. missing (decoder_gaps d) n \<longleftrightarrow> first \<le> n \<and> dropped drops n) \<and>
     (\<forall>n. 0 < n \<and> n < first \<longrightarrow> dropped drops n) \<and>
     prefix taken (frame_views (length data) data) \<and>
     (op_max_packets opts = 0 \<longrightarrow> taken = frame_views (length data) data) \<and>
     log = [fitting (op_max_payload opts) taken ! (n - 1).
        n \<leftarrow> [1..<1 + length (fitting (op_max_payload opts) taken)], \<not> dropped drops n]"
proof -
  from replayer_correct [OF assms(1-5)] obtain rep' taken chunks acc where rep': "replayer_main host opts data w = Some (Inr rep')"
    and "prefix taken (frame_views (length data) data)"
    "op_max_packets opts = 0 \<longrightarrow> taken = frame_views (length data) data"
    "concat chunks = fitting (op_max_payload opts) taken"
    "\<forall>c \<in> set chunks. chunk_ok c \<and> blocks_length c \<le> unat (op_max_payload opts)"
    "sent (rn_world (rp_run rep')) = sent w @ acc" "rp_exit rep' = 0 \<longleftrightarrow> acc = offered_packets opts chunks"
    "rn_packed (rp_run rep') = word_of_nat (length (concat chunks))"
    "rn_drops (rp_run rep') = drops_of 1 0 (drop_run (length chunks) 0 (choose_gaps opts)) chunks" by blast
  moreover from rep' have "rep' = rep" using assms(6) by simp
  ultimately have run: "prefix taken (frame_views (length data) data)"
    "op_max_packets opts = 0 \<longrightarrow> taken = frame_views (length data) data"
    "concat chunks = fitting (op_max_payload opts) taken" "\<forall>c \<in> set chunks. chunk_ok c"
    "sent (rn_world (rp_run rep)) = sent w @ acc" "acc = offered_packets opts chunks"
    "rn_packed (rp_run rep) = word_of_nat (length (concat chunks))"
    "drops = drops_of 1 0 (drop_run (length chunks) 0 (choose_gaps opts)) chunks"
    using assms(7) by (simp_all add: drops_def)
  let ?ds = "drop_run (length chunks) 0 (choose_gaps opts)" and ?d = "fold decoder_step (p # pkts) new_decoder"
  have pkts: "list_all2 carries (p # pkts) (survivors ?ds (packets_of (run_session opts) 1 chunks) @
      [eos_packet (run_session opts) (1 + word_of_nat (length (concat chunks)))])"
    using run(5,6) assms(8,9) by (simp add: offered_packets_def del: list_all2_Cons2)
  have "length (frame_views (length data) data) \<le> length data"
    using length_frames_views [of "frame_views (length data) data"] frame_views_split(2) [of "length data" data] by simp
  then have "length (concat chunks) \<le> length data"
    using length_fitting [of "op_max_payload opts" taken] prefix_length_le [OF run(1)] run(3) by simp
  then have size: "length (concat chunks) + 65538 < 2 ^ 64" using assms(4) by simp
  have few: "length (filter id ?ds) < kMaxGaps" using assms(10) length_drops_of [of ?ds chunks 1 0] run(8) drops_def by simp
  note session = drop_session [OF pkts length_drop_run length_run_session run(4) size few, folded run(8) first_def]
  have "\<forall>pkt \<in> set (p # pkts). pkt_ok pkt"
    using survivors_sent [OF pkts run(4)] unfolding sent_by_def carries_def by blast
  note feed = on_packets_eq [OF this]
  let ?log = "map (view_bytes \<circ> fst) (stream_views (p # pkts) new_decoder)"
  have "foldM (\<lambda>pkt. on_packet pkt (\<lambda>v _ log. Some (log @ [view_bytes v]))) (p # pkts) (new_decoder, []) = Some (?d, ?log)"
    unfolding feed by (simp add: logging_sink del: stream_views.simps fold_simps fold_Cons)
  moreover have "md_expected ?d = 1 + rn_packed (rp_run rep)" using session(2) run(7) by simp
  moreover have "?log = [fitting (op_max_payload opts) taken ! (n - 1).
      n \<leftarrow> [1..<1 + length (fitting (op_max_payload opts) taken)], \<not> dropped drops n]"
    by (rule session(6) [unfolded run(3)])
  ultimately show ?thesis using session(1,3-5) run(1,2) unfolding decoder_reads by blast
qed

text \<open>The second of two packets is dropped, with its two messages.\<close>

lemma small_run:
  "case replayer_main sim_host small_options small_file ([], 0) of
     Some (Inr rep) \<Rightarrow> rp_exit rep = 0 \<and> length (fst (rn_world (rp_run rep))) = 2 \<and>
       list_all (\<lambda>b. length b < 200) (fst (rn_world (rp_run rep))) \<and>
       rn_drops (rp_run rep) = [\<lparr>de_first = 2, de_count = 2, de_packet_index = 1\<rparr>] \<and>
       mh_sequence (pkt_header (in_view (hd (fst (rn_world (rp_run rep)))))) = 1 \<and> rn_packed (rp_run rep) = 3
   | _ \<Rightarrow> False"
  by code_simp

theorem gaps_are_the_drops_witness:
  "\<exists>rep d log. replayer_main sim_host small_options small_file ([], 0) = Some (Inr rep) \<and>
     foldM (\<lambda>pkt. on_packet pkt (\<lambda>v _ log. Some (log @ [view_bytes v])))
       (map in_view (fst (rn_world (rp_run rep)))) (new_decoder, []) = Some (d, log) \<and>
     md_expected d = 4 \<and> (\<forall>n. missing (md_gaps d) n \<longleftrightarrow> n = 2 \<or> n = 3)"
proof -
  obtain rep where rep: "replayer_main sim_host small_options small_file ([], 0) = Some (Inr rep)" "rp_exit rep = 0"
    "length (fst (rn_world (rp_run rep))) = 2" "\<forall>b \<in> set (fst (rn_world (rp_run rep))). length b < 200"
    "rn_drops (rp_run rep) = [\<lparr>de_first = 2, de_count = 2, de_packet_index = 1\<rparr>]"
    "mh_sequence (pkt_header (in_view (hd (fst (rn_world (rp_run rep)))))) = 1" "rn_packed (rp_run rep) = 3"
    using small_run by (auto split: option.splits sum.splits simp: list_all_iff)
  let ?sent = "fst (rn_world (rp_run rep))"
  have cons: "map in_view ?sent = in_view (hd ?sent) # map in_view (tl ?sent)" using rep(3) by (cases ?sent) simp_all
  have carried: "list_all2 carries (in_view (hd ?sent) # map in_view (tl ?sent)) ?sent"
    unfolding cons [symmetric] using rep(4) by (simp add: list_all2_map1 list_all2_same in_view_carries)
  have "?sent = fst ([] :: bytes list, 0 :: int) @ ?sent" "length (rn_drops (rp_run rep)) < kMaxGaps"
    by (simp_all add: rep(5) kMaxGaps_def)
  from gaps_are_the_drops [OF sim_host(1) small_hypotheses rep(1,2) this(1) carried this(2)]
  obtain d log where run: "foldM (\<lambda>pkt. on_packet pkt (\<lambda>v _ log. Some (log @ [view_bytes v])))
      (in_view (hd ?sent) # map in_view (tl ?sent)) (new_decoder, []) = Some (d, log)" "md_expected d = 1 + 3"
    "\<forall>n. missing (md_gaps d) n \<longleftrightarrow> unat (1 :: u64) \<le> n \<and> dropped [\<lparr>de_first = 2, de_count = 2, de_packet_index = 1\<rparr>] n"
    unfolding rep(5-7) decoder_reads by (elim exE conjE) (rule that)
  have "missing (md_gaps d) n \<longleftrightarrow> n = 2 \<or> n = 3" for n
    using spec [OF run(3), of n] by simp presburger
  then show ?thesis using rep(1) run(1,2) unfolding cons [symmetric]
    by (intro exI [of _ rep] exI [of _ d] exI [of _ log] conjI) (assumption | simp)+
qed

end
