(* ===== verification/Io_Properties.thy ===== *)
theory Io_Properties
  imports Receiver Capture Latency_Recorder Replayer_Process Mold_Properties
begin

text \<open>
  The properties of the parts at the edge of the system: the receiver's loop, the sockets, the
  replayer's process and command line, the capture file, the measurement clock and the latency
  recorder. Hosts for examples are at the top.
\<close>

section \<open>Receiving\<close>

text \<open>A socket with a list of events, a counter that counts, and the last \<open>errno\<close>.\<close>

definition sim_rx :: "(rx_event list \<times> u64 \<times> int) rx_host" where
  "sim_rx = \<lparr>rx_recvfrom = (\<lambda>buf (es, t, err). case es of
       Arrives b # es \<Rightarrow> (int (length b), take (length buf) b @ drop (length b) buf, es, t, err)
     | Signal # es \<Rightarrow> (- 1, buf, es, t, EINTR)
     | Fails # es \<Rightarrow> (- 1, buf, es, t, 5)
     | _ \<Rightarrow> (- 1, buf, es, t, 5)),
     rx_errno = (\<lambda>(es, t, err). err), rx_now = (\<lambda>(es, t, err). (t, es, t + 1, err)),
     rx_asked = (\<lambda>(es, t, err). (case es of [] \<Rightarrow> True | e # _ \<Rightarrow> e = StopAsked, es, t, err))\<rparr>"

lemma sim_rx: "rx_source fst sim_rx"
  unfolding rx_source_def
proof (intro conjI allI impI)
  fix w :: "rx_event list \<times> u64 \<times> int"
  show "fst (rx_asked sim_rx w) \<longleftrightarrow> fst w = [] \<or> hd (fst w) = StopAsked"
    by (cases w) (auto simp: sim_rx_def split: list.split)
  show "fst (snd (rx_asked sim_rx w)) = fst w" by (cases w) (simp add: sim_rx_def)
  show "fst (snd (rx_now sim_rx w)) = fst w" "rx_errno sim_rx (snd (rx_now sim_rx w)) = rx_errno sim_rx w"
    by (cases w; simp add: sim_rx_def)+
next
  fix w w' :: "rx_event list \<times> u64 \<times> int" and e es buf n buf'
  assume call: "fst w = e # es" "e \<noteq> StopAsked" "rx_recvfrom sim_rx buf w = (n, buf', w')"
  obtain t err where w: "w = (e # es, t, err)" using call(1) by (cases w) auto
  show "fst w' = es" "length buf' = length buf"
    "case e of
       Arrives b \<Rightarrow> n = int (length b) \<and> buf' = take (length buf) b @ drop (length b) buf
     | Signal \<Rightarrow> n < 0 \<and> rx_errno sim_rx w' = EINTR
     | _ \<Rightarrow> n < 0 \<and> rx_errno sim_rx w' \<noteq> EINTR"
    using call(2,3) unfolding w by (cases e; auto simp: sim_rx_def EINTR_def)+
qed

text \<open>
  C27. The receiver's loop over any future of its socket: it ends at a failure or a request to stop, an
  interrupted call is made again, a datagram longer than the buffer is counted and dropped, and the
  sink gets every other datagram once, in order and whole, until it asks to stop itself; the
  counters are exactly the datagrams delivered, those dropped, and the calls made.
\<close>

theorem receiver_delivers:
  fixes f :: "packet_view \<Rightarrow> 's \<Rightarrow> 's option"
  assumes "rx_source pending host" and "small_events (pending w)"
    and "\<not> rv_stop rv" and "length (rv_buffer rv) = kBufferSize"
  shows "\<exists>pkts rv' w'. list_all2 carries pkts (filter rx_fits (rx_seen (pending w))) \<and>
     receiver_run (beside host) (feed f (\<lambda>_. False)) (rv, w, s) = map_option (\<lambda>s. (rv', w', s)) (foldM f pkts s) \<and>
     map_option (snd \<circ> snd) (receiver_run (beside host) (feed f until) (rv, w, s)) = feed_run f until pkts s \<and>
     run_counts (pending w) rv rv'"
  using run_loop [OF assms, where ?'s = 's] by blast

lemma receiver_folds:
  fixes f :: "packet_view \<Rightarrow> 's \<Rightarrow> 's option"
  assumes "rx_source pending host" and "small_events (pending w)"
    and "\<not> rv_stop rv" and "length (rv_buffer rv) = kBufferSize"
  obtains pkts rv' w' where "list_all2 carries pkts (filter rx_fits (rx_seen (pending w)))"
    and "run_counts (pending w) rv rv'"
    and "receiver_run (beside host) (feed f (\<lambda>_. False)) (rv, w, s) = map_option (\<lambda>s. (rv', w', s)) (foldM f pkts s)"
  using run_loop [OF assms, where ?'s = 's] by blast

lemma new_receiver_ready: "\<not> rv_stop new_receiver" "length (rv_buffer new_receiver) = kBufferSize"
  by (simp_all add: new_receiver_def)

definition sample_events :: "rx_event list" where
  "sample_events = [Arrives [1, 2], Signal, Arrives [], Arrives (replicate 2049 7), Arrives [3], StopAsked]"

theorem receiver_delivers_witness:
  "\<exists>rv w. receiver_run (beside sim_rx) (feed (\<lambda>pkt ls. Some (ls @ [length (pkt_bytes pkt)])) (\<lambda>_. False))
      (new_receiver, (sample_events, 0, 0), []) = Some (rv, w, [2, 0, 1]) \<and>
     rv_packets rv = 3 \<and> rv_truncated rv = 1 \<and> rv_syscalls rv = 5"
proof -
  let ?f = "\<lambda>pkt ls. Some (ls @ [length (pkt_bytes pkt)])"
  have small: "small_events (fst (sample_events, 0, 0))" by (auto simp: small_events_def sample_events_def)
  have fits: "filter rx_fits (rx_seen sample_events) = [[1, 2], [], [3]]"
    "filter (Not \<circ> rx_fits) (rx_seen sample_events) = [replicate 2049 7]" "rx_calls sample_events = 5"
    by (simp_all add: sample_events_def rx_fits_def kBufferSize_def)
  have len: "foldM ?f pkts ls = Some (ls @ map length bs)" if "list_all2 carries pkts bs" for pkts bs and ls :: "nat list"
    using that by (induction pkts bs arbitrary: ls rule: list_all2_induct) (simp_all add: carries_def)
  obtain pkts rv w where run: "list_all2 carries pkts [[1, 2], [], [3]]"
    "receiver_run (beside sim_rx) (feed ?f (\<lambda>_. False)) (new_receiver, (sample_events, 0, 0), []) =
      map_option (\<lambda>s. (rv, w, s)) (foldM ?f pkts [])"
    "run_counts sample_events new_receiver rv"
    using receiver_delivers [OF sim_rx small new_receiver_ready, of ?f "[]" "\<lambda>_. False"]
    unfolding fst_conv fits by blast
  show ?thesis
    using run(2,3) len [OF run(1), of "[]"]
    by (intro exI [of _ rv] exI [of _ w]) (simp add: run_counts_def fits new_receiver_def)
qed

section \<open>Sockets\<close>

text \<open>
  C28. Opening a socket either succeeds, with a descriptor that was not open and exactly the calls the
  arguments ask for, in order, or throws and leaves no descriptor open that was not open before;
  the destructor gives the descriptor back. For \<open>open_udp_socket\<close>, the receiver and the sender.
\<close>

theorem sockets_open_or_restore:
  assumes "socket_laws calls host"
  shows "opens_or_restores (calls w) (receive_calls host bind_host port multicast multicast_group)
       (map_sum id fst (fst (open_udp_socket host bind_host port multicast multicast_group want_port w)))
       (calls (snd (open_udp_socket host bind_host port multicast multicast_group want_port w))) \<and>
     opens_or_restores (calls w) (receive_calls host bind_host port multicast multicast_group)
       (map_sum id fst (fst (open_receiver host bind_host port multicast multicast_group w)))
       (calls (snd (open_receiver host bind_host port multicast multicast_group w))) \<and>
     opens_or_restores (calls w) (sender_calls host multicast interface send_buffer)
       (map_sum id ss_fd (fst (open_sender host bind_host port multicast interface send_buffer w)))
       (calls (snd (open_sender host bind_host port multicast interface send_buffer w))) \<and>
     (\<forall>made fd w'. opens_or_restores (calls w) made (Inr fd) (calls w') \<longrightarrow>
       open_fds (calls (close_socket host fd w')) = open_fds (calls w) \<and>
       open_fds (calls (close_receiver host fd w')) = open_fds (calls w))"
  by (intro conjI allI impI open_udp_socket_calls [OF assms] open_receiver_calls [OF assms] open_sender_calls [OF assms]
      close_socket_restores [OF assms] close_receiver_restores [OF assms])

text \<open>A host over the calls made, on which port 80 cannot be bound.\<close>

fun next_step :: "sock_call \<Rightarrow> int \<Rightarrow> int" where
  "next_step (Opened fd) m = max m (fd + 1)"
| "next_step _ m = m"

lemma next_step_fresh:
  "\<forall>fd \<in> fds. fd < m \<Longrightarrow> \<forall>fd \<in> fold open_step cs fds. fd < fold next_step cs m"
proof (induction cs arbitrary: fds m)
  case (Cons c cs)
  have "\<forall>fd \<in> open_step c fds. fd < next_step c m" using Cons.prems by (cases c) auto
  from Cons.IH [OF this] show ?case by simp
qed simp

lemma next_step_le: "m \<le> fold next_step cs m"
proof (induction cs arbitrary: m)
  case (Cons c cs)
  have "m \<le> next_step c m" by (cases c) simp_all
  then show ?case using Cons.IH [of "next_step c m"] by simp
qed simp

definition sim_sock :: "sock_call list sock_host" where
  "sim_sock = \<lparr>sk_socket = (\<lambda>cs. (fold next_step cs 3, cs @ [Opened (fold next_step cs 3)])),
     sk_close = (\<lambda>fd cs. cs @ [Closed fd]), sk_setopt = (\<lambda>fd opt cs. (0, cs @ [SetOpt fd opt])),
     sk_bind = (\<lambda>fd a cs. if sin_port a = htons 80 then (- 1, cs) else (0, cs @ [Bound fd a])),
     sk_getsockname = (\<lambda>fd cs. (0, \<lparr>sin_port = htons 26477, sin_addr = 0\<rparr>, cs)),
     sk_getsockopt = (\<lambda>fd v cs. (212992, cs)), sk_pton = (\<lambda>s. if s = [] then None else Some 0x0100007F),
     sk_errno = (\<lambda>_. 13), sk_strerror = (\<lambda>_. ''Permission denied'')\<rparr>"

lemma sim_fresh: "fold next_step cs 3 \<notin> open_fds cs" "0 \<le> fold next_step cs 3"
  using next_step_fresh [of "{}" 3 cs] next_step_le [of 3 cs] by (auto simp: open_fds_def)

lemma sim_sock: "socket_laws id sim_sock"
  using sim_fresh by (auto simp: socket_laws_def sim_sock_def)

theorem sockets_open_or_restore_witness:
  "open_fds (snd (open_udp_socket sim_sock ''127.0.0.1'' 80 False [] True [Opened 3])) = {3} \<and>
   fst (open_udp_socket sim_sock ''127.0.0.1'' 80 False [] True [Opened 3]) = Inl ''bind: Permission denied''"
proof
  show res: "fst (open_udp_socket sim_sock ''127.0.0.1'' 80 False [] True [Opened 3]) = Inl ''bind: Permission denied''"
    by code_simp
  have "open_fds [Opened 3] = {3}" by (simp add: open_fds_def)
  then show "open_fds (snd (open_udp_socket sim_sock ''127.0.0.1'' 80 False [] True [Opened 3])) = {3}"
    using sockets_open_or_restore [OF sim_sock, of "[Opened 3]" "''127.0.0.1''" 80 False "[]" True "[]" 0]
    by (simp add: opens_or_restores_def res)
qed

section \<open>The replayer's process\<close>

text \<open>
  C31. The command line is read back: whatever settings are asked for, in whatever order and however
  often, each numeric value of its type written in decimal, \<open>parse_args\<close> gives the options with the
  last value of each, or exit code 2 without a file; and it exits with 2 at a flag that lacks its
  value or that it does not know.
\<close>

theorem arguments_read_back:
  assumes "\<forall>s \<in> set ss. setting_ok s"
  shows "parse_args (concat (map written ss)) =
       Some (if op_file (fold asked ss default_options) = [] then Inl 2 else Inr (fold asked ss default_options)) \<and>
     (\<forall>a. valued a \<noteq> None \<longrightarrow> parse_args (concat (map written ss) @ [a]) = Some (Inl 2)) \<and>
     (\<forall>a args. valued a = None \<and> a \<noteq> ''--multicast'' \<and> a \<noteq> [] \<and> hd a = CHR ''-'' \<longrightarrow>
       parse_args (concat (map written ss) @ a # args) = Some (Inl 2))"
proof (intro conjI allI impI)
  show "parse_args (concat (map written ss)) =
      Some (if op_file (fold asked ss default_options) = [] then Inl 2 else Inr (fold asked ss default_options))"
    by (rule parse_args_written [OF assms])
qed (simp_all add: parse_args_rejects [OF assms])

theorem arguments_read_back_witness:
  "parse_args [''--port'', ''9000'', ''day.itch'', ''--rate'', ''1000'', ''--port'', ''9001''] =
     Some (Inr (default_options\<lparr>op_file := ''day.itch'', op_rate := 1000, op_port := 9001\<rparr>))"
proof -
  let ?ss = "[SetPort 9000, SetFile ''day.itch'', SetRate ''1000'', SetPort 9001]"
  have "atof ''1000'' = Some (fl 1000)"
    by (simp add: atof_def c_str_def is_space_def is_digit_def take_sign_def special_number_def decimal_value_def
        digit_value_def take_exponent_def ten_to_def Let_def)
  moreover have "fl 1000 = 1000" using fl_nat [of 1000] by simp
  ultimately have rate: "atof ''1000'' = Some 1000" by simp
  have line: "concat (map written ?ss) = [''--port'', ''9000'', ''day.itch'', ''--rate'', ''1000'', ''--port'', ''9001'']"
  proof -
    have "char_of (48 :: nat) = CHR ''0''" "char_of (49 :: nat) = CHR ''1''" "char_of (57 :: nat) = CHR ''9''" by code_simp+
    then show ?thesis by (simp add: decimal.simps digit_char_def)
  qed
  have "\<forall>s \<in> set ?ss. setting_ok s" by (simp add: rate)
  from arguments_read_back [OF this] show ?thesis unfolding line by (simp add: rate default_options_def)
qed

text \<open>
  C29. With a command line that parses, a file that is there and a socket that opens, the process is the
  run of \<open>replayer_main\<close> on the bytes of the file: it ends with 0 or 1, 0 exactly when the socket took
  every datagram it was offered, and the socket is closed after it. It writes the schedule log just
  when one is asked for and its file can be opened, and the drop log likewise, in this order; the
  rows of the first read back as the schedule of the run and those of the second as its drops, one
  for each packet the injector left out.
\<close>

theorem replayer_process_ends:
  assumes "regular_files files fs" and "socket_laws calls sk" and "parse_args args = Some (Inr opts)"
    and "files (c_str (op_file opts)) = Some data"
    and "open_sender sk (op_host opts) (op_port opts) (op_multicast opts) (op_interface opts) (op_sndbuf opts) w = (Inr sock, w')"
    and "datagram_host sent (host sock)" and "CHR 0x00 \<notin> set (op_session opts)"
    and "unat (op_max_payload opts) + kHeaderSize < 2 ^ 64" and "length data < 2 ^ 63"
    and "paced (host sock) (fst (new_limiter (host sock) (op_rate opts) w')) (length data + 1)"
  shows "\<exists>out rep chunks acc schedule_text drop_text.
     replayer_process sk host fs can_open args w = Some out \<and> ro_report out = Some rep \<and>
     (ro_exit out = 0 \<or> ro_exit out = 1) \<and> ro_world out = close_socket sk (ss_fd sock) (rn_world (rp_run rep)) \<and>
     (op_max_packets opts = 0 \<longrightarrow> concat chunks = fitting (op_max_payload opts) (frame_views (length data) data)) \<and>
     sent (rn_world (rp_run rep)) = sent w' @ acc \<and> (ro_exit out = 0 \<longleftrightarrow> acc = offered_packets opts chunks) \<and>
     ro_logs out =
       (if op_schedule_log opts \<noteq> '''' \<and> can_open (c_str (op_schedule_log opts)) then [(op_schedule_log opts, schedule_text)] else []) @
       (if op_drop_log opts \<noteq> '''' \<and> can_open (c_str (op_drop_log opts)) then [(op_drop_log opts, drop_text)] else []) \<and>
     map entry_of_row (read_rows schedule_text) = rn_schedule (rp_run rep) \<and>
     schedule_logged (host sock) opts w' chunks (rn_schedule (rp_run rep)) \<and>
     map drop_of_row (read_rows drop_text) = rn_drops (rp_run rep) \<and>
     rn_drops (rp_run rep) = drops_of 1 0 (drop_run (length chunks) 0 (choose_gaps opts)) chunks"
proof -
  from replayer_body_runs [OF assms(6-10)] obtain out rep chunks acc where body:
    "replayer_body sk (host sock) can_open opts data (ss_fd sock) w' = Some out" "ro_report out = Some rep"
    "ro_exit out = 0 \<or> ro_exit out = 1" "ro_logs out = write_logs can_open opts (rp_run rep)"
    "ro_world out = close_socket sk (ss_fd sock) (rn_world (rp_run rep))"
    "op_max_packets opts = 0 \<longrightarrow> concat chunks = fitting (op_max_payload opts) (frame_views (length data) data)"
    "sent (rn_world (rp_run rep)) = sent w' @ acc" "ro_exit out = 0 \<longleftrightarrow> acc = offered_packets opts chunks"
    "rn_drops (rp_run rep) = drops_of 1 0 (drop_run (length chunks) 0 (choose_gaps opts)) chunks"
    "schedule_logged (host sock) opts w' chunks (rn_schedule (rp_run rep))" by blast
  have "replayer_process sk host fs can_open args w = Some out"
    using replayer_process_cases(3) [OF assms(1-5)] body(1) by simp
  then show ?thesis
    by (intro exI [of _ out] exI [of _ rep] exI [of _ chunks] exI [of _ acc]
        exI [of _ "schedule_log_text (rn_schedule (rp_run rep))"]
        exI [of _ "drop_log_text (op_seed opts) (rn_drops (rp_run rep))"] conjI)
      (use body in \<open>simp_all add: write_logs_def read_schedule_log read_drop_log\<close>)
qed

text \<open>A world of the calls on sockets, the datagrams sent and a clock.\<close>

definition process_sock :: "(sock_call list \<times> bytes list \<times> int) sock_host" where
  "process_sock = \<lparr>sk_socket = (\<lambda>(cs, r). let (fd, cs) = sk_socket sim_sock cs in (fd, cs, r)),
     sk_close = (\<lambda>fd (cs, r). (sk_close sim_sock fd cs, r)),
     sk_setopt = (\<lambda>fd opt (cs, r). let (n, cs) = sk_setopt sim_sock fd opt cs in (n, cs, r)),
     sk_bind = (\<lambda>fd a (cs, r). let (n, cs) = sk_bind sim_sock fd a cs in (n, cs, r)),
     sk_getsockname = (\<lambda>fd (cs, r). let (n, a, cs) = sk_getsockname sim_sock fd cs in (n, a, cs, r)),
     sk_getsockopt = (\<lambda>fd v (cs, r). let (n, cs) = sk_getsockopt sim_sock fd v cs in (n, cs, r)),
     sk_pton = sk_pton sim_sock, sk_errno = (\<lambda>_. 13), sk_strerror = sk_strerror sim_sock\<rparr>"

definition process_host :: "send_socket \<Rightarrow> (sock_call list \<times> bytes list \<times> int) host" where
  "process_host sock = \<lparr>host_sendto = (\<lambda>p (cs, l, t). (int (length p), cs, l @ [p], t)),
     host_now = (\<lambda>(cs, l, t). (t, cs, l, t + 1)), host_sleep = (\<lambda>d (cs, l, t). (cs, l, t + d))\<rparr>"

lemma process_sock: "socket_laws fst process_sock"
  using sim_fresh by (auto simp: socket_laws_def process_sock_def sim_sock_def)

lemma process_host: "datagram_host (fst \<circ> snd) (process_host sock)"
  by (auto simp: datagram_host_def process_host_def)

definition small_files :: "string \<Rightarrow> bytes option" where
  "small_files name = (if name = ''day.itch'' then Some small_file else None)"

definition small_disk :: file_system where
  "small_disk name = map_option (\<lambda>b. (int (length b), \<lambda>n. if n \<le> length b then Some (take n b) else None)) (small_files name)"

lemma small_disk: "regular_files small_files small_disk"
  by (simp add: regular_files_def small_disk_def split: option.split)

text \<open>Every packet is dropped, and both logs are written.\<close>

theorem replayer_process_ends_witness:
  "\<exists>out rep schedule_text drop_text.
     replayer_process process_sock process_host small_disk (\<lambda>_. True)
       [''day.itch'', ''--drop-every'', ''1'', ''--schedule-log'', ''s'', ''--drop-log'', ''d''] ([], [], 0) = Some out \<and>
     ro_report out = Some rep \<and> ro_logs out = [(''s'', schedule_text), (''d'', drop_text)] \<and>
     map entry_of_row (read_rows schedule_text) = rn_schedule (rp_run rep) \<and> rn_schedule (rp_run rep) \<noteq> [] \<and>
     map drop_of_row (read_rows drop_text) = rn_drops (rp_run rep) \<and> rn_drops (rp_run rep) \<noteq> []"
proof -
  let ?opts = "default_options\<lparr>op_file := ''day.itch'', op_drop_every := 1, op_schedule_log := ''s'', op_drop_log := ''d''\<rparr>"
  let ?ss = "[SetFile ''day.itch'', SetDropEvery 1, SetScheduleLog ''s'', SetDropLog ''d'']"
  have line: "concat (map written ?ss) = [''day.itch'', ''--drop-every'', ''1'', ''--schedule-log'', ''s'', ''--drop-log'', ''d'']"
  proof -
    have "char_of (49 :: nat) = CHR ''1''" by code_simp
    then show ?thesis by (simp add: decimal.simps digit_char_def)
  qed
  have parse: "parse_args [''day.itch'', ''--drop-every'', ''1'', ''--schedule-log'', ''s'', ''--drop-log'', ''d''] = Some (Inr ?opts)"
    using parse_args_written [of ?ss] unfolding line by (simp add: default_options_def)
  have data: "small_files (c_str (op_file ?opts)) = Some small_file" by (simp add: small_files_def c_str_def)
  have opened: "open_sender process_sock (op_host ?opts) (op_port ?opts) (op_multicast ?opts) (op_interface ?opts)
      (op_sndbuf ?opts) ([], [], 0) =
    (Inr \<lparr>ss_fd = 3, ss_dest = \<lparr>sin_port = htons 26477, sin_addr = 0x0100007F\<rparr>, ss_effective_sndbuf = 212992\<rparr>,
     [Opened 3], [], 0)"
    by (simp add: open_sender_def send_buffer_part_def process_sock_def sim_sock_def default_options_def c_str_def)
  have run: "CHR 0x00 \<notin> set (op_session ?opts)" "unat (op_max_payload ?opts) + kHeaderSize < 2 ^ 64" "length small_file < 2 ^ 63"
    by (simp_all add: default_options_def kMaxPayload_def kHeaderSize_def small_file_def)
  have "paced (process_host sock) (fst (new_limiter (process_host sock) (op_rate ?opts) w)) n" for sock w n
    by (simp add: paced_def new_limiter_def default_options_def case_prod_unfold Let_def)
  from replayer_process_ends [where host = process_host and can_open = "\<lambda>_. True",
      OF small_disk process_sock parse data opened process_host run this]
  obtain out rep chunks schedule_text drop_text where
    out: "replayer_process process_sock process_host small_disk (\<lambda>_. True)
       [''day.itch'', ''--drop-every'', ''1'', ''--schedule-log'', ''s'', ''--drop-log'', ''d''] ([], [], 0) = Some out"
      "ro_report out = Some rep"
      "ro_logs out = (if op_schedule_log ?opts \<noteq> '''' \<and> True then [(op_schedule_log ?opts, schedule_text)] else []) @
        (if op_drop_log ?opts \<noteq> '''' \<and> True then [(op_drop_log ?opts, drop_text)] else [])"
      "map entry_of_row (read_rows schedule_text) = rn_schedule (rp_run rep)"
      "map drop_of_row (read_rows drop_text) = rn_drops (rp_run rep)"
    and ran: "op_max_packets ?opts = 0 \<longrightarrow>
        concat chunks = fitting (op_max_payload ?opts) (frame_views (length small_file) small_file)"
      "schedule_logged (process_host \<lparr>ss_fd = 3, ss_dest = \<lparr>sin_port = htons 26477, sin_addr = 0x0100007F\<rparr>,
         ss_effective_sndbuf = 212992\<rparr>) ?opts ([Opened 3], [], 0) chunks (rn_schedule (rp_run rep))"
      "rn_drops (rp_run rep) = drops_of 1 0 (drop_run (length chunks) 0 (choose_gaps ?opts)) chunks"
    by blast
  have logs: "ro_logs out = [(''s'', schedule_text), (''d'', drop_text)]" using out(3) by simp
  have chunks: "concat chunks = fitting kMaxPayload (frame_views (length small_file) small_file)"
    using ran(1) by (simp add: default_options_def)
  have "fitting kMaxPayload (frame_views (length small_file) small_file) \<noteq> []" by code_simp
  then obtain c cs where cs: "chunks = c # cs" using chunks(1) by (cases chunks) auto
  have "fst (should_drop 0 (choose_gaps ?opts))"
    by (simp add: choose_gaps_def default_options_def gap_every_nth_def should_drop_def)
  then have "rn_drops (rp_run rep) \<noteq> []" by (simp add: ran(3) cs case_prod_unfold Let_def)
  moreover have "rn_schedule (rp_run rep) \<noteq> []" using schedule_logged_length [OF ran(2)] cs by auto
  ultimately show ?thesis using out(1,2,4,5) logs by blast
qed

text \<open>
  C30. A command line that does not parse, a file that is not there and a socket that does not open end
  the replayer with an exit code before any datagram is sent, without a report, and with no
  descriptor open that was not open before.
\<close>

theorem replayer_process_fails:
  assumes "regular_files files fs" and "socket_laws calls sk"
    and "parse_args args = Some parsed"
    and "\<forall>opts data. parsed = Inr opts \<and> files (c_str (op_file opts)) = Some data \<longrightarrow>
      (\<exists>msg w'. open_sender sk (op_host opts) (op_port opts) (op_multicast opts) (op_interface opts) (op_sndbuf opts) w = (Inl msg, w'))"
  shows "\<exists>out. replayer_process sk host fs can_open args w = Some out \<and> ro_report out = None \<and> ro_logs out = [] \<and>
     ro_exit out = (case parsed of Inl code \<Rightarrow> code | Inr opts \<Rightarrow> 2) \<and>
     open_fds (calls (ro_world out)) = open_fds (calls w)"
proof (cases parsed)
  case (Inl code)
  then show ?thesis
    using replayer_process_cases(1) [OF assms(1,2), of args code] assms(3) by (simp add: failed_outcome_def)
next
  case parsed: (Inr opts)
  show ?thesis
  proof (cases "files (c_str (op_file opts))")
    case None
    then show ?thesis
      using replayer_process_cases(2) [OF assms(1,2), of args opts] assms(3) by (simp add: failed_outcome_def parsed)
  next
    case (Some data)
    then obtain msg w' where "open_sender sk (op_host opts) (op_port opts) (op_multicast opts) (op_interface opts)
        (op_sndbuf opts) w = (Inl msg, w')" using assms(4) parsed by blast
    from replayer_process_cases(3) [OF assms(1,2) assms(3) [unfolded parsed] Some this] show ?thesis
      by (simp add: failed_outcome_def parsed opens_or_restores_def)
  qed
qed

theorem replayer_process_fails_witness:
  "\<exists>out. replayer_process process_sock process_host small_disk (\<lambda>_. True) [''night.itch''] ([], [], 0) = Some out \<and>
     ro_exit out = 2 \<and> ro_report out = None"
proof -
  have parse: "parse_args [''night.itch''] = Some (Inr (default_options\<lparr>op_file := ''night.itch''\<rparr>))"
    using parse_args_written [of "[SetFile ''night.itch'']"] by (simp add: default_options_def)
  then show ?thesis
    using replayer_process_fails [OF small_disk process_sock parse, of "([], [], 0)" process_host "\<lambda>_. True"]
    by (auto simp: small_files_def c_str_def)
qed

section \<open>The capture\<close>

text \<open>
  C32. A capture run writes a pcap file that reads back as one IPv4 packet for each datagram received,
  in order, up to the number asked for: its header checksum verifies, its lengths and addresses are
  the datagram's, and its payload is the datagram. The run stays inside its buffers and ends when
  the count is reached or the socket fails.
\<close>

theorem capture_reads_back:
  assumes "capture_source arrivals host" and "\<forall>(b, from) \<in> set (arrivals w). length b \<le> 65507"
  shows "\<exists>cl w' recs. capture_run host opts fd w = Some (cl, w') \<and> read_pcap (cl_file cl) = Some recs \<and>
     list_all2 (captured host opts) (take (nat (co_count opts)) (arrivals w)) recs"
  by (rule capture_run_file [OF assms])

definition sim_capture :: "((bytes \<times> sockaddr) list \<times> int) capture_host" where
  "sim_capture = \<lparr>cp_sock = \<lparr>sk_socket = (\<lambda>w. (3, w)), sk_close = (\<lambda>fd w. w), sk_setopt = (\<lambda>fd opt w. (0, w)),
       sk_bind = (\<lambda>fd a w. (0, w)), sk_getsockname = (\<lambda>fd w. (0, \<lparr>sin_port = 0, sin_addr = 0\<rparr>, w)),
       sk_getsockopt = (\<lambda>fd v w. (0, w)), sk_pton = (\<lambda>s. None), sk_errno = (\<lambda>_. 0), sk_strerror = (\<lambda>_. [])\<rparr>,
     cp_fopen = (\<lambda>name w. (True, w)),
     cp_recvfrom = (\<lambda>fd buf (as, t). case as of
         [] \<Rightarrow> (- 1, buf, \<lparr>sin_port = 0, sin_addr = 0\<rparr>, as, t)
       | (b, f) # as \<Rightarrow> (int (length b), b @ drop (length b) buf, f, as, t)),
     cp_gettimeofday = (\<lambda>(as, t). ((t, 0), as, t + 1))\<rparr>"

lemma sim_capture: "capture_source fst sim_capture"
  by (auto simp: capture_source_def sim_capture_def split: list.split)

theorem capture_reads_back_witness:
  "\<exists>cl w recs. capture_run sim_capture (default_capture\<lparr>co_count := 1\<rparr>) 3
      ([([1, 2, 3], \<lparr>sin_port = htons 5000, sin_addr = 0x0100007F\<rparr>), ([4], \<lparr>sin_port = 0, sin_addr = 0\<rparr>)], 0) = Some (cl, w) \<and>
     read_pcap (cl_file cl) = Some recs \<and> map (\<lambda>(sec, usec, pkt). drop 28 pkt) recs = [[1, 2, 3]]"
proof -
  let ?w = "([([1, 2, 3 :: u8], \<lparr>sin_port = htons 5000, sin_addr = 0x0100007F\<rparr>), ([4], \<lparr>sin_port = 0, sin_addr = 0\<rparr>)], 0 :: int)"
  have "\<forall>(b, from) \<in> set (fst ?w). length b \<le> 65507" by simp
  from capture_reads_back [OF sim_capture this, of "default_capture\<lparr>co_count := 1\<rparr>" 3] obtain cl w recs where
    run: "capture_run sim_capture (default_capture\<lparr>co_count := 1\<rparr>) 3 ?w = Some (cl, w)" "read_pcap (cl_file cl) = Some recs"
    "list_all2 (captured sim_capture (default_capture\<lparr>co_count := 1\<rparr>)) [([1, 2, 3], \<lparr>sin_port = htons 5000, sin_addr = 0x0100007F\<rparr>)] recs"
    by auto
  then have "map (\<lambda>(sec, usec, pkt). drop 28 pkt) recs = [[1, 2, 3]]"
    by (auto simp: list_all2_Cons1 captured_def packet_says_def)
  then show ?thesis using run(1,2) by (intro exI [of _ cl] exI [of _ w] exI [of _ recs]) simp
qed

section \<open>Measuring\<close>

text \<open>
  C34. The conversion of ticks to nanoseconds is within a nanosecond and a few parts in \<open>2 ^ 53\<close> of the
  exact product, and never undefined below \<open>2 ^ 63\<close> nanoseconds; and the clock is reported as usable
  exactly when both flags are words of the first line of flags.
\<close>

theorem clock_conversion:
  assumes "0 \<le> tc_ns_per_tick clock" and "of_nat (unat ticks) * tc_ns_per_tick clock < 2 ^ 63"
  shows "(\<exists>ns. to_ns clock ticks = Some ns \<and>
       \<bar>of_nat (unat ns) - of_nat (unat ticks) * tc_ns_per_tick clock\<bar>
         \<le> 1 + of_nat (unat ticks) * tc_ns_per_tick clock / 2 ^ 51) \<and>
     (invariant_tsc_available info \<longleftrightarrow>
       (\<exists>s. info = Some s \<and> {''constant_tsc'', ''nonstop_tsc''} \<subseteq> flags_of s))"
  using to_ns_error [OF assms] tsc_available_words by blast

theorem clock_conversion_witness:
  "(\<exists>ns. to_ns \<lparr>tc_ns_per_tick = 1 / 3\<rparr> 3000 = Some ns \<and> \<bar>of_nat (unat ns) - (1000 :: rat)\<bar> \<le> 1 + 1000 / 2 ^ 51) \<and>
   \<not> invariant_tsc_available (Some ''flags : tsc constant_tsc'')"
proof
  have "0 \<le> tc_ns_per_tick \<lparr>tc_ns_per_tick = 1 / 3\<rparr>" "of_nat (unat (3000 :: u64)) * tc_ns_per_tick \<lparr>tc_ns_per_tick = 1 / 3\<rparr> < 2 ^ 63"
    by simp_all
  from clock_conversion [OF this]
  show "\<exists>ns. to_ns \<lparr>tc_ns_per_tick = 1 / 3\<rparr> 3000 = Some ns \<and> \<bar>of_nat (unat ns) - (1000 :: rat)\<bar> \<le> 1 + 1000 / 2 ^ 51"
    by auto
  show "\<not> invariant_tsc_available (Some ''flags : tsc constant_tsc'')" by code_simp
qed

text \<open>
  C33. A recorder of a fixed capacity keeps the first samples and counts the others; after a warm-up
  discard every percentile is the sample of a rank within half a place, up to rounding, of its exact
  rank, and the maximum is the largest sample. Nothing is read outside the samples recorded.
\<close>

theorem recorder_percentiles:
  assumes "xs = drop (unat n) (take (unat capacity) ts)" and "xs \<noteq> []" and "length xs < 2 ^ 50" and "0 \<le> p" and "p \<le> 1"
  shows "\<exists>lr lr'. foldM record_ticks ts (new_recorder capacity) = Some lr \<and>
     lr_dropped lr = word_of_nat (length ts - unat capacity) \<and> discard_first n lr = Some lr' \<and>
     unat (lr_count lr') = length xs \<and> max_ticks lr' = Some (Max (set xs)) \<and>
     (\<exists>i < length xs. percentile p lr' = Some (sort xs ! i) \<and>
        \<bar>of_nat i - p * of_nat (length xs - 1)\<bar> \<le> 1 / 2 + of_nat (length xs) / 2 ^ 51)"
proof -
  from record_all_holds [OF new_recorder_holds, of ts capacity] obtain lr where lr:
    "foldM record_ticks ts (new_recorder capacity) = Some lr" "lr_holds lr (unat capacity) (take (unat capacity) ts)"
    "lr_dropped lr = word_of_nat (length ts - unat capacity)" by (auto simp: new_recorder_def)
  from discard_first_holds [OF lr(2), of n] obtain lr' where lr': "discard_first n lr = Some lr'"
    "lr_holds lr' (unat capacity) xs" unfolding assms(1) by blast
  have "unat (lr_count lr') = length xs" using lr'(2) by (simp add: lr_holds_def)
  then show ?thesis
    using lr lr'(1) max_ticks_Max [OF lr'(2) assms(2)] percentile_rank [OF lr'(2) assms(2-5)] by blast
qed

theorem recorder_percentiles_witness:
  "\<exists>lr lr'. foldM record_ticks [90, 7, 3, 5, 4] (new_recorder 4) = Some lr \<and> lr_dropped lr = 1 \<and>
     discard_first 1 lr = Some lr' \<and> max_ticks lr' = Some 7 \<and> percentile 1 lr' = Some 7"
proof -
  have xs: "[7, 3, 5] = drop (unat (1 :: size_t)) (take (unat (4 :: size_t)) [90, 7, 3, 5, 4 :: u64])" by simp
  have "[7, 3, 5 :: u64] \<noteq> []" "length [7, 3, 5 :: u64] < 2 ^ 50" "0 \<le> (1 :: rat)" "(1 :: rat) \<le> 1" by simp_all
  from recorder_percentiles [OF xs this] obtain lr lr' i where run:
    "foldM record_ticks [90, 7, 3, 5, 4] (new_recorder 4) = Some lr" "lr_dropped lr = 1" "discard_first 1 lr = Some lr'"
    "max_ticks lr' = Some (Max (set [7, 3, 5]))" "i < 3" "percentile 1 lr' = Some (sort [7, 3, 5] ! i)"
    "\<bar>of_nat i - (2 :: rat)\<bar> \<le> 1 / 2 + 3 / 2 ^ 51"
    by (auto simp del: foldM.simps simp: numeral_3_eq_3)
  have "i = 2" using run(5,7) by (cases "i = 0 \<or> i = 1") auto
  moreover have "sort [7, 3, 5 :: u64] ! 2 = 7" by simp
  moreover have "Max (set [7, 3, 5 :: u64]) = 7" by simp
  ultimately show ?thesis
    using run(1-4,6) by (intro exI [of _ lr] exI [of _ lr']) (simp del: foldM.simps)
qed

end
