(* ===== verification/Spec2Isabelle.thy ===== *)
theory Spec2Isabelle
  imports Feed_Report Book_Properties Wire_Properties Io_Properties
begin

text \<open>
  This library models the market data pipeline of the repository: the part that takes a NASDAQ
  ITCH 5.0 byte stream to limit order books (\<open>src/src/book\<close>, \<open>src/src/itch\<close>,
  \<open>src/src/common\<close>), the offline driver over it (\<open>src/apps/feed_handler/main.cc\<close>), and the wire side:
  the replayer that packs a file into MoldUDP64 datagrams and sends them
  (\<open>src/apps/replayer\<close>, \<open>src/src/mold\<close>), the receiver (\<open>src/src/receive\<close>) and the decoder that
  hands the messages on.

  How the program is put together. \<open>Framer::next\<close> walks a buffer of length-prefixed messages;
  the decoders of \<open>itch/decoder.cc\<close> read fixed offsets of one message with the big-endian readers
  of \<open>common/byte_reader.h\<close>; \<open>apply_message\<close> (\<open>book/replay.cc\<close>), or the audited switch of the
  feed handler's \<open>main\<close>, routes it by stock locate to one \<open>OrderBook\<close> of the \<open>BookSet\<close>; a book is
  an open-addressing hash index of resting orders (\<open>OrderIndex\<close> in \<open>common/flat_hash_map.h\<close>) and
  two \<open>PriceLevels\<close>, each a window of one-cent cells with an occupancy bitmap and a cached best,
  and a map for the prices outside the window. On the wire side the same messages go through
  \<open>Packer\<close>, the pacing and dropping of the replayer's loop, \<open>UdpSender::send\<close>, the datagram network,
  \<open>RecvfromReceiver::run\<close> and \<open>Decoder::on_packet\<close>, which tracks the sequence, counts gaps and
  duplicates and hands whole packets to the same \<open>apply_message\<close>.

  Conventions. Integers keep their C++ width (\<open>u8\<close> to \<open>u64\<close>), with the wrap-around of the type.
  A definition returns \<open>None\<close> where the C++ has no defined result: an access outside a vector or a
  buffer, or a loop that never ends; so every theorem \<open>f x = Some y\<close> also says that the code
  stays in bounds and terminates. Loops that the code does not bound are
  \<open>partial_function (option)\<close>, with no fuel. A pointer into a buffer is the list of the bytes from
  there on, and \<open>p + k\<close> is \<open>drop k\<close>. The accessors of a class are definitions of their own, beside
  its record. Assertions are off, as in the release build; where the debug build does more
  (the sampled check in the feed handler) the build is a parameter. Allocation
  never fails. A \<open>std::map\<close> keyed by price is an association list that \<open>Ordered_Map\<close> proves to be
  a sorted map.

  The theories, bottom up.
    \<^item> \<open>Prelude\<close>: machine types, checked vector access \<open>vget\<close>/\<open>vset\<close>, loops with faults \<open>foldM\<close>,
      the lemma collections the others use, and the locale \<open>counted_steps\<close>, a loop whose body
      implements a specification. \<open>Ring\<close>: distances around a power-of-two ring.
    \<^item> \<open>Order_Index\<close>: the definitions for \<open>OrderIndex\<close>. \<open>Index_Laws\<close> states the probe-chain invariant
      and what a probe finds, \<open>Index_Shift\<close> proves \<open>backward_shift\<close> by a loop invariant,
      \<open>Index_Map\<close> proves find, insert with growth, and erase to be the operations of a finite map,
      and \<open>Index_Contract\<close> states that map as the locale \<open>ref_index\<close> and interprets it on the code.
    \<^item> \<open>Bitmap\<close>: \<open>countr_zero\<close>, \<open>countl_zero\<close> and the scans over bitmap words. \<open>Ordered_Map\<close>: the
      contract \<open>std_map\<close>. \<open>Price_Levels\<close>: the definitions for \<open>PriceLevels\<close>; \<open>Price_Laws\<close> its
      invariant and abstraction to a map from prices to levels, \<open>Price_Rebase\<close> that moving the
      window keeps that map, \<open>Price_Ops\<close> that add, reduce and remove update it at one price,
      \<open>Price_View\<close> the best level, the sorted listing and the self check.
    \<^item> \<open>Resting_Orders\<close>: the specification's state, a map from references to resting orders, the level
      its orders make at a price, and the locale \<open>level_store\<close> that a side of a book must meet,
      interpreted on \<open>PriceLevels\<close>.
    \<^item> \<open>Order_Book\<close>: the definitions for \<open>OrderBook\<close>. \<open>Book_Laws\<close>: the specification of each
      operation on the resting orders and the refinement, \<open>Book_View\<close>: the queries and the rebuild
      check. \<open>Book_Set\<close>: the books by locate. \<open>Book_Properties\<close>: the properties of these parts.
    \<^item> \<open>Wire_Bytes\<close>, \<open>Itch_Messages\<close>, \<open>Framing\<close>: readers, message types and decoders, framer.
      The locale \<open>message_handler\<close> is what the loop over a buffer asks of its body; it is
      interpreted on \<open>apply_message\<close> in \<open>Replay\<close> and on the driver's loop in \<open>Feed_Run\<close>.
      \<open>Itch_Wire\<close>: the ITCH layouts, written from the field tables, that the decoders are proved to
      invert. The locale \<open>codec\<close> of \<open>Wire_Bytes\<close> is what a reader and the bytes it reads promise each
      other, both ways; it is interpreted on the big-endian readers, on every message decoder under
      its type byte and, in \<open>Mold\<close>, on the MoldUDP64 header. \<open>Wire_Properties\<close>: the properties of
      these parts, among them that what is decoded is well typed and loses nothing.
    \<^item> \<open>Replay\<close>: \<open>apply_message\<close>, \<open>replay\<close>, the specification \<open>spec_message\<close> of one message on the
      market of resting orders, and the refinement. \<open>Feed_Handler\<close>: the driver's loop and verdict;
      \<open>Feed_Laws\<close> the conservation of shares per event, \<open>Feed_Run\<close> the whole run, \<open>Feed_Report\<close> the
      counts by type and the top of book it prints.
    \<^item> \<open>Mold\<close>, \<open>Packer\<close>, \<open>Mold_Decoder\<close>: the MoldUDP64 header, packer and decoder
      (\<open>src/mold\<close>). \<open>Mold_Stream\<close>: the states a decoder reaches and what it has accounted for.
      \<open>Mold_Network\<close>: packets carried by a network that may lose, repeat and reorder them.
      \<open>Gap_Report\<close>: the gap list names exactly the numbers that were not delivered.
    \<^item> \<open>Doubles\<close>: the values of finite \<open>double\<close>s with rounding to nearest even; \<open>Rounding\<close>: the
      error bound. \<open>Gap_Injector\<close>, \<open>Host\<close> (the sending socket and the rate limiter over a parameter
      for the system calls), \<open>Replayer\<close> (the run of \<open>apps/replayer/main.cc\<close>), \<open>Replayer_Laws\<close> (that
      it cuts the file into packets, paces and sends them, and logs the schedule and the drops). \<open>Wire_Path\<close>: the decoder
      feeding the books. \<open>Drop_Report\<close>: the sender's drop log against the receiver's gap list.
      \<open>Mold_Properties\<close>: the properties of these parts.
    \<^item> \<open>C_Text\<close>: \<open>strtoull\<close>, \<open>atoi\<close>, \<open>atof\<close> and decimal printing. \<open>Replayer_Args\<close>, \<open>Replayer_Logs\<close>,
      \<open>File_Buffer\<close>, \<open>Replayer_Process\<close>: command line, logs, file and the process around the run.
    \<^item> \<open>Sockets\<close>: opening and closing sockets (\<open>receive/socket_setup.cc\<close>, \<open>mold/udp_sender.cc\<close>) with
      every error path. \<open>Receiver\<close>: the receive loop (\<open>receive/recvfrom_receiver.cc\<close>) and what it
      hands over. \<open>Checksum\<close>, \<open>Capture\<close>: the capture tool and its file, with a reader for it.
      \<open>Timing\<close>, \<open>Latency_Recorder\<close>: the tick clock and the percentiles of \<open>src/common\<close>.
      \<open>Io_Properties\<close>: the properties of these parts.
    \<^item> This theory: the properties of the pipeline as a whole, offline and over the wire.

  What is outside the sources is an argument of the definitions: the socket calls, \<open>sendto\<close>,
  \<open>recvfrom\<close>, the clocks, sleeping, the time stamp counter, \<open>errno\<close>, the file system and the
  threads that may ask the receiver to stop, each over a state of the world of any type. What the
  code relies on is a predicate of its own (\<open>datagram_host\<close>, \<open>rx_source\<close>, \<open>socket_laws\<close>,
  \<open>capture_source\<close>, \<open>regular_files\<close>, \<open>clock_advances\<close>, \<open>steady_clock\<close>) and states the documented behaviour of the
  call; every property that assumes one has a witness on a concrete host.

  Bounds. Events must have fewer than \<open>2 ^ 31\<close> shares, because the index keeps the side in bit 31
  of the share count and only an assertion says so; \<open>big_sell_becomes_buy\<close> is what happens
  otherwise. The refinement theorems ask for fewer than \<open>2 ^ 32\<close> resting orders or messages, so
  that no \<open>uint32_t\<close> order count or \<open>uint64_t\<close> share sum wraps; the exchange's day is below a
  billion messages. \<open>message_ok\<close> asks that a message of a known type has at least its length: the
  pipeline only counts a wrong length, so a longer message is applied all the same, and a shorter
  one is decoded from whatever follows it (\<open>short_message_overruns\<close>). A session has fewer
  than \<open>2 ^ 64\<close> messages and a file fewer than \<open>2 ^ 63\<close> bytes. A captured datagram has at most
  65507 bytes, the most IPv4 carries. \<open>read_records\<close>, the spinning and receiving loops and the
  framer's walk need no fuel: they are proved to end, the open loops under the stated behaviour of
  the clock or the socket.

  Not modelled: the text of the printed summaries, whose numbers are records instead; infinities,
  hexadecimal and subnormal numbers of \<open>atof\<close>; cache prefetching, which has no effect on the state;
  the reordering of memory operations around the counter reads; the build files and scripts. The
  directories \<open>ouch\<close>, \<open>risk\<close>, \<open>soup\<close>, \<open>strategy\<close>, \<open>exchange_sim\<close>, \<open>bench\<close> and \<open>scripts\<close> hold no code.
\<close>

section \<open>The offline path\<close>

text \<open>A short day: a directory message, two orders, an execution and a replacement.\<close>

definition day_add :: "u64 \<Rightarrow> char \<Rightarrow> u32 \<Rightarrow> u32 \<Rightarrow> bytes" where
  "day_add ref side shares price = wire_add_order (CHR ''A'') (sample_add\<lparr>ao_order_ref := ref, ao_side := side,
     ao_shares := shares, ao_price := price\<rparr>)"

definition day :: bytes where
  "day = concat (map frame
     [wire_stock_directory (replicate 14 0) 78 \<lparr>sd_header = sample_header, sd_stock = ''AAPL    '',
        sd_market_category = CHR ''Q'', sd_round_lot_size = 100\<rparr>,
      day_add 11 (CHR ''B'') 300 1500000, day_add 12 (CHR ''S'') 200 1500100,
      wire_order_executed \<lparr>oe_header = sample_header, oe_order_ref = 11, oe_executed_shares = 100,
        oe_match_number = 1, oe_execution_price = 0, oe_printable = True\<rparr>,
      wire_order_replace \<lparr>or_header = sample_header, or_original_order_ref = 12, or_new_order_ref = 13,
        or_shares = 50, or_price = 1500200\<rparr>])"

lemma day_views:
  "length day = 187" "length (frame_views 187 day) = 5" "\<forall>v \<in> set (frame_views 187 day). driver_ok v"
  "snd (split_frames day) = []"
  by code_simp+

lemma day_messages: "\<forall>v \<in> set (frame_views 187 day). message_ok v"
  using day_views(3) by (simp add: driver_ok_def)

text \<open>A delete that is a byte too long, for a locate no directory message has named.\<close>

definition long_delete :: bytes where
  "long_delete = frame (wire_order_delete \<lparr>od_header = sample_header, od_order_ref = 13\<rparr> @ [0])"

lemma long_delete_views:
  "length long_delete = 22" "length (frame_views 22 long_delete) = 1" "list_all message_ok (frame_views 22 long_delete)"
  "case frame_views 22 long_delete of v # vs \<Rightarrow> (let st = snd (spec_message v (Map.empty, new_stats))
     in rs_length_mismatch st = 1 \<and> rs_unknown_locate st = 1) | _ \<Rightarrow> False"
  by code_simp+

text \<open>
  C2. \<open>replay\<close> of a whole buffer of fewer than \<open>2 ^ 32\<close> messages, of which those of a known type have
  at least the length of the type and quantities below \<open>2 ^ 31\<close>, never reads outside the buffer,
  ends, and builds the books and the counters that folding the specification of one message over
  the framed messages gives; a message longer than its type is counted as a mismatch and applied.
\<close>

theorem replay_refines:
  assumes "unat n \<le> length data" and "length (frame_views (unat n) data) < 2 ^ 32"
    and "\<forall>v \<in> set (frame_views (unat n) data). message_ok v"
  shows "\<exists>books stats. replay new_book_set data n = Some (books, stats) \<and>
     bs_inv (length (frame_views (unat n) data)) books \<and>
     (bs_view books, stats) = fold spec_message (frame_views (unat n) data) (Map.empty, new_stats)"
  using assms by (rule replay_correct)

theorem replay_refines_witness:
  "(\<exists>books stats. replay new_book_set day 187 = Some (books, stats) \<and> bs_inv 5 books) \<and>
   (\<exists>books stats. replay new_book_set long_delete 22 = Some (books, stats) \<and>
     rs_length_mismatch stats = 1 \<and> rs_unknown_locate stats = 1)"
proof
  show "\<exists>books stats. replay new_book_set day 187 = Some (books, stats) \<and> bs_inv 5 books"
    using replay_refines [of 187 day] day_views day_messages by auto
  obtain v where v: "frame_views 22 long_delete = [v]"
    using long_delete_views(2) by (auto simp: length_Suc_conv)
  from replay_refines [of 22 long_delete] obtain books stats where
    "replay new_book_set long_delete 22 = Some (books, stats)"
    "(bs_view books, stats) = spec_message v (Map.empty, new_stats)"
    using long_delete_views(1-3) by (auto simp: v)
  moreover from this(2) have "stats = snd (spec_message v (Map.empty, new_stats))" by (metis snd_conv)
  ultimately show "\<exists>books stats. replay new_book_set long_delete 22 = Some (books, stats) \<and>
     rs_length_mismatch stats = 1 \<and> rs_unknown_locate stats = 1"
    using long_delete_views(4) unfolding v list.case Let_def by blast
qed

text \<open>
  C3. The driver on a stream whose orders have shares and whose replacements have a reference:
  it ends, none of its checks fires in either build, the resting shares are exactly the shares
  added less the shares executed, cancelled and deleted, its books and counters are those of
  \<open>replay\<close>, it reports exact framing just when nothing is left over, and it exits with 0 just
  when every type was known and the counters are clean. What it prints besides is right: it counts
  the messages and each type, and its table has the first ten locates whose resting orders make a
  market with two sides, with the name of the last directory entry and the best level of each side.
\<close>

theorem feed_handler_conserves:
  assumes "length file < 2 ^ 64" and "length (frame_views (length file) file) < 2 ^ 32"
    and "\<forall>v \<in> set (frame_views (length file) file). driver_ok v"
  shows "\<exists>rep. feed_main debug file = Some rep \<and>
     fs_invariants_ok (fe_state rep) \<and> fe_resting rep = fe_expected rep \<and>
     replay new_book_set file (word_of_nat (length file)) = Some (fs_books (fe_state rep), stats_of (fe_state rep)) \<and>
     (fe_exit rep = 0 \<longleftrightarrow> fs_unknown_type (fe_state rep) = 0 \<and> stats_clean (stats_of (fe_state rep))) \<and>
     (fe_exact rep \<longleftrightarrow> snd (split_frames file) = []) \<and>
     fs_messages (fe_state rep) = word_of_nat (length (frame_views (length file) file)) \<and>
     (\<forall>t. fs_counts (fe_state rep) t = (let n = type_count (frame_views (length file) file) t
        in if n = 0 then None else Some (word_of_nat n))) \<and>
     fe_top rep = take 10 (market_tops (directory_names (frame_views (length file) file)) (bs_view (fs_books (fe_state rep))))"
proof -
  obtain rep where rep: "feed_main debug file = Some rep" using feed_main_correct [OF assms] by blast
  show ?thesis
    using feed_main_correct [OF assms, of debug] feed_main_report [OF assms rep] rep unfolding Let_def by auto
qed

theorem feed_handler_conserves_witness:
  "\<exists>rep. feed_main True day = Some rep \<and> fe_resting rep = fe_expected rep \<and> fe_exact rep \<and>
     fs_counts (fe_state rep) (CHR ''A'') = Some 2"
proof -
  have "type_count (frame_views (length day) day) (CHR ''A'') = 2" unfolding day_views(1) by code_simp
  then show ?thesis using feed_handler_conserves [of day True] day_views by (auto simp: Let_def)
qed



section \<open>The wire path\<close>

text \<open>
  The two paths agree. A file the replayer has sent completely (no injected drops, no packet
  limit, every message fits a packet, exit code 0) and whose datagrams all arrive in order leaves
  the receiver with exactly the books and the counters of the offline replay of the same file; the
  decoder has seen the end of the session, no gap, no duplicate and no malformed packet, and has
  delivered as many messages as the replayer says it packed.
\<close>

theorem wire_path_is_offline_path:
  assumes "datagram_host sent host" and "CHR 0x00 \<notin> set (op_session opts)"
    and "unat (op_max_payload opts) + kHeaderSize < 2 ^ 64" and "length data < 2 ^ 63"
    and "paced host (fst (new_limiter host (op_rate opts) w)) (length data + 1)"
    and "choose_gaps opts = gap_none" and "op_max_packets opts = 0"
    and "\<forall>v \<in> set (frame_views (length data) data). message_ok v \<and> fits_in (op_max_payload opts) (view_bytes v)"
    and "replayer_main host opts data w = Some (Inr rep)" and "rp_exit rep = 0"
    and "sent (rn_world (rp_run rep)) = sent w @ datagrams" and "list_all2 carries pkts datagrams"
  shows "\<exists>d. wire_replay pkts = map_option (Pair d) (replay new_book_set data (word_of_nat (length data))) \<and>
     md_eos d \<and> troubles d = troubles new_decoder \<and> md_messages d = rn_packed (rp_run rep)"
proof -
  let ?vs = "frame_views (length data) data"
  from replayer_correct [OF assms(1-5)] obtain chunks acc where run:
    "concat chunks = fitting (op_max_payload opts) ?vs" "\<forall>c \<in> set chunks. chunk_ok c"
    "sent (rn_world (rp_run rep)) = sent w @ acc" "acc = offered_packets opts chunks"
    "rn_packed (rp_run rep) = word_of_nat (length (concat chunks))"
    using assms(7,9,10) by auto
  have "fitting (op_max_payload opts) ?vs = map view_bytes ?vs"
    unfolding fitting_def using assms(8) by (intro filter_True) auto
  then have whole: "concat chunks = map view_bytes ?vs" using run(1) by simp
  have "acc = packets_of (run_session opts) 1 chunks @ [eos_packet (run_session opts) (1 + word_of_nat (length (concat chunks)))]"
    unfolding run(4) offered_packets_def assms(6) drop_run_none
    by (metis length_packets_of survivors_none)
  moreover have "datagrams = acc" using run(3) assms(11) by simp
  ultimately have pkts: "list_all2 carries pkts (packets_of (run_session opts) 1 chunks @
      [eos_packet (run_session opts) (1 + word_of_nat (length (concat chunks)))])" using assms(12) by simp
  have n: "unat (word_of_nat (length data) :: size_t) = length data"
    using assms(4) by (intro unat_of_nat_64) simp
  note arrived = lossless_session [OF pkts length_run_session run(2)]
  have "wire_replay pkts = map_option (Pair (fold decoder_step pkts new_decoder))
      (replay new_book_set data (word_of_nat (length data)))"
    by (rule wire_path [OF pkts length_run_session run(2)]) (use n whole assms(8) in auto)
  then show ?thesis using arrived(1-3) run(5) by metis
qed

text \<open>The day above, packed 60 bytes to a packet.\<close>

definition day_options :: options where
  "day_options = default_options\<lparr>op_max_payload := 60\<rparr>"

lemma day_fits: "\<forall>v \<in> set (frame_views 187 day). message_ok v \<and> fits_in 60 (view_bytes v)"
proof -
  have "\<forall>v \<in> set (frame_views 187 day). length (view_bytes v) < 58" by code_simp
  then show ?thesis using day_messages by (auto simp: fits_in_def)
qed

lemma day_sent:
  "case replayer_main sim_host day_options day ([], 0) of
     Some (Inr rep) \<Rightarrow> rp_exit rep = 0 \<and> list_all (\<lambda>b. length b < 200) (fst (rn_world (rp_run rep)))
   | _ \<Rightarrow> False"
  by code_simp

lemma day_run_hypotheses:
  "CHR 0x00 \<notin> set (op_session day_options)" "unat (op_max_payload day_options) + kHeaderSize < 2 ^ 64"
  "length day < 2 ^ 63" "paced sim_host (fst (new_limiter sim_host (op_rate day_options) ([], 0))) (length day + 1)"
  "choose_gaps day_options = gap_none" "op_max_packets day_options = 0"
  "\<forall>v \<in> set (frame_views (length day) day). message_ok v \<and> fits_in (op_max_payload day_options) (view_bytes v)"
proof -
  have payload: "op_max_payload day_options = 60" by (simp add: day_options_def)
  show "\<forall>v \<in> set (frame_views (length day) day). message_ok v \<and> fits_in (op_max_payload day_options) (view_bytes v)"
    using day_fits by (simp add: day_views(1) payload)
qed (simp_all add: day_options_def default_options_def kHeaderSize_def choose_gaps_def day_views(1)
    paced_def new_limiter_def sim_host_def)

theorem wire_path_is_offline_path_witness:
  "\<exists>rep d. replayer_main sim_host day_options day ([], 0) = Some (Inr rep) \<and>
     wire_replay (map in_view (fst (rn_world (rp_run rep)))) = map_option (Pair d) (replay new_book_set day 187) \<and>
     md_eos d \<and> md_gaps_total d = 0"
proof -
  obtain rep where rep: "replayer_main sim_host day_options day ([], 0) = Some (Inr rep)" "rp_exit rep = 0"
    "\<forall>b \<in> set (fst (rn_world (rp_run rep))). length b < 200"
    using day_sent by (auto split: option.splits sum.splits simp: list_all_iff)
  have pkts: "list_all2 carries (map in_view (fst (rn_world (rp_run rep)))) (fst (rn_world (rp_run rep)))"
    using rep(3) by (simp add: list_all2_map1 list_all2_same in_view_carries)
  have "fst (rn_world (rp_run rep)) = fst ([] :: bytes list, 0 :: int) @ fst (rn_world (rp_run rep))" by simp
  from wire_path_is_offline_path [OF sim_host(1) day_run_hypotheses rep(1,2) this pkts]
  show ?thesis using rep(1) by (auto simp: day_views(1) troubles_def new_decoder_def)
qed

section \<open>From the file to the books behind the receiver\<close>

text \<open>
  C4. The whole wire path: the replayer packs a file and sends it, the receiver's loop takes what
  arrives and hands it to the decoder, and the decoder's messages are applied to the books. When
  nothing is dropped on purpose, no packet limit is set, every message is well formed and fits a
  packet, the run ends with exit code 0 and everything sent arrives in order, interrupted calls and
  oversized strays included, the books and counters are exactly those of the offline replay of the
  file, which has them for fewer than \<open>2 ^ 32\<close> messages, with nothing lost, repeated or malformed.
\<close>

theorem received_books_are_offline_books:
  assumes "datagram_host sent host" and "CHR 0x00 \<notin> set (op_session opts)"
    and "unat (op_max_payload opts) + kHeaderSize < 2 ^ 64" and "length data < 2 ^ 63"
    and "paced host (fst (new_limiter host (op_rate opts) w)) (length data + 1)"
    and "choose_gaps opts = gap_none" and "op_max_packets opts = 0"
    and "\<forall>v \<in> set (frame_views (length data) data). message_ok v \<and> fits_in (op_max_payload opts) (view_bytes v)"
    and "replayer_main host opts data w = Some (Inr rep)" and "rp_exit rep = 0"
    and "sent (rn_world (rp_run rep)) = sent w @ datagrams"
    and "rx_source pending rx" and "small_events (pending rw)" and "filter rx_fits (rx_seen (pending rw)) = datagrams"
  shows "\<exists>rv rw' d. receiver_run (beside rx) (feed (\<lambda>pkt. on_packet pkt apply_sink) (\<lambda>_. False))
       (new_receiver, rw, new_decoder, new_book_set, new_stats) =
         map_option (\<lambda>books. (rv, rw', d, books)) (replay new_book_set data (word_of_nat (length data))) \<and>
     md_eos d \<and> troubles d = troubles new_decoder \<and> md_messages d = rn_packed (rp_run rep) \<and>
     run_counts (pending rw) new_receiver rv \<and>
     (length (frame_views (length data) data) < 2 ^ 32 \<longrightarrow>
       (\<exists>books. replay new_book_set data (word_of_nat (length data)) = Some books))"
proof -
  let ?f = "\<lambda>pkt. on_packet pkt apply_sink" and ?s = "(new_decoder, new_book_set, new_stats)"
  obtain pkts rv rw' where rx: "list_all2 carries pkts (filter rx_fits (rx_seen (pending rw)))"
    "run_counts (pending rw) new_receiver rv"
    "receiver_run (beside rx) (feed ?f (\<lambda>_. False)) (new_receiver, rw, ?s) = map_option (\<lambda>s. (rv, rw', s)) (foldM ?f pkts ?s)"
    by (rule receiver_folds [OF assms(12,13) new_receiver_ready])
  from wire_path_is_offline_path [OF assms(1-11) rx(1) [unfolded assms(14)]] obtain d where
    "wire_replay pkts = map_option (Pair d) (replay new_book_set data (word_of_nat (length data)))"
    "md_eos d" "troubles d = troubles new_decoder" "md_messages d = rn_packed (rp_run rep)" by blast
  moreover have "\<exists>books. replay new_book_set data (word_of_nat (length data)) = Some books"
    if "length (frame_views (length data) data) < 2 ^ 32"
  proof -
    have "unat (word_of_nat (length data) :: u64) = length data" using assms(4) by (intro unat_of_nat_64) simp
    then show ?thesis using replay_correct [of "word_of_nat (length data)" data] that assms(8) by auto
  qed
  ultimately show ?thesis
    using rx(2,3) by (intro exI [of _ rv] exI [of _ rw'] exI [of _ d]) (simp add: wire_replay_def option.map_comp comp_def)
qed

text \<open>The day's datagrams on a socket that is interrupted once and gets a stray of 3000 bytes.\<close>

definition day_events :: "bytes list \<Rightarrow> rx_event list" where
  "day_events bs = Signal # Arrives (replicate 3000 0) # map Arrives bs @ [StopAsked]"

lemma day_events_seen:
  assumes "\<forall>b \<in> set bs. length b < 200"
  shows "filter rx_fits (rx_seen (day_events bs)) = bs" and "small_events (day_events bs)"
proof -
  have "rx_seen (map Arrives bs @ [StopAsked]) = bs" by (induction bs) simp_all
  moreover have "filter rx_fits bs = bs" using assms by (fastforce simp: rx_fits_def kBufferSize_def intro: filter_True)
  ultimately show "filter rx_fits (rx_seen (day_events bs)) = bs"
    by (simp add: day_events_def rx_fits_def kBufferSize_def)
  show "small_events (day_events bs)"
    using assms by (fastforce simp: small_events_def day_events_def)
qed

theorem received_books_are_offline_books_witness:
  "\<exists>rep rv rw d. replayer_main sim_host day_options day ([], 0) = Some (Inr rep) \<and>
     receiver_run (beside sim_rx) (feed (\<lambda>pkt. on_packet pkt apply_sink) (\<lambda>_. False))
       (new_receiver, (day_events (fst (rn_world (rp_run rep))), 0, 0), new_decoder, new_book_set, new_stats) =
     map_option (\<lambda>books. (rv, rw, d, books)) (replay new_book_set day 187) \<and>
     md_eos d \<and> rv_truncated rv = 1"
proof -
  obtain rep where rep: "replayer_main sim_host day_options day ([], 0) = Some (Inr rep)" "rp_exit rep = 0"
    "\<forall>b \<in> set (fst (rn_world (rp_run rep))). length b < 200"
    using day_sent by (auto split: option.splits sum.splits simp: list_all_iff)
  let ?bs = "fst (rn_world (rp_run rep))"
  note day = day_run_hypotheses
  have "fst (rn_world (rp_run rep)) = fst ([] :: bytes list, 0 :: int) @ ?bs" by simp
  from received_books_are_offline_books [OF sim_host(1) day rep(1,2) this sim_rx, of "(day_events ?bs, 0, 0)"]
    day_events_seen [OF rep(3)]
  obtain rv rw d where run: "receiver_run (beside sim_rx) (feed (\<lambda>pkt. on_packet pkt apply_sink) (\<lambda>_. False))
       (new_receiver, (day_events ?bs, 0, 0), new_decoder, new_book_set, new_stats) =
     map_option (\<lambda>books. (rv, rw, d, books)) (replay new_book_set day (word_of_nat (length day)))"
    "md_eos d" "run_counts (day_events ?bs) new_receiver rv" by auto
  have "filter (Not \<circ> rx_fits) (rx_seen (map Arrives ?bs @ [StopAsked])) = []"
  proof -
    have "rx_seen (map Arrives bs @ [StopAsked]) = bs" for bs by (induction bs) simp_all
    then show ?thesis using rep(3) by (auto simp: filter_empty_conv rx_fits_def kBufferSize_def)
  qed
  then have "rv_truncated rv = 1"
    using run(3) by (simp add: run_counts_def day_events_def new_receiver_def rx_fits_def kBufferSize_def)
  then show ?thesis
    using rep(1) run(1,2) by (intro exI [of _ rep] exI [of _ rv] exI [of _ rw] exI [of _ d]) (simp add: day_views(1))
qed

section \<open>Books behind a network that loses packets\<close>

text \<open>A message on its own, not in the middle of a buffer.\<close>

definition own_view :: "bytes \<Rightarrow> message_view" where
  "own_view m = \<lparr>mv_data = m, mv_size = word_of_nat (length m)\<rparr>"

lemma own_view_bytes:
  assumes "m \<noteq> []" and "length m < 65536"
  shows "view_bytes (own_view m) = m" and "mv_ok (own_view m)"
  using assms by (simp_all add: own_view_def view_bytes_def mv_ok_def unat_of_nat_64 unat_eq_zero [symmetric])

text \<open>What the books make of the messages a decoder handed on.\<close>

lemma wire_books:
  assumes pkts: "\<forall>pkt \<in> set pkts. pkt_ok pkt" and count: "length ms < 2 ^ 32"
    and bytes: "map (view_bytes \<circ> fst) (stream_views pkts new_decoder) = ms"
    and ok: "\<forall>m \<in> set ms. m \<noteq> [] \<and> length m < 65536 \<and> message_ok (own_view m)"
  shows "\<exists>books stats. wire_replay pkts = Some (fold decoder_step pkts new_decoder, books, stats) \<and>
    bs_inv (length ms) books \<and> (bs_view books, stats) = fold spec_message (map own_view ms) (Map.empty, new_stats)"
proof -
  have "views_ok (map own_view ms)" using own_view_bytes(2) ok by (auto simp: views_ok_def)
  moreover have "map (view_bytes \<circ> own_view) ms = ms" using own_view_bytes(1) ok by (simp add: map_idI)
  then have "map view_bytes (map fst (stream_views pkts new_decoder)) = map view_bytes (map own_view ms)"
    using bytes by simp
  ultimately have "foldM apply_message (map fst (stream_views pkts new_decoder)) (new_book_set, new_stats) =
      foldM apply_message (map own_view ms) (new_book_set, new_stats)"
    using foldM_apply_cong [OF _ _ stream_views_ok [OF pkts]] ok by simp
  moreover obtain books stats where "foldM apply_message (map own_view ms) (new_book_set, new_stats) = Some (books, stats)"
    "bs_inv (length ms) books" "(bs_view books, stats) = fold spec_message (map own_view ms) (Map.empty, new_stats)"
    by (rule apply_messages [of "map own_view ms"]) (use count ok in auto)
  ultimately show ?thesis unfolding wire_replay_views [OF pkts] by simp
qed

text \<open>
  C5. The books behind a network that loses, repeats and reorders the packets of a session whose
  messages are well formed. The run never faults and ends, whatever arrives. The books are those of
  the specification folded over some of the messages sent, in the order they were sent; while the
  decoder's gap list has room these are exactly the messages from the first packet to the expected
  number that the list does not name, so whoever reads it knows which ones the books are missing.
\<close>

theorem lossy_wire_books:
  assumes "\<forall>pkt \<in> set (p # pkts). sent_by ses ms pkt" and "length ses = kSessionSize" and "length ms < 2 ^ 32"
    and "\<forall>m \<in> set ms. m \<noteq> [] \<and> length m < 65536 \<and> message_ok (own_view m)"
  defines "first \<equiv> unat (mh_sequence (pkt_header p))"
  shows "\<exists>d books stats kept. wire_replay (p # pkts) = Some (d, books, stats) \<and> bs_inv (length ms) books \<and>
     (bs_view books, stats) = fold spec_message (map own_view kept) (Map.empty, new_stats) \<and> subseq kept ms \<and>
     (md_eos d \<longrightarrow> unat (md_expected d) = length ms + 1) \<and>
     (length (md_gaps d) < kMaxGaps \<longrightarrow>
        kept = [ms ! (n - 1). n \<leftarrow> [first..<unat (md_expected d)], \<not> missing (md_gaps d) n])"
proof -
  let ?d = "fold decoder_step (p # pkts) new_decoder"
  have fits: "length ms + 65537 < 2 ^ 64" using assms(3) by simp
  have ok: "\<forall>pkt \<in> set (p # pkts). pkt_ok pkt" using assms(1) by (auto simp: sent_by_def carries_def)
  define kept where "kept = map (view_bytes \<circ> fst) (stream_views (p # pkts) new_decoder)"
  have kept: "subseq kept ms" using delivered_subseq [OF assms(1,2) fits] by (simp add: kept_def)
  then have shorter: "length kept \<le> length ms" by (rule list_emb_length)
  then have room: "length kept < 2 ^ 32" using assms(3) by simp
  have "\<forall>m \<in> set kept. m \<noteq> [] \<and> length m < 65536 \<and> message_ok (own_view m)"
    using list_emb_set [OF kept] assms(4) by metis
  then obtain books stats where run: "wire_replay (p # pkts) = Some (?d, books, stats)" "bs_inv (length kept) books"
    "(bs_view books, stats) = fold spec_message (map own_view kept) (Map.empty, new_stats)"
    using wire_books [OF ok room kept_def [symmetric]] by blast
  moreover have "bs_inv (length ms) books" using bs_inv_mono [OF run(2) shorter] .
  moreover have "md_eos ?d \<longrightarrow> unat (md_expected ?d) = length ms + 1"
    using session_below_end [OF assms(1,2) fits] by (simp add: below_end_def)
  moreover have "length (md_gaps ?d) < kMaxGaps \<longrightarrow>
      kept = [ms ! (n - 1). n \<leftarrow> [first..<unat (md_expected ?d)], \<not> missing (md_gaps ?d) n]"
    using session_delivers(2) [OF assms(1,2) fits] unfolding kept_def first_def present_comprehension by blast
  ultimately show ?thesis using kept by blast
qed

text \<open>The day's messages with the fourth, an execution, lost, and the second received twice.\<close>

definition day_parts :: "bytes list" where
  "day_parts = map view_bytes (frame_views 187 day)"

definition day_arrivals :: "packet_view list" where
  "day_arrivals = arrivals_of day_parts [0, 1, 1, 2, 4]"

lemma day_parts_ok:
  "list_all (\<lambda>m. m \<noteq> [] \<and> length m < 100 \<and> message_ok (own_view m)) day_parts" "length day_parts = 5"
  "unat (mh_sequence (pkt_header (hd day_arrivals))) = 1"
  by code_simp+

lemma day_sent_parts: "\<forall>pkt \<in> set day_arrivals. sent_by ''ITCH191230'' day_parts pkt"
  unfolding day_arrivals_def by (rule arrivals_sent) (use day_parts_ok in \<open>auto simp: list_all_iff\<close>)

lemma day_arrivals_end:
  "case foldM (\<lambda>pkt. on_packet pkt (\<lambda>_ _. Some)) day_arrivals (new_decoder, ()) of
     None \<Rightarrow> False
   | Some (d, _) \<Rightarrow> md_expected d = 6 \<and> md_gaps d = [\<lparr>gap_first_missing = 4, gap_count = 1\<rparr>]"
  by code_simp

lemma day_arrivals_decoder:
  assumes "wire_replay day_arrivals = Some (d, s)"
  shows "md_expected d = 6" and "md_gaps d = [\<lparr>gap_first_missing = 4, gap_count = 1\<rparr>]"
proof -
  have ok: "\<forall>pkt \<in> set day_arrivals. pkt_ok pkt" using day_sent_parts by (auto simp: sent_by_def carries_def)
  have "d = fold decoder_step day_arrivals new_decoder" using assms unfolding wire_replay_views [OF ok] by auto
  then show "md_expected d = 6" and "md_gaps d = [\<lparr>gap_first_missing = 4, gap_count = 1\<rparr>]"
    using day_arrivals_end unfolding on_packets_eq [OF ok] by (auto simp: case_prod_unfold split: option.splits)
qed

theorem lossy_wire_books_witness:
  "\<exists>d books stats. wire_replay day_arrivals = Some (d, books, stats) \<and>
     md_gaps d = [\<lparr>gap_first_missing = 4, gap_count = 1\<rparr>] \<and>
     (bs_view books, stats) = fold spec_message (map (own_view \<circ> (!) day_parts) [0, 1, 2, 4]) (Map.empty, new_stats)"
proof -
  have arrivals: "day_arrivals = hd day_arrivals # tl day_arrivals" by (simp add: day_arrivals_def arrivals_of_def)
  have "\<forall>m \<in> set day_parts. m \<noteq> [] \<and> length m < 65536 \<and> message_ok (own_view m)"
    using day_parts_ok(1) by (auto simp: list_all_iff)
  with lossy_wire_books [of "hd day_arrivals" "tl day_arrivals" "''ITCH191230''" day_parts] day_sent_parts
  obtain d books stats kept where run: "wire_replay day_arrivals = Some (d, books, stats)"
    "(bs_view books, stats) = fold spec_message (map own_view kept) (Map.empty, new_stats)"
    "length (md_gaps d) < kMaxGaps \<longrightarrow> kept = [day_parts ! (n - 1). n \<leftarrow> [1..<unat (md_expected d)], \<not> missing (md_gaps d) n]"
    unfolding arrivals [symmetric] day_parts_ok(2,3) by (auto simp: kSessionSize_def)
  note d = day_arrivals_decoder [OF run(1)]
  have "[day_parts ! (n - 1). n \<leftarrow> [1..<unat (md_expected d)], \<not> missing (md_gaps d) n] = map ((!) day_parts) [0, 1, 2, 4]"
    by (simp add: d missing_def upt_rec flip: numeral_2_eq_2 numeral_3_eq_3)
  then have "kept = map ((!) day_parts) [0, 1, 2, 4]" using run(3) by (simp add: d(2) kMaxGaps_def)
  then show ?thesis using run(1,2) d(2) by auto
qed

end
